(* ===== verification/Prelude.thy ===== *)
theory Prelude
  imports Main "HOL-Library.Word" "HOL-Library.Char_ord"
begin

unbundle bit_operations_syntax

text \<open>
  Shared vocabulary of the development: the machine types of the C sources, the errno
  values their functions return, the part of the C library (ctype.h, string.h, stdlib.h in
  the "C" locale) that the modelled functions call, and the generic lemmas on lists, words
  and digit strings that the component theories use.

  A C string is the list of its bytes before the terminating NUL; \<open>cget\<close> reads it with the
  NUL at its end.  A byte buffer of known size is a list whose length is that size.
\<close>

section \<open>Machine types and error values\<close>

type_synonym u8 = "8 word"
type_synonym u16 = "16 word"
type_synonym u32 = "32 word"
type_synonym u64 = "64 word"
type_synonym u128 = "128 word"
type_synonym bytes = "u8 list"

text \<open>The errno constants the modelled functions return, negated, as their result.  Other
  values that the operating system hands through are \<open>Errno n\<close>.\<close>

datatype errno =
    EINVAL | ERANGE | E2BIG | ENOENT | ENOMEM | EBADMSG | EOVERFLOW | EISDIR | EFBIG | EIO
  | ESTALE | ENAMETOOLONG | EEXIST | EREMOTEIO | EPROTO | ENOTUNIQ | EMSGSIZE | EOPNOTSUPP
  | EMEDIUMTYPE | ENOKEY | EHOSTUNREACH | ETIMEDOUT | Errno nat

type_synonym 'a res = "errno + 'a"

named_theorems ctype_defs \<open>definitions of the character classes\<close>
named_theorems buf_simps \<open>sizes and contents of updated buffers\<close>
named_theorems digits_simps \<open>evaluation of digit strings\<close>

section \<open>ctype.h in the "C" locale\<close>

abbreviation NUL :: char where "NUL \<equiv> CHR 0x00"
abbreviation TAB :: char where "TAB \<equiv> CHR 0x09"
abbreviation LF :: char where "LF \<equiv> CHR 0x0A"
abbreviation VT :: char where "VT \<equiv> CHR 0x0B"
abbreviation FF :: char where "FF \<equiv> CHR 0x0C"
abbreviation CR :: char where "CR \<equiv> CHR 0x0D"
abbreviation SPC :: char where "SPC \<equiv> CHR 0x20"

abbreviation ord :: "char \<Rightarrow> nat" where "ord c \<equiv> of_char c"

definition isdigit :: "char \<Rightarrow> bool" where
  [ctype_defs]: "isdigit c \<longleftrightarrow> CHR ''0'' \<le> c \<and> c \<le> CHR ''9''"

definition isspace :: "char \<Rightarrow> bool" where
  [ctype_defs]: "isspace c \<longleftrightarrow> c = SPC \<or> c = TAB \<or> c = LF \<or> c = VT \<or> c = FF \<or> c = CR"

definition isxdigit :: "char \<Rightarrow> bool" where
  [ctype_defs]: "isxdigit c \<longleftrightarrow> isdigit c \<or> (CHR ''a'' \<le> c \<and> c \<le> CHR ''f'')
     \<or> (CHR ''A'' \<le> c \<and> c \<le> CHR ''F'')"

definition tolower :: "char \<Rightarrow> char" where
  "tolower c = (if CHR ''A'' \<le> c \<and> c \<le> CHR ''Z'' then char_of (ord c + 32) else c)"

text \<open>No byte of a C string is NUL.\<close>

definition cstring :: "string \<Rightarrow> bool" where
  "cstring s \<longleftrightarrow> NUL \<notin> set s"

text \<open>\<open>s[i]\<close>, with the terminating NUL at \<open>i = strlen(s)\<close>.\<close>

definition cget :: "string \<Rightarrow> nat \<Rightarrow> char" where
  "cget s i = (if i < length s then s ! i else NUL)"

lemma cget_simps [simp]:
  "cget [] i = NUL"
  "cget (c # s) 0 = c"
  "cget (c # s) (Suc i) = cget s i"
  by (auto simp: cget_def)

lemma cget_numeral [simp]: "cget (c # s) (numeral n) = cget s (pred_numeral n)"
  by (simp add: numeral_eq_Suc)

lemma NUL_classes [simp]: "\<not> isdigit NUL" "\<not> isspace NUL" "\<not> isxdigit NUL" "tolower NUL = NUL"
  by (simp_all add: ctype_defs tolower_def)

lemma isdigit_not_isspace: "isdigit c \<Longrightarrow> \<not> isspace c"
  by (auto simp: ctype_defs)

lemma char_le_iff: "c \<le> d \<longleftrightarrow> ord c \<le> ord d"
  by (simp add: less_eq_char_def)

lemma isdigit_iff: "isdigit c \<longleftrightarrow> 48 \<le> ord c \<and> ord c \<le> 57"
  by (simp add: isdigit_def char_le_iff)

section \<open>Runs of characters and words: generic lemmas\<close>

lemma dropWhile_all_Nil: "dropWhile p s = [] \<longleftrightarrow> list_all p s"
  by (simp add: dropWhile_eq_Nil_conv list_all_iff)

lemma dropWhile_all_eq [simp]: "list_all p s \<Longrightarrow> dropWhile p s = []"
  by (simp add: list_all_iff)

lemma takeWhile_all [simp]: "list_all p s \<Longrightarrow> takeWhile p s = s"
  by (simp add: takeWhile_eq_all_conv list_all_iff)

lemma dropWhile_all: "list_all p w \<Longrightarrow> dropWhile p (w @ s) = dropWhile p s"
  by (induction w) auto

lemma find_SomeD: "find p xs = Some x \<Longrightarrow> x \<in> set xs \<and> p x"
  by (induction xs) (auto split: if_splits)

lemma unat_lt_64: "unat (w :: u64) < 2 ^ 64"
  using unsigned_less [of w, where 'a = nat] by simp

lemma unat_lt_32: "unat (w :: u32) < 2 ^ 32"
  using unsigned_less [of w, where 'a = nat] by simp

lemma unat_lt_128: "unat (w :: u128) < 2 ^ 128"
  using unsigned_less [of w, where 'a = nat] by simp

lemma unat_lt_8: "unat (w :: u8) < 256"
  using unsigned_less [of w, where 'a = nat] by simp

lemma unat_of_nat_64: "n < 2 ^ 64 \<Longrightarrow> unat (of_nat n :: u64) = n"
  by (simp only: unat_of_nat) simp

lemma unat_of_nat_32: "n < 2 ^ 32 \<Longrightarrow> unat (of_nat n :: u32) = n"
  by (simp only: unat_of_nat) simp

lemma unat_m1_64: "unat (- 1 :: u64) = 2 ^ 64 - 1"
  by (simp add: unsigned_minus_1_eq_mask mask_eq_exp_minus_1)

section \<open>Buffers\<close>

text \<open>\<open>blit off xs buf\<close> is \<open>memcpy(buf + off, xs, length xs)\<close>.\<close>

definition blit :: "nat \<Rightarrow> 'a list \<Rightarrow> 'a list \<Rightarrow> 'a list" where
  "blit off xs buf = take off buf @ xs @ drop (off + length xs) buf"

lemma length_blit [buf_simps]:
  "off + length xs \<le> length buf \<Longrightarrow> length (blit off xs buf) = length buf"
  by (simp add: blit_def)

lemma take_blit [buf_simps]: "off \<le> length buf \<Longrightarrow> take off (blit off xs buf) = take off buf"
  by (simp add: blit_def)

lemma take_blit_end [buf_simps]:
  "off \<le> length buf \<Longrightarrow> take (off + length xs) (blit off xs buf) = take off buf @ xs"
  by (simp add: blit_def)

lemma drop_blit [buf_simps]:
  "off \<le> length buf \<Longrightarrow> off + length xs \<le> n \<Longrightarrow> drop n (blit off xs buf) = drop n buf"
  by (simp add: blit_def)

text \<open>\<open>strnlen\<close> on a raw buffer.\<close>

definition strnlen :: "char list \<Rightarrow> nat \<Rightarrow> nat" where
  "strnlen buf n = length (takeWhile (\<lambda>c. c \<noteq> NUL) (take n buf))"

lemma strnlen_le: "strnlen buf n \<le> n"
proof -
  have "length (takeWhile (\<lambda>c. c \<noteq> NUL) (take n buf)) \<le> length (take n buf)"
    by (rule length_takeWhile_le)
  then show ?thesis by (simp add: strnlen_def)
qed

lemma strnlen_append_NUL [simp]:
  "cstring s \<Longrightarrow> length s < n \<Longrightarrow> strnlen (s @ NUL # r) n = length s"
proof -
  assume s: "cstring s" and n: "length s < n"
  then obtain k where k: "n - length s = Suc k" by (cases "n - length s") auto
  have all: "\<forall>c \<in> set s. c \<noteq> NUL" using s by (auto simp: cstring_def)
  have "takeWhile (\<lambda>c. c \<noteq> NUL) (s @ NUL # take k r) = s"
    using all by (simp add: takeWhile_append)
  moreover have "take n (s @ NUL # r) = s @ NUL # take k r"
    using n k by (simp add: take_Cons')
  ultimately show ?thesis by (simp add: strnlen_def)
qed

section \<open>Numbers in digit strings\<close>

text \<open>The value of a digit character (36 for a character that is no digit of any base), and
  the value of a list of digits in a base.\<close>

definition digit_val :: "char \<Rightarrow> nat" where
  "digit_val c =
     (if isdigit c then ord c - 48
      else if CHR ''a'' \<le> c \<and> c \<le> CHR ''z'' then ord c - 87
      else if CHR ''A'' \<le> c \<and> c \<le> CHR ''Z'' then ord c - 55
      else 36)"

definition digits_val :: "nat \<Rightarrow> string \<Rightarrow> nat" where
  "digits_val b ds = foldl (\<lambda>v c. v * b + digit_val c) 0 ds"

definition is_digit_of :: "nat \<Rightarrow> char \<Rightarrow> bool" where
  "is_digit_of b c \<longleftrightarrow> digit_val c < b"

lemma digits_val_Nil [digits_simps, simp]: "digits_val b [] = 0"
  by (simp add: digits_val_def)

lemma digits_val_snoc [digits_simps]:
  "digits_val b (ds @ [c]) = digits_val b ds * b + digit_val c"
  by (simp add: digits_val_def)

lemma digit_val_decimal: "isdigit c \<Longrightarrow> digit_val c = ord c - 48 \<and> digit_val c < 10"
  by (auto simp: digit_val_def isdigit_iff)

lemma is_digit_of_10: "is_digit_of 10 c \<longleftrightarrow> isdigit c"
  by (auto simp: is_digit_of_def digit_val_def isdigit_iff char_le_iff)

text \<open>The decimal numeral of a number, as \<open>printf("%u")\<close> writes it.\<close>

fun dec_str :: "nat \<Rightarrow> string" where
  "dec_str n = (if n < 10 then [char_of (48 + n)]
                else dec_str (n div 10) @ [char_of (48 + n mod 10)])"

declare dec_str.simps [simp del]

lemma ord_char_of_digit [simp]: "(n::nat) < 10 \<Longrightarrow> ord (char_of (48 + n)) = 48 + n"
  by (simp add: of_char_of)

lemma isdigit_char_of [simp]: "(n::nat) < 10 \<Longrightarrow> isdigit (char_of (48 + n))"
  by (simp add: isdigit_iff del: of_char_of)

lemma digit_val_char_of [simp]: "n < 10 \<Longrightarrow> digit_val (char_of (48 + n)) = n"
  by (simp add: digit_val_def del: of_char_of)

lemma dec_str_not_Nil [simp]: "dec_str n \<noteq> []"
  by (subst dec_str.simps) simp

lemma dec_str_digits: "c \<in> set (dec_str n) \<Longrightarrow> isdigit c"
proof (induction n rule: dec_str.induct)
  case (1 n)
  then show ?case by (subst (asm) dec_str.simps) (auto split: if_splits)
qed

lemma digits_val_dec_str [digits_simps, simp]: "digits_val 10 (dec_str n) = n"
proof (induction n rule: dec_str.induct)
  case (1 n)
  show ?case
  proof (cases "n < 10")
    case True
    then show ?thesis by (subst dec_str.simps) (simp add: digits_val_def)
  next
    case False
    with "1.IH" have "digits_val 10 (dec_str (n div 10)) = n div 10" by simp
    with False show ?thesis
      by (subst dec_str.simps) (simp add: digits_val_snoc mod_less_divisor)
  qed
qed

text \<open>A numeral has no leading zero, except for zero itself.\<close>

lemma dec_str_no_leading_zero:
  "dec_str n = CHR ''0'' # ds \<Longrightarrow> ds = []"
proof (induction n arbitrary: ds rule: dec_str.induct)
  case (1 n)
  show ?case
  proof (cases "n < 10")
    case True
    with "1.prems" show ?thesis by (subst (asm) dec_str.simps) simp
  next
    case False
    obtain d ds' where d: "dec_str (n div 10) = d # ds'"
      by (cases "dec_str (n div 10)") auto
    from "1.prems" False d have d0: "d = CHR ''0''"
      by (subst (asm) dec_str.simps) simp
    with "1.IH" False d have "ds' = []" by blast
    with d d0 have "digits_val 10 (dec_str (n div 10)) = 0"
      by (simp add: digits_val_def digit_val_def ctype_defs)
    then have "n div 10 = 0" by simp
    with False show ?thesis by (simp add: div_eq_0_iff)
  qed
qed

section \<open>Codecs\<close>

text \<open>What an encoder promises together with its decoder: decoding inverts encoding, and only
  the encoder's own output is accepted (the decoder has one spelling per value).\<close>

locale codec =
  fixes enc :: "'a \<Rightarrow> 'b"
    and dec :: "'b \<Rightarrow> 'e + 'a"
  assumes dec_enc: "dec (enc x) = Inr x"
    and dec_canonical: "dec y = Inr x \<Longrightarrow> y = enc x"
begin

lemma accepts_iff: "dec y = Inr x \<longleftrightarrow> y = enc x"
  using dec_enc dec_canonical by blast

lemma enc_inj: "enc x = enc y \<longleftrightarrow> x = y"
  by (metis dec_enc sum.inject(2))

lemma rejects_others: "y \<notin> range enc \<Longrightarrow> \<exists>e. dec y = Inl e"
  by (metis dec_canonical rangeI sum.exhaust)

end

end
