(* ===== verification/Base64.thy ===== *)
theory Base64
  imports Prelude
begin

text \<open>
  Base64, \<open>shared/base64-util.c\<close>.  Both directions shift bytes through a 32-bit accumulator
  that is never cleared; the model keeps that accumulator as a 32-bit word and the bit
  counter the loops test.  The reference is RFC 4648 written group by group
  (\<open>rfc4648\<close>).  Lengths are those of buffers in memory, which fit the \<open>int\<close> of the code; the model does not
  bound them.  The lemmas relate the accumulator to the number whose low bits it holds.
\<close>

section \<open>The encoder\<close>

definition base64_table :: string where
  "base64_table = ''ABCDEFGHIJKLMNOPQRSTUVWXYZabcdefghijklmnopqrstuvwxyz0123456789+/''"

definition b64_char :: "u32 \<Rightarrow> char" where
  "b64_char w = base64_table ! unat (w AND 0x3f)"

text \<open>The do-while loop that writes the complete sextets.\<close>

fun enc_emit :: "u32 \<Rightarrow> nat \<Rightarrow> string \<times> nat" where
  "enc_emit ac bits =
     (let b = bits - 6; c = b64_char (drop_bit b ac)
      in if b \<ge> 6 then (case enc_emit ac b of (s, b') \<Rightarrow> (c # s, b')) else ([c], b))"

declare enc_emit.simps [simp del]

fun enc_loop :: "u32 \<Rightarrow> nat \<Rightarrow> bytes \<Rightarrow> string \<times> u32 \<times> nat" where
  "enc_loop ac bits [] = ([], ac, bits)"
| "enc_loop ac bits (x # src) =
     (let ac' = push_bit 8 ac OR ucast x
      in case enc_emit ac' (bits + 8) of (s, b) \<Rightarrow>
           (case enc_loop ac' b src of (t, r) \<Rightarrow> (s @ t, r)))"

function pad_loop :: "int \<Rightarrow> string" where
  "pad_loop bits = (if bits < 0 then CHR ''='' # pad_loop (bits + 2) else [])"
  by pat_completeness auto
termination by (relation "measure (\<lambda>b. nat (- b))") auto

declare pad_loop.simps [simp del]

definition shr_base64_encode :: "bytes \<Rightarrow> string" where
  "shr_base64_encode src =
     (case enc_loop 0 0 src of (s, ac, bits) \<Rightarrow>
        if bits \<noteq> 0 then s @ [b64_char (push_bit (6 - bits) ac)] @ pad_loop (int bits - 6)
        else s @ pad_loop (int bits))"

section \<open>The decoder\<close>

text \<open>The position \<open>strchr\<close> finds; NUL, which it would find at the end of the table, is
  refused.\<close>

definition b64_index :: "char \<Rightarrow> nat option" where
  "b64_index c = (let k = length (takeWhile (\<lambda>d. d \<noteq> c) base64_table)
                  in if k < 64 then Some k else None)"

text \<open>The padding loop, on the reversed string.\<close>

fun strip_pad :: "nat \<Rightarrow> string \<Rightarrow> string option" where
  "strip_pad pad (c # r) =
     (if c = CHR ''='' then (if pad + 1 > 2 then None else strip_pad (pad + 1) r)
      else Some (c # r))"
| "strip_pad pad [] = Some []"

fun dec_loop :: "u32 \<Rightarrow> nat \<Rightarrow> string \<Rightarrow> (bytes \<times> u32 \<times> nat) option" where
  "dec_loop ac bits [] = Some ([], ac, bits)"
| "dec_loop ac bits (c # src) = (case b64_index c of
      None \<Rightarrow> None
    | Some p \<Rightarrow>
        (let ac' = push_bit 6 ac OR of_nat p; bits' = bits + 6
         in if bits' \<ge> 8
            then map_option (\<lambda>(out, r). (ucast (drop_bit (bits' - 8) ac') # out, r))
                   (dec_loop ac' (bits' - 8) src)
            else dec_loop ac' bits' src))"

definition shr_base64_decode :: "string \<Rightarrow> int \<Rightarrow> bytes res" where
  "shr_base64_decode src srclen =
     (if srclen < 0 \<or> srclen mod 4 \<noteq> 0 then Inl EINVAL
      else (case strip_pad 0 (rev (take (nat srclen) src)) of
              None \<Rightarrow> Inl EINVAL
            | Some r \<Rightarrow> (case dec_loop 0 0 (rev r) of
                None \<Rightarrow> Inl EINVAL
              | Some (out, ac, bits) \<Rightarrow>
                  if ac AND (push_bit bits 1 - 1) \<noteq> 0 then Inl EINVAL else Inr out)))"

section \<open>RFC 4648\<close>

definition sext :: "nat \<Rightarrow> char" where
  "sext n = base64_table ! n"

fun rfc4648 :: "bytes \<Rightarrow> string" where
  "rfc4648 [] = []"
| "rfc4648 [a] = (let a = unat a in [sext (a div 4), sext (a mod 4 * 16), CHR ''='', CHR ''=''])"
| "rfc4648 [a, b] = (let a = unat a; b = unat b
     in [sext (a div 4), sext (a mod 4 * 16 + b div 16), sext (b mod 16 * 4), CHR ''=''])"
| "rfc4648 (a # b # c # r) = (let a = unat a; b = unat b; c = unat c
     in [sext (a div 4), sext (a mod 4 * 16 + b div 16), sext (b mod 16 * 4 + c div 64),
         sext (c mod 64)] @ rfc4648 r)"

section \<open>The accumulator\<close>

lemma length_base64_table [simp]: "length base64_table = 64"
  by (simp add: base64_table_def)

lemma distinct_base64_table: "distinct base64_table"
  by (simp add: base64_table_def)

text \<open>The number whose low bits the accumulator holds, after a byte and after a sextet.\<close>

definition ac8 :: "nat \<Rightarrow> nat \<Rightarrow> nat" where "ac8 N x = N * 256 + x"
definition ac6 :: "nat \<Rightarrow> nat \<Rightarrow> nat" where "ac6 N x = N * 64 + x"

lemma ac_byte: "push_bit 8 (of_nat N :: u32) OR ucast (x :: u8) = of_nat (ac8 N (unat x))"
proof -
  have "push_bit 8 (of_nat N :: u32) OR ucast x = push_bit 8 (of_nat N) + ucast x"
    by (rule disjunctive_add [symmetric]) (auto simp: bit_simps dest: bit_imp_le_length)
  then show ?thesis by (simp add: push_bit_eq_mult ac8_def)
qed

lemma ac_sextet:
  assumes "p < 64"
  shows "push_bit 6 (of_nat N :: u32) OR of_nat p = of_nat (ac6 N p)"
proof -
  have "p = take_bit 6 p" using assms by (simp add: take_bit_nat_eq_self)
  then have "(of_nat p :: u32) = take_bit 6 (of_nat p)"
    by (metis of_nat_take_bit)
  then have "push_bit 6 (of_nat N :: u32) OR of_nat p = push_bit 6 (of_nat N) + of_nat p"
    by (intro disjunctive_add [symmetric]) (metis bit_push_bit_iff bit_take_bit_iff not_le)
  then show ?thesis by (simp add: push_bit_eq_mult ac6_def)
qed

lemma unat_window:
  assumes "k + m \<le> 32"
  shows "unat (take_bit m (drop_bit k (of_nat N :: u32))) = N div 2 ^ k mod 2 ^ m"
proof -
  have "take_bit m (drop_bit k (take_bit 32 N)) = take_bit m (drop_bit k N)"
    using assms by (intro bit_eqI) (auto simp: bit_simps)
  moreover have "unat (take_bit m (drop_bit k (of_nat N :: u32))) =
      take_bit m (drop_bit k (take_bit 32 N))"
    using assms by (simp only: unsigned_take_bit_eq unsigned_drop_bit_eq unat_of_nat)
      (simp add: take_bit_eq_mod)
  ultimately show ?thesis by (simp add: take_bit_eq_mod drop_bit_eq_div)
qed

lemma b64_char_window: "k \<le> 26 \<Longrightarrow> b64_char (drop_bit k (of_nat N)) = sext (N div 2 ^ k mod 64)"
proof -
  assume k: "k \<le> 26"
  have "w AND 0x3f = take_bit 6 w" for w :: u32
    by (simp add: take_bit_eq_mask mask_eq_exp_minus_1)
  then show ?thesis using k unat_window [of k 6 N]
    by (simp add: b64_char_def sext_def)
qed

lemma dec_byte_window:
  "k \<le> 24 \<Longrightarrow> unat (ucast (drop_bit k (of_nat N :: u32)) :: u8) = N div 2 ^ k mod 256"
  using unat_window [of k 8 N] by (simp add: unsigned_ucast_eq unsigned_take_bit_eq)

section \<open>The encoder is RFC 4648\<close>

lemma enc_emit_1: "enc_emit ac 8 = ([b64_char (drop_bit 2 ac)], 2)"
  "enc_emit ac 10 = ([b64_char (drop_bit 4 ac)], 4)"
  "enc_emit ac 12 = ([b64_char (drop_bit 6 ac), b64_char (drop_bit 0 ac)], 0)"
  by (simp_all add: enc_emit.simps [of _ 8] enc_emit.simps [of _ 10] enc_emit.simps [of _ 12]
      enc_emit.simps [of _ 6])

lemma div_mod_eq:
  fixes x m k :: nat
  assumes "x = (z * k + y) * m + w" "w < m" "y < k"
  shows "x div m mod k = y"
  using assms by simp

lemma sextet_arith:
  fixes a b c N :: nat
  assumes "a < 256" "b < 256" "c < 256"
  shows "ac8 N a div 4 mod 64 = a div 4"
    and "ac8 (ac8 N a) b div 16 mod 64 = a mod 4 * 16 + b div 16"
    and "ac8 (ac8 (ac8 N a) b) c div 64 mod 64 = b mod 16 * 4 + c div 64"
    and "ac8 N c mod 64 = c mod 64"
    and "ac8 N a * 16 mod 64 = a mod 4 * 16"
    and "ac8 N b * 4 mod 64 = b mod 16 * 4"
proof -
  define a1 a0 b1 b0 c1 c0 where d: "a1 = a div 4" "a0 = a mod 4" "b1 = b div 16"
    "b0 = b mod 16" "c1 = c div 64" "c0 = c mod 64"
  have s: "a = 4 * a1 + a0" "b = 16 * b1 + b0" "c = 64 * c1 + c0" by (simp_all add: d)
  have l: "a1 < 64" "a0 < 4" "b1 < 16" "b0 < 16" "c1 < 4" "c0 < 64"
    using assms by (simp_all add: d less_mult_imp_div_less)
  show "ac8 N a div 4 mod 64 = a div 4" unfolding d [symmetric]
    by (rule div_mod_eq [of _ N _ _ _ a0]) (use l in \<open>simp_all add: ac8_def s\<close>)
  show "ac8 (ac8 N a) b div 16 mod 64 = a mod 4 * 16 + b div 16" unfolding d [symmetric]
    by (rule div_mod_eq [of _ "N * 64 + a1" _ _ _ b0]) (use l in \<open>simp_all add: ac8_def s\<close>)
  show "ac8 (ac8 (ac8 N a) b) c div 64 mod 64 = b mod 16 * 4 + c div 64" unfolding d [symmetric]
    by (rule div_mod_eq [of _ "(N * 256 + a) * 16 + b1" _ _ _ c0])
      (use l in \<open>simp_all add: ac8_def s\<close>)
  show "ac8 N c mod 64 = c mod 64" unfolding d [symmetric]
    using div_mod_eq [of "ac8 N c" "N * 4 + c1" 64 c0 1 0] l by (simp add: ac8_def s)
  show "ac8 N a * 16 mod 64 = a mod 4 * 16" unfolding d [symmetric]
    using div_mod_eq [of "ac8 N a * 16" "N * 64 + a1" 64 "a0 * 16" 1 0] l by (simp add: ac8_def s)
  show "ac8 N b * 4 mod 64 = b mod 16 * 4" unfolding d [symmetric]
    using div_mod_eq [of "ac8 N b * 4" "N * 16 + b1" 64 "b0 * 4" 1 0] l by (simp add: ac8_def s)
qed

lemma sext_windows:
  "b64_char (drop_bit 2 (of_nat (ac8 N (unat a)))) = sext (unat (a::u8) div 4)"
  "b64_char (drop_bit 4 (of_nat (ac8 (ac8 N (unat a)) (unat (b::u8))))) =
     sext (unat a mod 4 * 16 + unat b div 16)"
  "b64_char (drop_bit 6 (of_nat (ac8 (ac8 (ac8 N (unat a)) (unat b)) (unat (c::u8))))) =
     sext (unat b mod 16 * 4 + unat c div 64)"
  "b64_char (of_nat (ac8 N (unat c))) = sext (unat c mod 64)"
  "b64_char (push_bit 4 (of_nat (ac8 N (unat a)))) = sext (unat a mod 4 * 16)"
  "b64_char (push_bit 2 (of_nat (ac8 N (unat b)))) = sext (unat b mod 16 * 4)"
proof -
  note ar = sextet_arith [OF unat_lt_8 [of a] unat_lt_8 [of b] unat_lt_8 [of c]]
  have push: "push_bit k (of_nat n :: u32) = drop_bit 0 (of_nat (n * 2 ^ k))" for k n
    by (simp add: push_bit_eq_mult)
  show "b64_char (drop_bit 2 (of_nat (ac8 N (unat a)))) = sext (unat a div 4)"
    by (subst b64_char_window) (simp_all add: ar)
  show "b64_char (drop_bit 4 (of_nat (ac8 (ac8 N (unat a)) (unat b)))) =
     sext (unat a mod 4 * 16 + unat b div 16)"
    by (subst b64_char_window) (simp_all add: ar)
  show "b64_char (drop_bit 6 (of_nat (ac8 (ac8 (ac8 N (unat a)) (unat b)) (unat c)))) =
     sext (unat b mod 16 * 4 + unat c div 64)"
    by (subst b64_char_window) (simp_all add: ar)
  show "b64_char (of_nat (ac8 N (unat c))) = sext (unat c mod 64)"
    using b64_char_window [of 0 "ac8 N (unat c)"] by (simp add: ar)
  show "b64_char (push_bit 4 (of_nat (ac8 N (unat a)))) = sext (unat a mod 4 * 16)"
    unfolding push by (subst b64_char_window) (simp_all add: ar)
  show "b64_char (push_bit 2 (of_nat (ac8 N (unat b)))) = sext (unat b mod 16 * 4)"
    unfolding push by (subst b64_char_window) (simp_all add: ar)
qed

lemma enc_loop_byte:
  "enc_loop (of_nat N) bits (x # src) =
     (case enc_emit (of_nat (ac8 N (unat x))) (bits + 8) of (s, b) \<Rightarrow>
        (case enc_loop (of_nat (ac8 N (unat x))) b src of (t, r) \<Rightarrow> (s @ t, r)))"
  by (simp add: Let_def ac_byte)

lemma enc_rfc:
  "(case enc_loop (of_nat N) 0 src of (s, ac, bits) \<Rightarrow>
        if bits \<noteq> 0 then s @ [b64_char (push_bit (6 - bits) ac)] @ pad_loop (int bits - 6)
        else s @ pad_loop (int bits)) = rfc4648 src"
proof (induction src arbitrary: N rule: rfc4648.induct)
  case 1
  show ?case by (simp add: pad_loop.simps)
next
  case (2 a)
  show ?case
    by (simp add: enc_loop_byte enc_emit_1 sext_windows Let_def pad_loop.simps [of "- 4"]
        pad_loop.simps [of "- 2"] pad_loop.simps [of 0] del: enc_loop.simps(2))
next
  case (3 a b)
  show ?case
    by (simp add: enc_loop_byte enc_emit_1 sext_windows Let_def pad_loop.simps [of "- 2"]
        pad_loop.simps [of 0] del: enc_loop.simps(2))
next
  case (4 a b c r)
  have "enc_loop (of_nat N) 0 (a # b # c # r) =
    (case enc_loop (of_nat (ac8 (ac8 (ac8 N (unat a)) (unat b)) (unat c))) 0 r of (t, q) \<Rightarrow>
      ([sext (unat a div 4), sext (unat a mod 4 * 16 + unat b div 16),
        sext (unat b mod 16 * 4 + unat c div 64), sext (unat c mod 64)] @ t, q))"
    by (simp add: enc_loop_byte enc_emit_1 sext_windows Let_def del: enc_loop.simps(2)
        split: prod.splits)
  then show ?case
    using "4.IH" [OF refl refl refl, of "ac8 (ac8 (ac8 N (unat a)) (unat b)) (unat c)"]
    by (auto simp: Let_def split: prod.splits if_splits)
qed

lemma base64_encode_rfc: "shr_base64_encode src = rfc4648 src"
  using enc_rfc [of 0 src] by (simp add: shr_base64_encode_def)

section \<open>The decoder inverts it\<close>

lemma b64_index_sext: "n < 64 \<Longrightarrow> b64_index (sext n) = Some n"
proof -
  assume n: "n < 64"
  have "takeWhile (\<lambda>d. d \<noteq> sext n) base64_table = take n base64_table"
    using n distinct_base64_table
    by (intro takeWhile_eq_take_P_nth) (auto simp: sext_def nth_eq_iff_index_eq)
  then show ?thesis using n by (simp add: b64_index_def Let_def)
qed

lemma b64_index_Some: "b64_index c = Some n \<Longrightarrow> n < 64 \<and> c = sext n"
proof -
  assume "b64_index c = Some n"
  then have n: "n < 64" "n = length (takeWhile (\<lambda>d. d \<noteq> c) base64_table)"
    by (auto simp: b64_index_def Let_def split: if_splits)
  then have "base64_table ! n = c"
    using nth_length_takeWhile [of "\<lambda>d. d \<noteq> c" base64_table] by auto
  with n show ?thesis by (simp add: sext_def)
qed

lemma sext_not_pad: "n < 64 \<Longrightarrow> sext n \<noteq> CHR ''=''"
proof -
  assume "n < 64"
  then have "sext n \<in> set base64_table" unfolding sext_def by (intro nth_mem) simp
  moreover have "CHR ''='' \<notin> set base64_table" by (simp add: base64_table_def)
  ultimately show ?thesis by metis
qed

text \<open>The bytes a group of sextets stands for.\<close>

fun unsext :: "nat list \<Rightarrow> nat list" where
  "unsext (p # q # r # s # t) =
     (p * 4 + q div 16) # (q mod 16 * 16 + r div 4) # (r mod 4 * 64 + s) # unsext t"
| "unsext [p, q, r] = [p * 4 + q div 16, q mod 16 * 16 + r div 4]"
| "unsext [p, q] = [p * 4 + q div 16]"
| "unsext [] = []"
| "unsext [p] = []"

fun leftover :: "nat list \<Rightarrow> nat \<times> nat" where
  "leftover (p # q # r # s # t) = leftover t"
| "leftover [p, q, r] = (2, r mod 4)"
| "leftover [p, q] = (4, q mod 16)"
| "leftover [p] = (6, p)"
| "leftover [] = (0, 0)"

lemma byte_arith:
  fixes p q r s M :: nat
  assumes "p < 64" "q < 64" "r < 64" "s < 64"
  shows "ac6 (ac6 M p) q div 16 mod 256 = p * 4 + q div 16"
    and "ac6 (ac6 (ac6 M p) q) r div 4 mod 256 = q mod 16 * 16 + r div 4"
    and "ac6 (ac6 M r) s mod 256 = r mod 4 * 64 + s"
    and "ac6 M q mod 16 = q mod 16"
    and "ac6 M r mod 4 = r mod 4"
    and "ac6 M p mod 64 = p"
proof -
  define q1 q0 r1 r0 where d: "q1 = q div 16" "q0 = q mod 16" "r1 = r div 4" "r0 = r mod 4"
  have e: "q = 16 * q1 + q0" "r = 4 * r1 + r0" by (simp_all add: d)
  have l: "q1 < 4" "q0 < 16" "r1 < 16" "r0 < 4"
    using assms by (simp_all add: d less_mult_imp_div_less)
  show "ac6 (ac6 M p) q div 16 mod 256 = p * 4 + q div 16" unfolding d [symmetric]
    by (rule div_mod_eq [of _ M _ _ _ q0]) (use l assms in \<open>simp_all add: ac6_def e\<close>)
  show "ac6 (ac6 (ac6 M p) q) r div 4 mod 256 = q mod 16 * 16 + r div 4" unfolding d [symmetric]
    by (rule div_mod_eq [of _ "(M * 64 + p) * 4 + q1" _ _ _ r0])
      (use l assms in \<open>simp_all add: ac6_def e\<close>)
  show "ac6 (ac6 M r) s mod 256 = r mod 4 * 64 + s" unfolding d [symmetric]
    using div_mod_eq [of "ac6 (ac6 M r) s" "M * 16 + r1" 256 "r0 * 64 + s" 1 0] l assms
    by (simp add: ac6_def e)
  show "ac6 M q mod 16 = q mod 16" unfolding d [symmetric]
    using div_mod_eq [of "ac6 M q" "M * 4 + q1" 16 q0 1 0] l by (simp add: ac6_def e)
  show "ac6 M r mod 4 = r mod 4" unfolding d [symmetric]
    using div_mod_eq [of "ac6 M r" "M * 16 + r1" 4 r0 1 0] l by (simp add: ac6_def e)
  show "ac6 M p mod 64 = p" using assms by (simp add: ac6_def)
qed

text \<open>The decoder's loop, on the sextets its input spells.\<close>

lemma dec_loop_sext:
  assumes "p < 64"
  shows "dec_loop (of_nat M) bits (sext p # src) =
     (if bits + 6 \<ge> 8
      then map_option (\<lambda>(out, r). (ucast (drop_bit (bits - 2) (of_nat (ac6 M p) :: u32)) # out, r))
             (dec_loop (of_nat (ac6 M p)) (bits - 2) src)
      else dec_loop (of_nat (ac6 M p)) (bits + 6) src)"
  using assms by (simp add: b64_index_sext Let_def ac_sextet)

lemma ucast_windows:
  assumes "p < 64" "q < 64" "r < 64" "s < 64"
  shows "(ucast (drop_bit 4 (of_nat (ac6 (ac6 M p) q) :: u32)) :: u8) = of_nat (p * 4 + q div 16)"
    and "(ucast (drop_bit 2 (of_nat (ac6 (ac6 (ac6 M p) q) r) :: u32)) :: u8) =
           of_nat (q mod 16 * 16 + r div 4)"
    and "(ucast (of_nat (ac6 (ac6 M r) s) :: u32) :: u8) = of_nat (r mod 4 * 64 + s)"
proof -
  note ar = byte_arith [OF assms]
  have w: "v = of_nat n" if "unat v = n" for v :: u8 and n using that by auto
  show "(ucast (drop_bit 4 (of_nat (ac6 (ac6 M p) q) :: u32)) :: u8) = of_nat (p * 4 + q div 16)"
    by (rule w, subst dec_byte_window) (simp_all add: ar)
  show "(ucast (drop_bit 2 (of_nat (ac6 (ac6 (ac6 M p) q) r) :: u32)) :: u8) =
           of_nat (q mod 16 * 16 + r div 4)"
    by (rule w, subst dec_byte_window) (simp_all add: ar)
  show "(ucast (of_nat (ac6 (ac6 M r) s) :: u32) :: u8) = of_nat (r mod 4 * 64 + s)"
    using dec_byte_window [of 0 "ac6 (ac6 M r) s"] by (intro w) (simp add: ar)
qed

lemmas byte_windows =
  ucast_windows(1) [where r = 0 and s = 0, simplified]
  ucast_windows(2) [where s = 0, simplified]
  ucast_windows(3) [where p = 0 and q = 0, simplified]
  byte_arith(4) [where p = 0 and r = 0 and s = 0, simplified]
  byte_arith(5) [where p = 0 and q = 0 and s = 0, simplified]
  byte_arith(6) [where q = 0 and r = 0 and s = 0, simplified]

lemma dec_loop_unsext:
  assumes "\<forall>p\<in>set ps. p < 64"
  shows "\<exists>A. dec_loop (of_nat M) 0 (map sext ps) =
            Some (map of_nat (unsext ps), of_nat A, fst (leftover ps)) \<and>
          (ps = [] \<and> A = M \<or> ps \<noteq> [] \<and> A mod 2 ^ fst (leftover ps) = snd (leftover ps))"
  using assms
proof (induction ps arbitrary: M rule: unsext.induct)
  case (1 p q r s t)
  let ?M = "ac6 (ac6 (ac6 (ac6 M p) q) r) s"
  from "1.IH" [of ?M] "1.prems" obtain A where
    A: "dec_loop (of_nat ?M) 0 (map sext t) = Some (map of_nat (unsext t), of_nat A, fst (leftover t))"
      "t = [] \<and> A = ?M \<or> t \<noteq> [] \<and> A mod 2 ^ fst (leftover t) = snd (leftover t)"
    by auto
  show ?case
    using A "1.prems" by (intro exI [of _ A]) (auto simp: dec_loop_sext byte_windows simp del: dec_loop.simps(2))
next
  case (2 p q r)
  then show ?case
    by (intro exI [of _ "ac6 (ac6 (ac6 M p) q) r"])
      (simp add: dec_loop_sext byte_windows del: dec_loop.simps(2))
next
  case (3 p q)
  then show ?case
    by (intro exI [of _ "ac6 (ac6 M p) q"])
      (simp add: dec_loop_sext byte_windows del: dec_loop.simps(2))
next
  case 4
  then show ?case by (intro exI [of _ M]) simp
next
  case (5 p)
  then show ?case
    by (intro exI [of _ "ac6 M p"])
      (simp add: dec_loop_sext byte_windows del: dec_loop.simps(2))
qed

text \<open>The sextets RFC 4648 writes, and its padding.\<close>

fun sexts :: "bytes \<Rightarrow> nat list" where
  "sexts [] = []"
| "sexts [a] = [unat a div 4, unat a mod 4 * 16]"
| "sexts [a, b] = [unat a div 4, unat a mod 4 * 16 + unat b div 16, unat b mod 16 * 4]"
| "sexts (a # b # c # r) = [unat a div 4, unat a mod 4 * 16 + unat b div 16,
     unat b mod 16 * 4 + unat c div 64, unat c mod 64] @ sexts r"

definition pads :: "bytes \<Rightarrow> nat" where
  "pads bs = (3 - length bs mod 3) mod 3"

lemma rfc4648_sexts: "rfc4648 bs = map sext (sexts bs) @ replicate (pads bs) (CHR ''='')"
  by (induction bs rule: rfc4648.induct) (simp_all add: Let_def pads_def numeral_2_eq_2)

lemma sexts_less: "p \<in> set (sexts bs) \<Longrightarrow> p < 64"
proof (induction bs rule: sexts.induct)
  case (2 a)
  then show ?case using unat_lt_8 [of a] by (auto simp: less_mult_imp_div_less)
next
  case (3 a b)
  have "unat a mod 4 * 16 + unat b div 16 < 64" "unat b mod 16 * 4 < 64"
    using unat_lt_8 [of b] by auto
  then show ?case using 3 unat_lt_8 [of a] by (auto simp: less_mult_imp_div_less)
next
  case (4 a b c r)
  have "unat a mod 4 * 16 + unat b div 16 < 64" "unat b mod 16 * 4 + unat c div 64 < 64"
    using unat_lt_8 [of b] unat_lt_8 [of c] by auto
  then show ?case using 4 unat_lt_8 [of a] by (auto simp: less_mult_imp_div_less)
qed auto

lemma unsext_sexts: "unsext (sexts bs) = map unat bs \<and> snd (leftover (sexts bs)) = 0"
proof (induction bs rule: sexts.induct)
  case (3 a b)
  then show ?case using unat_lt_8 [of b] by auto
next
  case (4 a b c r)
  then show ?case using unat_lt_8 [of b] unat_lt_8 [of c] by auto
qed auto

lemma regroup_sextets:
  fixes p q r s :: nat
  assumes "p < 64" "q < 64" "r < 64" "s < 64"
  shows "p * 4 + q div 16 < 256" "q mod 16 * 16 + r div 4 < 256" "r mod 4 * 64 + s < 256"
    and "(p * 4 + q div 16) div 4 = p"
    and "(p * 4 + q div 16) mod 4 * 16 + (q mod 16 * 16 + r div 4) div 16 = q"
    and "(q mod 16 * 16 + r div 4) mod 16 * 4 + (r mod 4 * 64 + s) div 64 = r"
    and "(r mod 4 * 64 + s) mod 64 = s"
    and "q mod 16 = 0 \<Longrightarrow> (p * 4 + q div 16) mod 4 * 16 = q"
    and "r mod 4 = 0 \<Longrightarrow> (q mod 16 * 16 + r div 4) mod 16 * 4 = r"
proof -
  define q1 q0 r1 r0 where d: "q1 = q div 16" "q0 = q mod 16" "r1 = r div 4" "r0 = r mod 4"
  have e: "q = 16 * q1 + q0" "r = 4 * r1 + r0" by (simp_all add: d)
  have l: "q1 < 4" "q0 < 16" "r1 < 16" "r0 < 4"
    using assms by (simp_all add: d less_mult_imp_div_less)
  show "p * 4 + q div 16 < 256" "q mod 16 * 16 + r div 4 < 256" "r mod 4 * 64 + s < 256"
    "(p * 4 + q div 16) div 4 = p"
    "(p * 4 + q div 16) mod 4 * 16 + (q mod 16 * 16 + r div 4) div 16 = q"
    "(q mod 16 * 16 + r div 4) mod 16 * 4 + (r mod 4 * 64 + s) div 64 = r"
    "(r mod 4 * 64 + s) mod 64 = s"
    "q mod 16 = 0 \<Longrightarrow> (p * 4 + q div 16) mod 4 * 16 = q"
    "r mod 4 = 0 \<Longrightarrow> (q mod 16 * 16 + r div 4) mod 16 * 4 = r"
    unfolding d [symmetric] using assms l e by simp_all
qed

lemma unat_of_nat_8: "n < 256 \<Longrightarrow> unat (of_nat n :: u8) = n"
  by (simp add: unat_of_nat)

lemma sexts_unsext:
  assumes "\<forall>p\<in>set ps. p < 64" "snd (leftover ps) = 0" "length ps mod 4 \<noteq> 1"
  shows "sexts (map of_nat (unsext ps)) = ps \<and>
    length ps + pads (map of_nat (unsext ps)) = (length ps + 3) div 4 * 4"
  using assms
proof (induction ps rule: unsext.induct)
  case (1 p q r s t)
  then have l: "p < 64" "q < 64" "r < 64" "s < 64" by auto
  have "(7 + length t) div 4 = Suc ((length t + 3) div 4)" by simp
  then show ?case using 1 regroup_sextets [OF l]
    by (simp add: unat_of_nat_8 pads_def del: of_nat_add of_nat_mult)
next
  case (2 p q r)
  then have l: "p < 64" "q < 64" "r < 64" by auto
  show ?case using 2 regroup_sextets [OF l, of 0]
    by (simp add: unat_of_nat_8 pads_def del: of_nat_add of_nat_mult)
next
  case (3 p q)
  then have l: "p < 64" "q < 64" by auto
  show ?case using 3 regroup_sextets [OF l, of 0 0]
    by (simp add: unat_of_nat_8 pads_def del: of_nat_add of_nat_mult)
qed (auto simp: pads_def)

section \<open>Padding\<close>

lemma strip_pad_replicate:
  "k + pad \<le> 2 \<Longrightarrow> (r = [] \<or> hd r \<noteq> CHR ''='') \<Longrightarrow>
   strip_pad pad (replicate k (CHR ''='') @ r) = Some r"
  by (induction k arbitrary: pad) (cases r; simp)+

lemma strip_pad_Some:
  "strip_pad pad r = Some q \<Longrightarrow> pad \<le> 2 \<Longrightarrow> \<exists>k. k + pad \<le> 2 \<and> r = replicate k (CHR ''='') @ q"
proof (induction pad r rule: strip_pad.induct)
  case (1 pad c r)
  show ?case
  proof (cases "c = CHR ''=''")
    case True
    with "1.prems" have "strip_pad (pad + 1) r = Some q" "pad + 1 \<le> 2" by (auto split: if_splits)
    with "1.IH" True obtain k where "k + (pad + 1) \<le> 2" "r = replicate k (CHR ''='') @ q" by auto
    with True show ?thesis by (intro exI [of _ "Suc k"]) simp
  qed (use "1.prems" in \<open>auto intro: exI [of _ 0]\<close>)
qed auto

lemma dec_loop_Some:
  "dec_loop ac bits s = Some x \<Longrightarrow> \<exists>ps. s = map sext ps \<and> (\<forall>p\<in>set ps. p < 64)"
proof (induction ac bits s arbitrary: x rule: dec_loop.induct)
  case (2 ac bits c src)
  then obtain p where p: "b64_index c = Some p" by (auto split: option.splits)
  have "\<exists>ps. src = map sext ps \<and> (\<forall>p\<in>set ps. p < 64)"
    using 2 p by (auto simp: Let_def split: if_splits)
  then obtain ps where "src = map sext ps" "\<forall>p\<in>set ps. p < 64" by blast
  then show ?case using b64_index_Some [OF p] by (intro exI [of _ "p # ps"]) auto
qed auto

lemma leftover_mask:
  assumes "b \<le> 32"
  shows "(of_nat A :: u32) AND (push_bit b 1 - 1) = 0 \<longleftrightarrow> A mod 2 ^ b = 0"
proof -
  have "(of_nat A :: u32) AND (push_bit b 1 - 1) = take_bit b (of_nat A)"
    by (simp add: take_bit_eq_mask mask_eq_exp_minus_1 push_bit_eq_mult)
  moreover have "unat (take_bit b (of_nat A :: u32)) = A mod 2 ^ b"
    using unat_window [of 0 b A] assms by simp
  ultimately show ?thesis by (metis unat_eq_zero)
qed

lemma leftover_bits: "fst (leftover ps) \<le> 6"
  by (induction ps rule: leftover.induct) auto

lemma decode_sextets:
  assumes "\<forall>p\<in>set ps. p < 64" "k \<le> 2" "(length ps + k) mod 4 = 0"
  shows "shr_base64_decode (map sext ps @ replicate k (CHR ''='')) (int (length ps + k)) =
    (if snd (leftover ps) = 0 then Inr (map of_nat (unsext ps)) else Inl EINVAL)"
proof -
  have hd: "map sext ps = [] \<or> hd (rev (map sext ps)) \<noteq> CHR ''=''"
    using assms(1) sext_not_pad by (cases ps rule: rev_cases) auto
  have strip: "strip_pad 0 (rev (map sext ps @ replicate k (CHR ''=''))) = Some (rev (map sext ps))"
    using strip_pad_replicate [of k 0 "rev (map sext ps)"] hd assms(2) by simp
  obtain A where A: "dec_loop 0 0 (map sext ps) =
      Some (map of_nat (unsext ps), of_nat A, fst (leftover ps))"
    "ps = [] \<and> A = 0 \<or> ps \<noteq> [] \<and> A mod 2 ^ fst (leftover ps) = snd (leftover ps)"
    using dec_loop_unsext [OF assms(1), of 0] by auto
  have mask: "(of_nat A :: u32) AND (push_bit (fst (leftover ps)) 1 - 1) = 0 \<longleftrightarrow> snd (leftover ps) = 0"
    using A(2) leftover_mask [of "fst (leftover ps)" A] leftover_bits [of ps] by auto
  have "int (length ps + k) mod 4 = 0" using assms(3) by presburger
  then show ?thesis using strip A(1) mask by (simp add: shr_base64_decode_def del: of_nat_add)
qed

lemma base64_decode_encode:
  "shr_base64_decode (shr_base64_encode bs) (int (length (shr_base64_encode bs))) = Inr bs"
proof -
  have len: "(length (sexts bs) + pads bs) mod 4 = 0"
  proof (induction bs rule: sexts.induct)
    case (4 a b c r)
    have "pads (a # b # c # r) = pads r" by (simp add: pads_def)
    then show ?case using 4 by simp
  qed (simp_all add: pads_def)
  have "pads bs \<le> 2" by (simp add: pads_def)
  then show ?thesis
    using decode_sextets [OF _ _ len] sexts_less unsext_sexts [of bs]
    by (simp add: base64_encode_rfc rfc4648_sexts comp_def)
qed

lemma base64_decode_canonical:
  assumes "shr_base64_decode s (int (length s)) = Inr bs"
  shows "s = shr_base64_encode bs"
proof -
  have "int (length s) mod 4 = 0" using assms
    by (auto simp: shr_base64_decode_def split: if_splits)
  then have len: "length s mod 4 = 0" by presburger
  obtain r x where r: "strip_pad 0 (rev s) = Some r" "dec_loop 0 0 (rev r) = Some x"
    using assms by (auto simp: shr_base64_decode_def split: option.splits if_splits)
  obtain k where k: "k \<le> 2" "s = rev r @ replicate k (CHR ''='')"
    using strip_pad_Some [OF r(1)] by (auto simp: rev_swap)
  obtain ps where ps: "rev r = map sext ps" "\<forall>p\<in>set ps. p < 64"
    using dec_loop_Some [OF r(2)] by blast
  have lps: "(length ps + k) mod 4 = 0" using len k(2) ps(1) by (metis length_append length_map length_replicate)
  have bs: "snd (leftover ps) = 0" "bs = map of_nat (unsext ps)"
    using decode_sextets [OF ps(2) k(1) lps] assms k(2) ps(1) by (auto split: if_splits)
  have "length ps mod 4 \<noteq> 1" using lps k(1) by presburger
  from sexts_unsext [OF ps(2) bs(1) this] have "sexts bs = ps" "length ps + pads bs = (length ps + 3) div 4 * 4"
    by (simp_all add: bs(2))
  moreover have "(length ps + 3) div 4 * 4 = length ps + k" using lps k(1) by presburger
  ultimately show ?thesis using k(2) ps(1) by (simp add: base64_encode_rfc rfc4648_sexts)
qed

text \<open>The decoder as its callers use it, on a whole string.\<close>

interpretation base64: codec shr_base64_encode "\<lambda>s. shr_base64_decode s (int (length s))"
  using base64_decode_encode base64_decode_canonical by unfold_locales

text \<open>C27: The base64 encoder writes exactly the RFC 4648 encoding of its input, and the decoder
  accepts a string as the encoding of some bytes if and only if the encoder produces that string
  for those bytes: decoding inverts encoding, and every malformed or non-canonical spelling (bad
  length, stray or excess padding, characters off the alphabet, non-zero trailing bits) is
  refused.\<close>

theorem base64_exact:
  "shr_base64_encode bs = rfc4648 bs \<and>
   (shr_base64_decode s (int (length s)) = Inr bs \<longleftrightarrow> s = shr_base64_encode bs)"
  by (simp add: base64_encode_rfc base64.accepts_iff [unfolded base64_encode_rfc])

end
