(* ===== verification/Crc32.thy ===== *)
theory Crc32
  imports Prelude
begin

text \<open>
  The table-driven CRC-32 of \<open>shared/crc32-util.c\<close>, checked against the shift register of the
  reflected polynomial 0xedb88320: the table holds the eight-step shifts of every byte, a table
  step is eight register steps, and a register step loses no information.
\<close>

section \<open>Model\<close>

definition crc32_tab :: "u32 list" where
  "crc32_tab =
    [0x00000000, 0x77073096, 0xee0e612c, 0x990951ba, 0x076dc419, 0x706af48f, 0xe963a535, 0x9e6495a3,
     0x0edb8832, 0x79dcb8a4, 0xe0d5e91e, 0x97d2d988, 0x09b64c2b, 0x7eb17cbd, 0xe7b82d07, 0x90bf1d91,
     0x1db71064, 0x6ab020f2, 0xf3b97148, 0x84be41de, 0x1adad47d, 0x6ddde4eb, 0xf4d4b551, 0x83d385c7,
     0x136c9856, 0x646ba8c0, 0xfd62f97a, 0x8a65c9ec, 0x14015c4f, 0x63066cd9, 0xfa0f3d63, 0x8d080df5,
     0x3b6e20c8, 0x4c69105e, 0xd56041e4, 0xa2677172, 0x3c03e4d1, 0x4b04d447, 0xd20d85fd, 0xa50ab56b,
     0x35b5a8fa, 0x42b2986c, 0xdbbbc9d6, 0xacbcf940, 0x32d86ce3, 0x45df5c75, 0xdcd60dcf, 0xabd13d59,
     0x26d930ac, 0x51de003a, 0xc8d75180, 0xbfd06116, 0x21b4f4b5, 0x56b3c423, 0xcfba9599, 0xb8bda50f,
     0x2802b89e, 0x5f058808, 0xc60cd9b2, 0xb10be924, 0x2f6f7c87, 0x58684c11, 0xc1611dab, 0xb6662d3d,
     0x76dc4190, 0x01db7106, 0x98d220bc, 0xefd5102a, 0x71b18589, 0x06b6b51f, 0x9fbfe4a5, 0xe8b8d433,
     0x7807c9a2, 0x0f00f934, 0x9609a88e, 0xe10e9818, 0x7f6a0dbb, 0x086d3d2d, 0x91646c97, 0xe6635c01,
     0x6b6b51f4, 0x1c6c6162, 0x856530d8, 0xf262004e, 0x6c0695ed, 0x1b01a57b, 0x8208f4c1, 0xf50fc457,
     0x65b0d9c6, 0x12b7e950, 0x8bbeb8ea, 0xfcb9887c, 0x62dd1ddf, 0x15da2d49, 0x8cd37cf3, 0xfbd44c65,
     0x4db26158, 0x3ab551ce, 0xa3bc0074, 0xd4bb30e2, 0x4adfa541, 0x3dd895d7, 0xa4d1c46d, 0xd3d6f4fb,
     0x4369e96a, 0x346ed9fc, 0xad678846, 0xda60b8d0, 0x44042d73, 0x33031de5, 0xaa0a4c5f, 0xdd0d7cc9,
     0x5005713c, 0x270241aa, 0xbe0b1010, 0xc90c2086, 0x5768b525, 0x206f85b3, 0xb966d409, 0xce61e49f,
     0x5edef90e, 0x29d9c998, 0xb0d09822, 0xc7d7a8b4, 0x59b33d17, 0x2eb40d81, 0xb7bd5c3b, 0xc0ba6cad,
     0xedb88320, 0x9abfb3b6, 0x03b6e20c, 0x74b1d29a, 0xead54739, 0x9dd277af, 0x04db2615, 0x73dc1683,
     0xe3630b12, 0x94643b84, 0x0d6d6a3e, 0x7a6a5aa8, 0xe40ecf0b, 0x9309ff9d, 0x0a00ae27, 0x7d079eb1,
     0xf00f9344, 0x8708a3d2, 0x1e01f268, 0x6906c2fe, 0xf762575d, 0x806567cb, 0x196c3671, 0x6e6b06e7,
     0xfed41b76, 0x89d32be0, 0x10da7a5a, 0x67dd4acc, 0xf9b9df6f, 0x8ebeeff9, 0x17b7be43, 0x60b08ed5,
     0xd6d6a3e8, 0xa1d1937e, 0x38d8c2c4, 0x4fdff252, 0xd1bb67f1, 0xa6bc5767, 0x3fb506dd, 0x48b2364b,
     0xd80d2bda, 0xaf0a1b4c, 0x36034af6, 0x41047a60, 0xdf60efc3, 0xa867df55, 0x316e8eef, 0x4669be79,
     0xcb61b38c, 0xbc66831a, 0x256fd2a0, 0x5268e236, 0xcc0c7795, 0xbb0b4703, 0x220216b9, 0x5505262f,
     0xc5ba3bbe, 0xb2bd0b28, 0x2bb45a92, 0x5cb36a04, 0xc2d7ffa7, 0xb5d0cf31, 0x2cd99e8b, 0x5bdeae1d,
     0x9b64c2b0, 0xec63f226, 0x756aa39c, 0x026d930a, 0x9c0906a9, 0xeb0e363f, 0x72076785, 0x05005713,
     0x95bf4a82, 0xe2b87a14, 0x7bb12bae, 0x0cb61b38, 0x92d28e9b, 0xe5d5be0d, 0x7cdcefb7, 0x0bdbdf21,
     0x86d3d2d4, 0xf1d4e242, 0x68ddb3f8, 0x1fda836e, 0x81be16cd, 0xf6b9265b, 0x6fb077e1, 0x18b74777,
     0x88085ae6, 0xff0f6a70, 0x66063bca, 0x11010b5c, 0x8f659eff, 0xf862ae69, 0x616bffd3, 0x166ccf45,
     0xa00ae278, 0xd70dd2ee, 0x4e048354, 0x3903b3c2, 0xa7672661, 0xd06016f7, 0x4969474d, 0x3e6e77db,
     0xaed16a4a, 0xd9d65adc, 0x40df0b66, 0x37d83bf0, 0xa9bcae53, 0xdebb9ec5, 0x47b2cf7f, 0x30b5ffe9,
     0xbdbdf21c, 0xcabac28a, 0x53b39330, 0x24b4a3a6, 0xbad03605, 0xcdd70693, 0x54de5729, 0x23d967bf,
     0xb3667a2e, 0xc4614ab8, 0x5d681b02, 0x2a6f2b94, 0xb40bbe37, 0xc30c8ea1, 0x5a05df1b, 0x2d02ef8d]"

definition crc32_step :: "u32 \<Rightarrow> u8 \<Rightarrow> u32" where
  "crc32_step crc b = crc32_tab ! unat ((crc XOR ucast b) AND 0xFF) XOR drop_bit 8 crc"

definition shr_crc32 :: "u32 \<Rightarrow> bytes \<Rightarrow> u32" where
  "shr_crc32 crc buf = NOT (foldl crc32_step (NOT crc) buf)"

section \<open>The shift register\<close>

definition crc_shift :: "u32 \<Rightarrow> u32" where
  "crc_shift x = (if bit x 0 then 0xedb88320 XOR drop_bit 1 x else drop_bit 1 x)"

definition crc_serial_byte :: "u32 \<Rightarrow> u8 \<Rightarrow> u32" where
  "crc_serial_byte crc b = (crc_shift ^^ 8) (crc XOR ucast b)"

definition crc32_serial :: "u32 \<Rightarrow> bytes \<Rightarrow> u32" where
  "crc32_serial crc buf = NOT (foldl crc_serial_byte (NOT crc) buf)"

lemma length_crc32_tab: "length crc32_tab = 256"
  by (simp add: crc32_tab_def)

text \<open>The table checked entry by entry, from the index \<open>n\<close> on.\<close>

fun tab_from :: "u32 \<Rightarrow> u32 list \<Rightarrow> bool" where
  "tab_from n [] = True"
| "tab_from n (t # ts) = (crc_shift (crc_shift (crc_shift (crc_shift (crc_shift (crc_shift
     (crc_shift (crc_shift n))))))) = t \<and> tab_from (n + 1) ts)"

lemma tab_from_nth: "tab_from n ts \<Longrightarrow> i < length ts \<Longrightarrow> ts ! i = (crc_shift ^^ 8) (n + of_nat i)"
proof (induction ts arbitrary: n i)
  case (Cons t ts)
  have e: "(crc_shift ^^ 8) n = crc_shift (crc_shift (crc_shift (crc_shift (crc_shift (crc_shift
     (crc_shift (crc_shift n)))))))" by (simp add: eval_nat_numeral)
  show ?case
  proof (cases i)
    case (Suc j)
    then have "ts ! j = (crc_shift ^^ 8) (n + 1 + of_nat j)" using Cons by simp
    then show ?thesis using Suc by (simp add: add.assoc)
  qed (use Cons.prems e in simp)
qed simp

lemma crc32_tab_checked: "tab_from 0 crc32_tab"
  by (simp add: crc32_tab_def crc_shift_def)

lemma drop_bit_xor_word: "drop_bit n (x XOR y) = drop_bit n x XOR drop_bit n (y :: u32)"
  by (rule bit_eqI) (simp add: bit_simps)

lemma crc_shift_xor: "crc_shift (x XOR y) = crc_shift x XOR crc_shift y"
  by (auto simp: crc_shift_def drop_bit_xor_word bit_xor_iff ac_simps)

lemma crc_shifts_xor: "(crc_shift ^^ k) (x XOR y) = (crc_shift ^^ k) x XOR (crc_shift ^^ k) y"
  by (induction k) (simp_all add: crc_shift_xor)

lemma crc_shifts_high:
  assumes "\<And>i. i < k \<Longrightarrow> \<not> bit y i"
  shows "(crc_shift ^^ k) y = drop_bit k y"
  using assms
proof (induction k)
  case (Suc k)
  then have "(crc_shift ^^ Suc k) y = crc_shift (drop_bit k y)" by simp
  also have "\<dots> = drop_bit (Suc k) y" using Suc.prems [of k]
    by (simp add: crc_shift_def bit_drop_bit_eq)
  finally show ?case .
qed simp

lemma crc_tab_entry: "crc32_tab ! unat (x AND 0xFF) = (crc_shift ^^ 8) (x AND 0xFF)"
proof -
  have "x AND 0xFF = take_bit 8 x" by (simp add: take_bit_eq_mask mask_eq_exp_minus_1)
  then have "unat (x AND 0xFF) < 256"
    by (simp only: unsigned_take_bit_eq) (simp add: take_bit_eq_mod)
  then show ?thesis using tab_from_nth [OF crc32_tab_checked, of "unat (x AND 0xFF)"]
    by (simp add: length_crc32_tab)
qed

lemma crc32_step_serial: "crc32_step crc b = crc_serial_byte crc b"
proof -
  let ?x = "crc XOR ucast b"
  have split: "?x = (?x AND 0xFF) XOR (?x AND NOT 0xFF)"
    by (rule bit_eqI) (auto simp: bit_simps)
  have low: "(0xFF :: u32) = mask 8" by (simp add: mask_eq_exp_minus_1)
  have "(crc_shift ^^ 8) (?x AND NOT 0xFF) = drop_bit 8 (?x AND NOT 0xFF)"
    by (rule crc_shifts_high) (simp add: low bit_simps)
  also have "\<dots> = drop_bit 8 crc"
    by (rule bit_eqI) (auto simp: low bit_simps dest: bit_imp_le_length)
  finally have "(crc_shift ^^ 8) ?x = (crc_shift ^^ 8) (?x AND 0xFF) XOR drop_bit 8 crc"
    by (subst split) (simp only: crc_shifts_xor)
  then show ?thesis by (simp only: crc32_step_def crc_serial_byte_def crc_tab_entry)
qed

lemma shr_crc32_serial: "shr_crc32 crc buf = crc32_serial crc buf"
proof -
  have "crc32_step = crc_serial_byte" by (intro ext) (rule crc32_step_serial)
  then show ?thesis by (simp add: shr_crc32_def crc32_serial_def)
qed

section \<open>No register step loses information\<close>

definition crc_unshift :: "u32 \<Rightarrow> u32" where
  "crc_unshift y = (if bit y 31 then set_bit 0 (push_bit 1 (y XOR 0xedb88320)) else push_bit 1 y)"

lemma crc_unshift_shift: "crc_unshift (crc_shift x) = x"
proof -
  have top: "\<not> bit (drop_bit 1 x) 31" "bit (0xedb88320 :: u32) 31"
    by (simp_all add: bit_drop_bit_eq) (auto dest: bit_imp_le_length)
  have cancel: "(0xedb88320 XOR drop_bit 1 x) XOR 0xedb88320 = drop_bit 1 x"
    by (rule bit_eqI) (auto simp: bit_xor_iff)
  have push: "push_bit 1 (drop_bit 1 x) = unset_bit 0 x"
    by (rule bit_eqI, unfold bit_push_bit_iff bit_drop_bit_eq)
      (auto simp: bit_simps comp_def)
  show ?thesis
  proof (cases "bit x 0")
    case True
    have "bit (0xedb88320 XOR drop_bit 1 x) 31" unfolding bit_xor_iff using top by blast
    then have "crc_unshift (crc_shift x) = set_bit 0 (unset_bit 0 x)"
      using True by (simp only: crc_shift_def crc_unshift_def cancel push if_True)
    also have "\<dots> = x" using True by (intro bit_eqI) (auto simp: bit_simps)
    finally show ?thesis .
  next
    case False
    then have "crc_unshift (crc_shift x) = unset_bit 0 x"
      using top(1) by (simp only: crc_shift_def crc_unshift_def push if_False)
    also have "\<dots> = x" using False by (intro bit_eqI) (auto simp: bit_simps intro: gr0I)
    finally show ?thesis .
  qed
qed

lemma crc_shifts_inj: "(crc_shift ^^ k) x = (crc_shift ^^ k) y \<longleftrightarrow> x = y"
  by (induction k) (auto dest: arg_cong [where f = crc_unshift] simp: crc_unshift_shift)

lemma crc_serial_inj:
  "crc_serial_byte c a = crc_serial_byte d a \<longleftrightarrow> c = d"
  "crc_serial_byte c a = crc_serial_byte c b \<longleftrightarrow> a = b"
proof -
  have x: "u XOR v = w XOR v \<longleftrightarrow> u = w" "v XOR u = v XOR w \<longleftrightarrow> u = w" for u v w :: u32
    by (metis xor.assoc xor.commute xor_self_eq xor.right_neutral)+
  have u: "(ucast a :: u32) = ucast b \<longleftrightarrow> a = b" for a b :: u8
  proof
    assume "(ucast a :: u32) = ucast b"
    then have "(ucast (ucast a :: u32) :: u8) = ucast (ucast b :: u32)" by simp
    then show "a = b" by (simp add: unsigned_ucast_eq take_bit_word_eq_self)
  qed simp
  show "crc_serial_byte c a = crc_serial_byte d a \<longleftrightarrow> c = d"
    "crc_serial_byte c a = crc_serial_byte c b \<longleftrightarrow> a = b"
    by (simp_all add: crc_serial_byte_def crc_shifts_inj x u)
qed

lemma crc_fold_inj:
  "foldl crc_serial_byte c bs = foldl crc_serial_byte d bs \<longleftrightarrow> c = d"
  by (induction bs arbitrary: c d) (simp_all add: crc_serial_inj)

lemma shr_crc32_byte_inj: "shr_crc32 crc (a @ x # b) = shr_crc32 crc (a @ y # b) \<longleftrightarrow> x = y"
  by (simp add: shr_crc32_serial crc32_serial_def crc_fold_inj crc_serial_inj)

text \<open>C28: \<open>shr_crc32\<close> is the bit-serial CRC-32 of the polynomial its comment states, it can be
  continued over a split buffer, and it detects every change confined to one byte: two buffers
  that agree except at one position have different checksums.\<close>

theorem crc32_correct:
  "shr_crc32 crc buf = crc32_serial crc buf \<and>
   shr_crc32 (shr_crc32 crc a) b = shr_crc32 crc (a @ b) \<and>
   (shr_crc32 crc (a @ x # b) = shr_crc32 crc (a @ y # b) \<longleftrightarrow> x = y)"
  by (simp add: shr_crc32_serial crc32_serial_def crc_fold_inj crc_serial_inj)

end
