(* ===== verification/Cstrings.thy ===== *)
theory Cstrings
  imports Prelude
begin

text \<open>
  The string helpers of \<open>shared/string-util.h\<close> and \<open>shared/string-util.c\<close>: trimming and
  splitting, names that are safe in a path, key/value lines, quoting for the terminal and
  for the shell, and the bounded copies.  A function that edits its argument in place
  returns the string the caller sees afterwards; a function that returns a pointer into
  its argument returns the rest of the string from there.
\<close>

section \<open>Comparison, trimming and splitting\<close>

text \<open>\<open>strsep\<close>: the token up to the first delimiter and the string after it, NULL (None)
  once the string is used up.\<close>

fun shr_strsep :: "string option \<Rightarrow> string \<Rightarrow> string option \<times> string option" where
  "shr_strsep None delim = (None, None)"
| "shr_strsep (Some s) delim =
     (let e = dropWhile (\<lambda>c. c \<notin> set delim) s
      in (Some (takeWhile (\<lambda>c. c \<notin> set delim) s),
          case e of [] \<Rightarrow> None | _ # r \<Rightarrow> Some r))"

definition shr_streq0 :: "string option \<Rightarrow> string option \<Rightarrow> bool" where
  "shr_streq0 s1 s2 = (case (s1, s2) of
      (None, None) \<Rightarrow> True
    | (Some a, Some b) \<Rightarrow> a = b
    | _ \<Rightarrow> False)"

definition strcasecmp_eq :: "string \<Rightarrow> string \<Rightarrow> bool" where
  "strcasecmp_eq a b \<longleftrightarrow> map tolower a = map tolower b"

definition shr_streqcase0 :: "string option \<Rightarrow> string option \<Rightarrow> bool" where
  "shr_streqcase0 s1 s2 = (case (s1, s2) of
      (None, None) \<Rightarrow> True
    | (Some a, Some b) \<Rightarrow> strcasecmp_eq a b
    | _ \<Rightarrow> False)"

definition shr_strtolower :: "string \<Rightarrow> string" where
  "shr_strtolower s = map tolower s"

definition shr_rtrim :: "string \<Rightarrow> string" where
  "shr_rtrim s = rev (dropWhile isspace (rev s))"

definition shr_ltrim :: "string \<Rightarrow> string" where
  "shr_ltrim s = dropWhile (\<lambda>c. c \<in> set [SPC, TAB, LF, CR, VT, FF]) s"

definition shr_trim :: "string \<Rightarrow> string" where
  "shr_trim s = shr_ltrim (shr_rtrim s)"

text \<open>\<open>"%.*s"\<close> stops at the size of the field or at a NUL in it.\<close>

definition shr_buf2str :: "char list \<Rightarrow> string" where
  "shr_buf2str s = shr_rtrim (takeWhile (\<lambda>c. c \<noteq> NUL) s)"

definition shr_startswith :: "string \<Rightarrow> string \<Rightarrow> string option" where
  "shr_startswith s prefix =
     (if take (length prefix) s = prefix then Some (drop (length prefix) s) else None)"

section \<open>Names that may become part of a path\<close>

definition shr_name_char :: "char \<Rightarrow> bool" where
  "shr_name_char c \<longleftrightarrow> (CHR ''a'' \<le> c \<and> c \<le> CHR ''z'') \<or> (CHR ''A'' \<le> c \<and> c \<le> CHR ''Z'')
     \<or> (CHR ''0'' \<le> c \<and> c \<le> CHR ''9'') \<or> c = CHR ''_'' \<or> c = CHR ''-''"

definition shr_valid_name :: "string option \<Rightarrow> bool" where
  "shr_valid_name s = (case s of None \<Rightarrow> False | Some n \<Rightarrow> n \<noteq> [] \<and> list_all shr_name_char n)"

definition shr_sanitize_name :: "string option \<Rightarrow> string option" where
  "shr_sanitize_name s = map_option (map (\<lambda>c. if shr_name_char c then c else CHR ''_'')) s"

section \<open>Key/value lines\<close>

definition shr_kv_strip :: "string \<Rightarrow> string" where
  "shr_kv_strip kv =
     (let kv1 = takeWhile (\<lambda>c. c \<notin> set [LF, CR]) kv;
          kv2 = dropWhile (\<lambda>c. c \<in> set [SPC, TAB, LF, CR]) kv1
      in if kv2 = [] \<or> hd kv2 = CHR ''#'' then []
         else let kv3 = takeWhile (\<lambda>c. c \<notin> set [LF, CR]) kv2;
                  kv4 = takeWhile (\<lambda>c. c \<noteq> CHR ''#'') kv3
              in rev (dropWhile (\<lambda>c. c = SPC \<or> c = TAB) (rev kv4)))"

definition shr_kv_keymatch :: "string \<Rightarrow> string \<Rightarrow> string option" where
  "shr_kv_keymatch kv key = (case shr_startswith kv key of
      None \<Rightarrow> None
    | Some v \<Rightarrow> (if cget v 0 \<in> set [SPC, TAB, CHR ''='']
                 then Some (dropWhile (\<lambda>c. c \<in> set [SPC, TAB, CHR ''='']) v) else None))"

definition shr_linelen :: "string option \<Rightarrow> nat" where
  "shr_linelen s = (case s of None \<Rightarrow> 0 | Some t \<Rightarrow> length (takeWhile (\<lambda>c. c \<noteq> LF) t))"

section \<open>Quoting\<close>

text \<open>Both functions compute the size of the copy first, allocate it and then fill it.
  \<open>mem\<close> says whether the allocation succeeds.\<close>

definition hex_digit :: "nat \<Rightarrow> char" where
  "hex_digit n = ''0123456789abcdef'' ! n"

definition esc_ctrl :: "char \<Rightarrow> bool" where
  "esc_ctrl c \<longleftrightarrow> ord c < 0x20 \<or> ord c = 0x7f"

definition shr_escape_size :: "string \<Rightarrow> nat" where
  "shr_escape_size s = foldl (\<lambda>n c. n + (if esc_ctrl c then 4 else 1)) 1 s"

primrec shr_escape_loop :: "string \<Rightarrow> string" where
  "shr_escape_loop [] = []"
| "shr_escape_loop (c # s) =
     (if esc_ctrl c
      then CHR 0x5C # CHR ''x'' # hex_digit (ord c div 16) # hex_digit (ord c mod 16) #
           shr_escape_loop s
      else c # shr_escape_loop s)"

definition shr_escape :: "bool \<Rightarrow> string \<Rightarrow> string option" where
  "shr_escape mem s = (if mem then Some (shr_escape_loop s) else None)"

definition shr_shell_quote_size :: "string \<Rightarrow> nat" where
  "shr_shell_quote_size s = foldl (\<lambda>n c. n + (if c = CHR 0x27 then 4 else 1)) 3 s"

primrec shell_quote_loop :: "string \<Rightarrow> string" where
  "shell_quote_loop [] = []"
| "shell_quote_loop (c # s) =
     (if c = CHR 0x27 then [CHR 0x27, CHR 0x5C, CHR 0x27, CHR 0x27] @ shell_quote_loop s
      else c # shell_quote_loop s)"

definition shr_shell_quote :: "bool \<Rightarrow> string \<Rightarrow> string option" where
  "shr_shell_quote mem s =
     (if mem then Some (CHR 0x27 # shell_quote_loop s @ [CHR 0x27]) else None)"

section \<open>Bounded copies\<close>

text \<open>\<open>dst\<close> is the memory behind the destination pointer, \<open>sz\<close> the size the caller
  states; the result is that memory after the call and the returned length.\<close>

definition shr_strscpy :: "char list \<Rightarrow> string \<Rightarrow> nat \<Rightarrow> char list \<times> nat res" where
  "shr_strscpy dst src sz =
     (if sz = 0 then (dst, Inl E2BIG)
      else let len = min (length src) sz
           in if len = sz
              then (blit 0 (take (sz - 1) src @ [NUL]) dst, Inl E2BIG)
              else (blit 0 (src @ [NUL]) dst, Inr len))"

definition shr_strscat :: "char list \<Rightarrow> string \<Rightarrow> nat \<Rightarrow> char list \<times> nat res" where
  "shr_strscat dst src sz =
     (let len = strnlen dst sz
      in if len = sz then (dst, Inl E2BIG)
         else (case shr_strscpy (drop len dst) src (sz - len) of
                 (d, Inl e) \<Rightarrow> (take len dst @ d, Inl e)
               | (d, Inr n) \<Rightarrow> (take len dst @ d, Inr (len + n))))"

text \<open>\<open>vsnprintf\<close> into \<open>room\<close> bytes at \<open>off\<close>: None stands for its negative result, otherwise
  the text is written up to \<open>room - 1\<close> bytes and terminated, and its full length returned.\<close>

definition vsnprintf_at :: "char list \<Rightarrow> nat \<Rightarrow> nat \<Rightarrow> string \<Rightarrow> char list" where
  "vsnprintf_at buf off room txt =
     (if room = 0 then buf else blit off (take (room - 1) txt @ [NUL]) buf)"

definition shr_snprintf_append ::
  "char list \<Rightarrow> nat \<Rightarrow> nat \<Rightarrow> string option \<Rightarrow> (char list \<times> nat) \<times> unit res" where
  "shr_snprintf_append buf sz len out =
     (if sz = 0 \<or> len \<ge> sz - 1 then ((buf, len), Inl E2BIG)
      else (case out of
              None \<Rightarrow> ((buf, len), Inl EINVAL)
            | Some txt \<Rightarrow>
                (let buf' = vsnprintf_at buf len (sz - len) txt
                 in if length txt \<ge> sz - len then ((buf', sz - 1), Inl E2BIG)
                    else ((buf', len + length txt), Inr ()))))"

section \<open>Trimming and splitting: lemmas\<close>

lemma ltrim_set [simp]: "(c \<in> set [SPC, TAB, LF, CR, VT, FF]) \<longleftrightarrow> isspace c"
  by (auto simp: isspace_def)

lemma shr_ltrim_eq: "shr_ltrim s = dropWhile isspace s"
proof -
  have "(\<lambda>c. c \<in> set [SPC, TAB, LF, CR, VT, FF]) = isspace"
    by (intro ext ltrim_set)
  then show ?thesis by (simp only: shr_ltrim_def)
qed

lemma shr_rtrim_id: "s = [] \<or> \<not> isspace (last s) \<Longrightarrow> shr_rtrim s = s"
  by (cases s rule: rev_cases) (auto simp: shr_rtrim_def)

lemma shr_ltrim_id: "s = [] \<or> \<not> isspace (hd s) \<Longrightarrow> shr_ltrim s = s"
  by (cases s) (auto simp: shr_ltrim_eq)

lemma shr_rtrim_Nil [simp]: "shr_rtrim [] = []"
  by (simp add: shr_rtrim_def)

lemma shr_rtrim_last: "shr_rtrim s \<noteq> [] \<Longrightarrow> \<not> isspace (last (shr_rtrim s))"
  unfolding shr_rtrim_def by (metis hd_dropWhile last_rev rev_is_Nil_conv)

lemma shr_rtrim_prefix: "\<exists>w. s = shr_rtrim s @ w \<and> list_all isspace w"
proof -
  have "rev s = takeWhile isspace (rev s) @ dropWhile isspace (rev s)" by simp
  then have "s = rev (dropWhile isspace (rev s)) @ rev (takeWhile isspace (rev s))"
    by (metis rev_append rev_rev_ident)
  moreover have "list_all isspace (rev (takeWhile isspace (rev s)))"
    by (auto simp: list_all_iff dest: set_takeWhileD)
  ultimately show ?thesis unfolding shr_rtrim_def by blast
qed

lemma shr_ltrim_suffix: "\<exists>w. s = w @ shr_ltrim s \<and> list_all isspace w"
  by (rule exI [of _ "takeWhile isspace s"])
    (auto simp: shr_ltrim_eq list_all_iff dest: set_takeWhileD)

text \<open>A trimmed string neither starts nor ends with white space.\<close>

definition trimmed :: "string \<Rightarrow> bool" where
  "trimmed s \<longleftrightarrow> s = [] \<or> (\<not> isspace (hd s) \<and> \<not> isspace (last s))"

lemma shr_trim_trimmed: "trimmed (shr_trim s)"
proof (cases "shr_trim s = []")
  case True
  then show ?thesis by (simp add: trimmed_def)
next
  case False
  let ?r = "shr_rtrim s"
  from False have hd: "\<not> isspace (hd (shr_trim s))"
    by (simp add: shr_trim_def shr_ltrim_eq hd_dropWhile)
  obtain w where "?r = w @ shr_ltrim ?r" using shr_ltrim_suffix by blast
  with False have "last ?r = last (shr_trim s)" "?r \<noteq> []"
    by (metis last_appendR shr_trim_def, metis append_is_Nil_conv shr_trim_def)
  with hd show ?thesis using shr_rtrim_last [of s] by (simp add: trimmed_def)
qed

lemma shr_trim_id [simp]: "trimmed s \<Longrightarrow> shr_trim s = s"
  by (auto simp: trimmed_def shr_trim_def shr_rtrim_id shr_ltrim_id)

lemma shr_trim_sub: "\<exists>a b. s = a @ shr_trim s @ b \<and> list_all isspace a \<and> list_all isspace b"
proof -
  obtain b where b: "s = shr_rtrim s @ b" "list_all isspace b" using shr_rtrim_prefix by blast
  obtain a where a: "shr_rtrim s = a @ shr_ltrim (shr_rtrim s)" "list_all isspace a"
    using shr_ltrim_suffix by blast
  from a(1) b(1) have "s = a @ shr_ltrim (shr_rtrim s) @ b" by (metis append_assoc)
  with a(2) b(2) show ?thesis unfolding shr_trim_def by blast
qed

lemma set_shr_trim: "set (shr_trim s) \<subseteq> set s"
  using shr_trim_sub [of s] by (metis Un_upper1 Un_upper2 order_trans set_append)

lemma shr_trim_pad:
  assumes "trimmed s" "s \<noteq> []" "list_all isspace a" "list_all isspace b"
  shows "shr_trim (a @ s @ b) = s"
proof -
  from assms(4) have "list_all isspace (rev b)" by (simp add: list_all_iff)
  then have "shr_rtrim (a @ s @ b) = shr_rtrim (a @ s)"
    by (simp add: shr_rtrim_def dropWhile_all)
  also have "\<dots> = a @ s" using assms(1,2) by (intro shr_rtrim_id) (auto simp: trimmed_def)
  finally show ?thesis using assms(1-3)
    by (simp add: shr_trim_def shr_ltrim_eq dropWhile_all) (cases s; auto simp: trimmed_def)
qed

lemma shr_trim_blank [simp]: "list_all isspace w \<Longrightarrow> shr_trim w = []"
proof -
  assume "list_all isspace w"
  then have "dropWhile isspace (rev w) = []" by (simp add: dropWhile_eq_Nil_conv list_all_iff)
  then show ?thesis
    by (simp only: shr_trim_def shr_rtrim_def shr_ltrim_eq rev.simps dropWhile.simps)
qed

lemma shr_strsep_shrinks:
  "shr_strsep (Some s) d = (t, Some r) \<Longrightarrow> length r < length s"
  by (auto simp: Let_def split: list.splits dest: arg_cong [where f = length]
        intro: le_less_trans [OF length_dropWhile_le])
    (metis length_Cons length_dropWhile_le less_eq_Suc_le)

lemma shr_streq0_iff [simp]: "shr_streq0 a b \<longleftrightarrow> a = b"
  by (auto simp: shr_streq0_def split: option.splits)

lemma shr_startswith_iff: "shr_startswith s p = Some r \<longleftrightarrow> s = p @ r"
  unfolding shr_startswith_def by (metis append_eq_conv_conj append_take_drop_id option.inject option.distinct(1))

section \<open>Quoting: lemmas\<close>

text \<open>What a POSIX shell reads from a word: single-quoted stretches are literal, a backslash
  outside quotes takes the next character, and a character with a meaning for the shell
  (or an open quote at the end) does not give one literal word.\<close>

definition sh_special :: "char \<Rightarrow> bool" where
  "sh_special c \<longleftrightarrow> isspace c \<or> c \<in> set ''|&;<>()$`*?[]#~=%!{}^'' \<or> ord c = 34"

fun sh_unquoted :: "string \<Rightarrow> string option" and sh_quoted :: "string \<Rightarrow> string option" where
  "sh_unquoted [] = Some []"
| "sh_unquoted (c # s) =
     (if c = CHR 0x27 then sh_quoted s
      else if c = CHR 0x5C then
        (case s of [] \<Rightarrow> None | d # r \<Rightarrow> map_option (Cons d) (sh_unquoted r))
      else if sh_special c then None
      else map_option (Cons c) (sh_unquoted s))"
| "sh_quoted [] = None"
| "sh_quoted (c # s) =
     (if c = CHR 0x27 then sh_unquoted s else map_option (Cons c) (sh_quoted s))"

lemma sh_quoted_loop: "sh_quoted (shell_quote_loop s @ [CHR 0x27]) = Some s"
  by (induction s) auto

lemma foldl_sum_shift: "foldl (\<lambda>n c. n + f c) (a::nat) s = a + foldl (\<lambda>n c. n + f c) 0 s"
proof (induction s arbitrary: a)
  case (Cons c s)
  have "foldl (\<lambda>n c. n + f c) (a + f c) s = a + f c + foldl (\<lambda>n c. n + f c) 0 s"
    by (rule Cons.IH)
  moreover have "foldl (\<lambda>n c. n + f c) (0 + f c) s = 0 + f c + foldl (\<lambda>n c. n + f c) 0 s"
    by (rule Cons.IH)
  ultimately show ?case by simp
qed simp

lemma shell_quote_loop_length:
  "foldl (\<lambda>n c. n + (if c = CHR 0x27 then 4 else 1)) (0::nat) s = length (shell_quote_loop s)"
proof (induction s)
  case (Cons c s)
  then show ?case
    by (subst foldl.simps(2), subst foldl_sum_shift) simp
qed simp

lemma escape_loop_length:
  "foldl (\<lambda>n c. n + (if esc_ctrl c then 4 else 1)) (0::nat) s = length (shr_escape_loop s)"
proof (induction s)
  case (Cons c s)
  then show ?case
    by (subst foldl.simps(2), subst foldl_sum_shift) simp
qed simp

lemma shr_escape_size_eq: "shr_escape_size s = length (shr_escape_loop s) + 1"
  unfolding shr_escape_size_def
  by (subst foldl_sum_shift) (simp add: escape_loop_length)

lemma shr_shell_quote_size_eq: "shr_shell_quote_size s = length (shell_quote_loop s) + 3"
  unfolding shr_shell_quote_size_def
  by (subst foldl_sum_shift) (simp add: shell_quote_loop_length)

lemma hex_digit_printable: "n < 16 \<Longrightarrow> \<not> esc_ctrl (hex_digit n)"
proof -
  assume "n < 16"
  then have "hex_digit n \<in> set ''0123456789abcdef''"
    unfolding hex_digit_def by (intro nth_mem) simp
  then show ?thesis by (auto simp: esc_ctrl_def)
qed

lemma escape_loop_printable: "c \<in> set (shr_escape_loop s) \<Longrightarrow> \<not> esc_ctrl c"
proof (induction s)
  case (Cons d s)
  have "ord d div 16 < 16" by (rule less_mult_imp_div_less) simp
  moreover have "ord d mod 16 < 16" by simp
  ultimately have "ord d div 16 < 16" "ord d mod 16 < 16" by blast+
  note hs = this [THEN hex_digit_printable]
  from Cons show ?case
    by (auto split: if_splits simp: hs) (auto simp: esc_ctrl_def)
qed simp

section \<open>Bounded copies: lemmas\<close>

text \<open>The contract of a bounded writer: inside the \<open>sz\<close> bytes the caller states there is a
  NUL-terminated string, and nothing outside is touched.\<close>

lemma shr_strscpy_frame:
  "sz \<le> length dst \<Longrightarrow> fst (shr_strscpy dst src sz) = blit 0 (take (sz - 1) src @ [NUL]) dst
     \<or> sz = 0 \<and> fst (shr_strscpy dst src sz) = dst"
  by (auto simp: shr_strscpy_def Let_def min_def)

lemma blit_0_frame:
  assumes "sz \<le> length dst" "0 < sz"
  shows "length (blit 0 (take (sz - 1) src @ [NUL]) dst) = length dst"
    and "drop sz (blit 0 (take (sz - 1) src @ [NUL]) dst) = drop sz dst"
  using assms by (auto simp: buf_simps min_def intro!: length_blit drop_blit)

lemma strnlen_blit_0:
  assumes "0 < sz" "sz \<le> length dst" "cstring src"
  shows "strnlen (blit 0 (take (sz - 1) src @ [NUL]) dst) sz = min (length src) (sz - 1)"
proof -
  have "cstring (take (sz - 1) src)" using assms(3)
    by (auto simp: cstring_def dest: in_set_takeD)
  then have "strnlen (take (sz - 1) src @ NUL # drop (Suc (min (length src) (sz - 1))) dst) sz
      = length (take (sz - 1) src)"
    using assms(1) by (intro strnlen_append_NUL) auto
  then show ?thesis by (simp add: blit_def)
qed

lemma strnlen_append:
  "cstring a \<Longrightarrow> length a \<le> n \<Longrightarrow> strnlen (a @ b) n = length a + strnlen b (n - length a)"
  by (auto simp: strnlen_def cstring_def takeWhile_append)

lemma cstring_take_strnlen: "cstring (take (strnlen buf n) buf)"
proof -
  have "take (strnlen buf n) (take n buf) = takeWhile (\<lambda>c. c \<noteq> NUL) (take n buf)"
    unfolding strnlen_def by (rule takeWhile_eq_take [symmetric])
  then have "take (strnlen buf n) buf = takeWhile (\<lambda>c. c \<noteq> NUL) (take n buf)"
    using strnlen_le [of buf n] by (simp add: min_def)
  then show ?thesis unfolding cstring_def by (auto dest: set_takeWhileD)
qed

lemma shr_strscpy_result:
  "snd (shr_strscpy dst src sz) = (if length src < sz then Inr (length src) else Inl E2BIG)"
  by (auto simp: shr_strscpy_def Let_def min_def)

text \<open>\<open>shr_shell_quote\<close> produces one shell word that reads back as the argument, whatever
  bytes it holds, and fills exactly the buffer whose size it computed (the NUL included).\<close>

theorem shr_shell_quote_roundtrip:
  "(case shr_shell_quote mem s of
      None \<Rightarrow> \<not> mem
    | Some q \<Rightarrow> sh_unquoted q = Some s \<and> length q + 1 = shr_shell_quote_size s)"
  by (simp add: shr_shell_quote_def sh_quoted_loop shr_shell_quote_size_eq)

text \<open>No control character of the argument survives \<open>shr_escape\<close>, a string without
  control characters is copied unchanged, and the copy fills exactly the computed buffer.\<close>

theorem shr_escape_safe:
  "(case shr_escape mem s of
      None \<Rightarrow> \<not> mem
    | Some e \<Rightarrow> list_all (\<lambda>c. \<not> esc_ctrl c) e \<and> length e + 1 = shr_escape_size s
         \<and> (list_all (\<lambda>c. \<not> esc_ctrl c) s = (e = s)))"
proof -
  have "list_all (\<lambda>c. \<not> esc_ctrl c) s \<Longrightarrow> shr_escape_loop s = s"
    by (induction s) auto
  moreover have "list_all (\<lambda>c. \<not> esc_ctrl c) (shr_escape_loop s)"
    by (auto simp: list_all_iff dest: escape_loop_printable)
  ultimately show ?thesis
    by (auto simp: shr_escape_def shr_escape_size_eq)
qed

text \<open>\<open>shr_strscat\<close> keeps the text that was in the buffer, leaves a NUL-terminated string
  inside the stated size, touches no byte behind it, and either appends the whole source
  and returns the new length or reports \<open>E2BIG\<close> exactly when the source does not fit.\<close>

theorem shr_strscat_bounded:
  assumes "sz \<le> length dst" "cstring src" "strnlen dst sz < sz"
  defines "len \<equiv> strnlen dst sz"
  shows "case shr_strscat dst src sz of (d, r) \<Rightarrow>
      length d = length dst \<and> drop sz d = drop sz dst \<and> take len d = take len dst
    \<and> strnlen d sz = min (len + length src) (sz - 1)
    \<and> r = (if len + length src < sz then Inr (len + length src) else Inl E2BIG)"
proof -
  let ?d = "blit 0 (take (sz - len - 1) src @ [NUL]) (drop len dst)"
  have sz: "0 < sz - len" "sz - len \<le> length (drop len dst)" "len < length dst"
    using assms by auto
  have cpy: "shr_strscpy (drop len dst) src (sz - len) =
      (?d, if length src < sz - len then Inr (length src) else Inl E2BIG)"
    using shr_strscpy_frame [OF sz(2), of src] sz(1) shr_strscpy_result
    by (auto simp: prod_eq_iff)
  have res: "shr_strscat dst src sz = (take len dst @ ?d,
      if len + length src < sz then Inr (len + length src) else Inl E2BIG)"
    using assms(3) sz(1) unfolding shr_strscat_def Let_def len_def [symmetric] cpy by auto
  note f = blit_0_frame [OF sz(2,1), of src]
  have "drop sz (take len dst @ ?d) = drop (sz - len) ?d" using sz by simp
  moreover have "strnlen (take len dst @ ?d) sz = len + strnlen ?d (sz - len)"
    using sz(3) cstring_take_strnlen [of dst sz] assms(3)
    by (subst strnlen_append) (auto simp: len_def)
  ultimately show ?thesis
    using f sz strnlen_blit_0 [OF sz(1,2) assms(2)] by (simp add: res) linarith
qed

theorem shr_strscat_bounded_witness:
  "shr_strscat ''ab\<newline>''  [] 0 = (''ab\<newline>'', Inl E2BIG) \<and>
   strnlen (fst (shr_strscat [CHR ''a'', NUL, NUL, NUL] ''bcd'' 4)) 4 = 3"
proof -
  have "strnlen [CHR ''a'', NUL, NUL, NUL] 4 < 4" by code_simp
  moreover have "strnlen [CHR ''a'', NUL, NUL, NUL] 4 = 1" by code_simp
  ultimately show ?thesis
    using shr_strscat_bounded [of 4 "[CHR ''a'', NUL, NUL, NUL]" "''bcd''"]
    by (simp add: cstring_def split: prod.splits) (simp add: shr_strscat_def strnlen_def)
qed

end
