(* ===== verification/GetLog.thy ===== *)
theory GetLog
  imports Prelude
begin

unbundle bit_operations_syntax

text \<open>
  Reading a log page of a controller in pieces, \<open>libnvme_get_log\<close> and
  \<open>libnvme_get_log_dynamic_chunk\<close> of \<open>libnvme/src/nvme/nvme-cmds.c\<close> with the command
  initialisers of \<open>nvme-cmds-base.h\<close> they work on.

  The fields of a command have their C width; those left out are zero and not used here.  \<open>submit k c\<close> is the result of the \<open>k\<close>-th command sent,
  \<open>wait\<close> that of \<open>wait_get_log_cmd\<close>: success, a negative errno, or a positive NVMe status.  The loops
  return the commands they sent along with the result.  \<open>force_4k\<close> is the flag of the global context.
  The checks for NULL pointers are left out.
\<close>

section \<open>Commands\<close>

abbreviation ENODEV :: errno where "ENODEV \<equiv> Errno 19"
abbreviation EAGAIN :: errno where "EAGAIN \<equiv> Errno 11"
abbreviation ENOSPC :: errno where "ENOSPC \<equiv> Errno 28"
abbreviation EBADSLT :: errno where "EBADSLT \<equiv> Errno 57"

datatype rc = RcOk | RcErrno errno | RcStatus u16

record passthru_cmd =
  opcode :: u8
  nsid :: u32
  addr :: u64
  data_len :: u32
  cdw10 :: u32
  cdw11 :: u32
  cdw12 :: u32
  cdw13 :: u32
  cdw14 :: u32

definition nvme_admin_get_log_page :: u8 where "nvme_admin_get_log_page = 2"
definition NVME_LOG_PAGE_PDU_SIZE :: u32 where "NVME_LOG_PAGE_PDU_SIZE = 4096"

text \<open>\<open>NVME_SET\<close>, \<open>NVME_VAL\<close> and \<open>NVME_FIELD_ENCODE\<close>, with the shift and the mask of the field.\<close>

definition field_encode :: "u32 \<Rightarrow> nat \<Rightarrow> u32 \<Rightarrow> u32" where
  "field_encode v sh m = push_bit sh (v AND m)"

definition LOG_CDW10_LID :: u32 where "LOG_CDW10_LID = push_bit 0 0xff"
definition LOG_CDW10_LSP :: u32 where "LOG_CDW10_LSP = push_bit 8 0x7f"
definition LOG_CDW11_LSI :: u32 where "LOG_CDW11_LSI = push_bit 16 0xffff"

definition nvme_init_get_log :: "u32 \<Rightarrow> u32 \<Rightarrow> u32 \<Rightarrow> u64 \<Rightarrow> u32 \<Rightarrow> passthru_cmd" where
  "nvme_init_get_log nsid' lid csi data n =
     (let numd = drop_bit 2 n - 1; numdu = ucast (drop_bit 16 numd) :: u16; numdl = ucast (numd AND 0xffff) :: u16
      in \<lparr>opcode = nvme_admin_get_log_page, nsid = nsid', addr = data, data_len = n,
          cdw10 = field_encode lid 0 0xff OR field_encode (ucast numdl) 16 0xffff,
          cdw11 = field_encode (ucast numdu) 0 0xffff, cdw12 = 0, cdw13 = 0, cdw14 = field_encode csi 24 0xff\<rparr>)"

definition nvme_init_get_log_lpo :: "passthru_cmd \<Rightarrow> u64 \<Rightarrow> passthru_cmd" where
  "nvme_init_get_log_lpo cmd lpo = cmd\<lparr>cdw12 := ucast (lpo AND 0xffffffff), cdw13 := ucast (drop_bit 32 lpo)\<rparr>"

section \<open>Reading in pieces\<close>

text \<open>The command for one piece: the local variables from \<open>lpo\<close> to \<open>_rae\<close> and the fields they set.\<close>

definition piece :: "passthru_cmd \<Rightarrow> u64 \<Rightarrow> u64 \<Rightarrow> u32 \<Rightarrow> u32 \<Rightarrow> bool \<Rightarrow> u64 \<Rightarrow> u64 \<Rightarrow> u64 \<Rightarrow> passthru_cmd" where
  "piece cmd start data_len' c10 c11 rae offset xfer ptr =
     (let lpo = start + offset; numd = ucast (drop_bit 2 xfer - 1) :: u32;
          numdu = ucast (drop_bit 16 numd) :: u16; numdl = ucast (numd AND 0xffff) :: u16;
          rae' = offset + xfer < data_len' \<or> rae
      in cmd\<lparr>cdw10 := c10 OR field_encode (if rae' then 1 else 0) 15 1 OR field_encode (ucast numdl) 16 0xffff,
             cdw11 := c11 OR field_encode (ucast numdu) 0 0xffff,
             cdw12 := ucast (lpo AND 0xffffffff), cdw13 := ucast (drop_bit 32 lpo),
             data_len := ucast xfer, addr := ptr\<rparr>)"

partial_function (option) get_log_loop ::
  "bool \<Rightarrow> (nat \<Rightarrow> passthru_cmd \<Rightarrow> rc) \<Rightarrow> rc \<Rightarrow> u64 \<Rightarrow> u64 \<Rightarrow> u32 \<Rightarrow> u32 \<Rightarrow> u32 \<Rightarrow> bool \<Rightarrow> u64 \<Rightarrow> u64 \<Rightarrow> passthru_cmd \<Rightarrow>
   passthru_cmd list \<Rightarrow> (rc \<times> passthru_cmd list) option" where
  "get_log_loop force_4k submit wait start data_len' xfer_len c10 c11 rae offset ptr cmd sent =
     (let xfer = (if \<not> force_4k
                  then (let x = data_len' - offset in if x > ucast xfer_len then ucast xfer_len else x)
                  else ucast NVME_LOG_PAGE_PDU_SIZE);
          c = piece cmd start data_len' c10 c11 rae offset xfer ptr;
          ret = submit (length sent) c
      in if ret \<noteq> RcOk then Some (ret, sent @ [c])
         else if offset + xfer < data_len'
         then get_log_loop force_4k submit wait start data_len' xfer_len c10 c11 rae (offset + xfer) (ptr + xfer) c (sent @ [c])
         else Some (wait, sent @ [c]))"

definition libnvme_get_log ::
  "bool \<Rightarrow> (nat \<Rightarrow> passthru_cmd \<Rightarrow> rc) \<Rightarrow> rc \<Rightarrow> passthru_cmd \<Rightarrow> bool \<Rightarrow> u32 \<Rightarrow> (rc \<times> passthru_cmd list) option" where
  "libnvme_get_log force_4k submit wait cmd rae xfer_len =
     (if xfer_len < 4 then Some (RcErrno EINVAL, [])
      else (let start = push_bit 32 (ucast (cdw13 cmd)) OR ucast (cdw12 cmd);
                xl = (if force_4k then NVME_LOG_PAGE_PDU_SIZE else xfer_len)
            in get_log_loop force_4k submit wait start (ucast (data_len cmd)) xl
                 (cdw10 cmd AND (LOG_CDW10_LID OR LOG_CDW10_LSP)) (cdw11 cmd AND LOG_CDW11_LSI) rae 0 (addr cmd) cmd []))"

text \<open>The variant with a shrinking transfer length: \<open>submit k c\<close> includes the wait, and the list holds the
  commands that succeeded.\<close>

definition nvme_status_code_type :: "u16 \<Rightarrow> u16" where
  "nvme_status_code_type st = drop_bit 8 st AND 7"

definition NVME_SCT_CMD_SPECIFIC :: u16 where "NVME_SCT_CMD_SPECIFIC = 1"

definition may_shrink :: "rc \<Rightarrow> bool" where
  "may_shrink ret = (case ret of RcOk \<Rightarrow> False | RcErrno _ \<Rightarrow> True | RcStatus st \<Rightarrow> nvme_status_code_type st \<le> NVME_SCT_CMD_SPECIFIC)"

partial_function (option) dynamic_loop ::
  "(nat \<Rightarrow> passthru_cmd \<Rightarrow> rc) \<Rightarrow> u64 \<Rightarrow> u64 \<Rightarrow> u32 \<Rightarrow> u32 \<Rightarrow> bool \<Rightarrow> u32 \<Rightarrow> u64 \<Rightarrow> u64 \<Rightarrow> passthru_cmd \<Rightarrow> nat \<Rightarrow>
   passthru_cmd list \<Rightarrow> (rc \<times> passthru_cmd list) option" where
  "dynamic_loop submit start data_len' c10 c11 rae xfer_len offset ptr cmd k done_cmds =
     (let xfer = (let x = data_len' - offset in if x > ucast xfer_len then ucast xfer_len else x);
          c = piece cmd start data_len' c10 c11 rae offset xfer ptr;
          ret = submit k c
      in if may_shrink ret then
           (let xl = (xfer_len div 2) AND NOT (NVME_LOG_PAGE_PDU_SIZE - 1)
            in if xl < NVME_LOG_PAGE_PDU_SIZE then Some (ret, done_cmds)
               else if offset < data_len'
               then dynamic_loop submit start data_len' c10 c11 rae xl offset ptr c (k + 1) done_cmds
               else Some (RcOk, done_cmds))
         else if ret \<noteq> RcOk then Some (ret, done_cmds)
         else if offset + xfer < data_len'
         then dynamic_loop submit start data_len' c10 c11 rae xfer_len (offset + xfer) (ptr + xfer) c (k + 1) (done_cmds @ [c])
         else Some (RcOk, done_cmds @ [c]))"

definition libnvme_get_log_dynamic_chunk ::
  "bool \<Rightarrow> (nat \<Rightarrow> passthru_cmd \<Rightarrow> rc) \<Rightarrow> passthru_cmd \<Rightarrow> bool \<Rightarrow> u32 \<Rightarrow> (rc \<times> passthru_cmd list) option" where
  "libnvme_get_log_dynamic_chunk force_4k submit cmd rae xfer_len =
     (if xfer_len < 4 then Some (RcErrno EINVAL, [])
      else (let start = push_bit 32 (ucast (cdw13 cmd)) OR ucast (cdw12 cmd);
                xl = (if force_4k then NVME_LOG_PAGE_PDU_SIZE else xfer_len)
            in dynamic_loop submit start (ucast (data_len cmd))
                 (cdw10 cmd AND (LOG_CDW10_LID OR LOG_CDW10_LSP)) (cdw11 cmd AND LOG_CDW11_LSI) rae xl 0 (addr cmd) cmd 0 []))"

section \<open>What a command asks for\<close>

text \<open>The offset, the number of bytes and the Retain Asynchronous Event bit, as the NVMe Base Specification
  lays them out in a Get Log Page command.\<close>

definition cmd_lpo :: "passthru_cmd \<Rightarrow> nat" where
  "cmd_lpo c = unat (cdw12 c) + 2 ^ 32 * unat (cdw13 c)"

definition cmd_bytes :: "passthru_cmd \<Rightarrow> nat" where
  "cmd_bytes c = 4 * (unat (drop_bit 16 (cdw10 c)) + 2 ^ 16 * unat (cdw11 c AND 0xffff) + 1)"

definition cmd_rae :: "passthru_cmd \<Rightarrow> bool" where
  "cmd_rae c \<longleftrightarrow> bit (cdw10 c) 15"

lemma masks: "(0xff :: u32) = mask 8" "(0x7f :: u32) = mask 7" "(0xffff :: u32) = mask 16" "(0xffffffff :: u64) = mask 32" "(1 :: u32) = mask 1"
  by (simp_all add: mask_eq_exp_minus_1)

lemma unat_high:
  assumes "n + LENGTH('b) = LENGTH('a)"
  shows "unat (ucast (drop_bit n (x :: 'a::len word)) :: 'b::len word) = unat x div 2 ^ n"
proof -
  have "unat x div 2 ^ n < 2 ^ LENGTH('b)"
    using unsigned_less [of x, where 'a = nat] assms by (simp add: less_mult_imp_div_less power_add [symmetric] add.commute)
  moreover have "unat (drop_bit n x) = unat x div 2 ^ n" unfolding unat_drop_bit_eq by (rule drop_bit_eq_div)
  ultimately show ?thesis by (simp only: unsigned_ucast_eq take_bit_nat_eq_self)
qed

lemma unat_low: "n = LENGTH('b) \<Longrightarrow> unat (ucast (x AND mask n) :: 'b::len word) = unat (x :: 'a::len word) mod 2 ^ n"
  unfolding take_bit_eq_mask [symmetric]
  by (simp add: unsigned_ucast_eq unsigned_take_bit_eq) (simp add: take_bit_eq_mod)

lemma lpo_split: "unat (ucast (x AND 0xffffffff) :: u32) + 2 ^ 32 * unat (ucast (drop_bit 32 x) :: u32) = unat (x :: u64)"
  using unat_high [of 32, where 'b = 32, of x] unat_low [of 32, where 'b = 32, of x] by (simp add: masks [symmetric])

lemma numd_split: "unat (ucast (x AND 0xffff) :: u16) + 2 ^ 16 * unat (ucast (drop_bit 16 x) :: u16) = unat (x :: u32)"
  using unat_high [of 16, where 'b = 16, of x] unat_low [of 16, where 'b = 16, of x] by (simp add: masks [symmetric])

lemma unat_u16_u32: "unat (ucast (l :: u16) :: u32) = unat l"
  by (simp add: unsigned_ucast_eq take_bit_nat_eq_self unsigned_less [of l, where 'a = nat, THEN less_le_trans])

lemma u16_bit: "bit (l :: u16) n \<Longrightarrow> n < 16"
  using bit_imp_le_length [of l n] by simp

lemma cdw10_fields:
  fixes y r :: u32 and l :: u16
  defines "w \<equiv> (y AND (LOG_CDW10_LID OR LOG_CDW10_LSP)) OR field_encode r 15 1 OR field_encode (ucast l) 16 0xffff"
  shows "drop_bit 16 w = ucast l" "bit w 15 \<longleftrightarrow> bit r 0" "w AND (LOG_CDW10_LID OR LOG_CDW10_LSP) = y AND (LOG_CDW10_LID OR LOG_CDW10_LSP)"
  unfolding w_def field_encode_def LOG_CDW10_LID_def LOG_CDW10_LSP_def masks
  by (auto simp: bit_eq_iff bit_simps dest: u16_bit)

lemma cdw11_fields:
  fixes y :: u32 and u :: u16
  defines "w \<equiv> (y AND LOG_CDW11_LSI) OR field_encode (ucast u) 0 0xffff"
  shows "w AND 0xffff = ucast u" "w AND LOG_CDW11_LSI = y AND LOG_CDW11_LSI"
  unfolding w_def field_encode_def LOG_CDW11_LSI_def masks
  by (auto simp: bit_eq_iff bit_simps dest: u16_bit)

abbreviation "keep10 \<equiv> LOG_CDW10_LID OR LOG_CDW10_LSP"

lemma unat_u64_u32: "unat (x :: u64) < 2 ^ 32 \<Longrightarrow> unat (ucast x :: u32) = unat x"
  by (simp add: unsigned_ucast_eq take_bit_nat_eq_self)

lemma unat_u32_u64: "unat (ucast (x :: u32) :: u64) = unat x"
  by (simp add: unsigned_ucast_eq take_bit_nat_eq_self unsigned_less [of x, where 'a = nat, THEN less_le_trans])

lemma numd_unat:
  assumes "4 dvd unat (x :: u64)" "0 < unat x" "unat x < 2 ^ 32"
  shows "4 * (unat (ucast (drop_bit 2 x - 1) :: u32) + 1) = unat x"
proof -
  obtain k where k: "unat x = 4 * k" using assms(1) by (elim dvdE)
  have d: "unat (drop_bit 2 x) = k" unfolding unat_drop_bit_eq k by (simp add: drop_bit_eq_div)
  have "unat (drop_bit 2 x - 1) = k - 1"
  proof -
    have "1 \<le> drop_bit 2 x" using d k assms(2) by (simp add: word_le_nat_alt)
    then show ?thesis using d by (simp add: unat_sub)
  qed
  then show ?thesis using k assms(2,3) by (simp add: unat_u64_u32)
qed

lemma piece_bytes: "cmd_bytes (piece cmd start tot (y AND keep10) (z AND LOG_CDW11_LSI) rae offset xfer ptr) =
  4 * (unat (ucast (drop_bit 2 xfer - 1) :: u32) + 1)" (is "cmd_bytes ?c = _")
proof -
  define n where "n = (ucast (drop_bit 2 xfer - 1) :: u32)"
  have c: "cdw10 ?c = (y AND keep10) OR field_encode (if offset + xfer < tot \<or> rae then 1 else 0) 15 1 OR
      field_encode (ucast (ucast (n AND 0xffff) :: u16)) 16 0xffff"
    "cdw11 ?c = (z AND LOG_CDW11_LSI) OR field_encode (ucast (ucast (drop_bit 16 n) :: u16)) 0 0xffff"
    by (simp_all add: piece_def Let_def n_def)
  show ?thesis using numd_split [of n]
    unfolding cmd_bytes_def c cdw10_fields(1) cdw11_fields(1) unat_u16_u32 n_def by simp
qed

text \<open>A piece of aligned length asks for exactly its bytes.\<close>

lemma piece_fields:
  assumes "4 dvd unat xfer" "0 < unat xfer" "unat xfer < 2 ^ 32"
    "c = piece cmd start tot (y AND keep10) (z AND LOG_CDW11_LSI) rae offset xfer ptr"
  shows "cmd_bytes c = unat xfer" "unat (data_len c) = unat xfer" "cmd_lpo c = unat (start + offset)" "addr c = ptr"
    "cmd_rae c \<longleftrightarrow> offset + xfer < tot \<or> rae" "nsid c = nsid cmd" "cdw14 c = cdw14 cmd"
    "cdw10 c AND keep10 = y AND keep10" "cdw11 c AND LOG_CDW11_LSI = z AND LOG_CDW11_LSI"
proof -
  define n where "n = (ucast (drop_bit 2 xfer - 1) :: u32)"
  define r where "r = (if offset + xfer < tot \<or> rae then 1 else 0 :: u32)"
  have c: "cdw10 c = (y AND keep10) OR field_encode r 15 1 OR field_encode (ucast (ucast (n AND 0xffff) :: u16)) 16 0xffff"
    "cdw11 c = (z AND LOG_CDW11_LSI) OR field_encode (ucast (ucast (drop_bit 16 n) :: u16)) 0 0xffff"
    "cdw12 c = ucast ((start + offset) AND 0xffffffff)" "cdw13 c = ucast (drop_bit 32 (start + offset))"
    "data_len c = ucast xfer" "addr c = ptr" "nsid c = nsid cmd" "cdw14 c = cdw14 cmd"
    unfolding assms(4) piece_def Let_def n_def r_def by simp_all
  show "cmd_bytes c = unat xfer"
    unfolding assms(4) piece_bytes by (rule numd_unat [OF assms(1-3)])
  show "cmd_rae c \<longleftrightarrow> offset + xfer < tot \<or> rae" unfolding cmd_rae_def c cdw10_fields(2) r_def by simp
  show "cmd_lpo c = unat (start + offset)" unfolding cmd_lpo_def c by (rule lpo_split)
  show "unat (data_len c) = unat xfer" unfolding c by (rule unat_u64_u32 [OF assms(3)])
  show "addr c = ptr" "nsid c = nsid cmd" "cdw14 c = cdw14 cmd" by (fact c)+
  show "cdw10 c AND keep10 = y AND keep10" "cdw11 c AND LOG_CDW11_LSI = z AND LOG_CDW11_LSI"
    unfolding c cdw10_fields(3) cdw11_fields(2) by (rule refl)+
qed


text \<open>The commands \<open>cs\<close> read a log page from offset \<open>p\<close> to address \<open>a\<close> without a gap or an overlap; the
  number of bytes left of \<open>n\<close>.  Every command retains the event but the one that reads the end.\<close>

fun reads :: "bool \<Rightarrow> nat \<Rightarrow> nat \<Rightarrow> nat \<Rightarrow> passthru_cmd list \<Rightarrow> nat option" where
  "reads rae p a n [] = Some n"
| "reads rae p a n (c # cs) =
     (let b = cmd_bytes c
      in if cmd_lpo c = p \<and> unat (addr c) = a \<and> unat (data_len c) = b \<and> b \<le> n \<and> cmd_rae c = (b < n \<or> rae)
         then reads rae (p + b) (a + b) (n - b) cs else None)"

text \<open>Sending commands until one fails.\<close>

fun send :: "(nat \<Rightarrow> passthru_cmd \<Rightarrow> rc) \<Rightarrow> rc \<Rightarrow> nat \<Rightarrow> passthru_cmd list \<Rightarrow> rc \<times> passthru_cmd list" where
  "send submit wait k [] = (wait, [])"
| "send submit wait k (c # cs) =
     (if submit k c \<noteq> RcOk then (submit k c, [c]) else (let r = send submit wait (k + 1) cs in (fst r, c # snd r)))"

text \<open>A command for the same page as \<open>cmd\<close> of at most \<open>m\<close> bytes.\<close>

definition same_page :: "passthru_cmd \<Rightarrow> nat \<Rightarrow> passthru_cmd \<Rightarrow> bool" where
  "same_page cmd m c \<longleftrightarrow> cmd_bytes c \<le> m \<and> nsid c = nsid cmd \<and> cdw14 c = cdw14 cmd \<and> cdw10 c AND keep10 = cdw10 cmd AND keep10 \<and>
     cdw11 c AND LOG_CDW11_LSI = cdw11 cmd AND LOG_CDW11_LSI"

lemma xfer_unat:
  assumes "unat offset < unat (tot :: u64)" "4 dvd unat tot" "4 dvd unat offset" "4 dvd unat (xl :: u32)" "unat tot < 2 ^ 32" "0 < unat xl"
  defines "x \<equiv> (let x = tot - offset in if x > ucast xl then ucast xl else x)"
  shows "unat x = min (unat xl) (unat tot - unat offset)" "4 dvd unat x" "0 < unat x" "unat x < 2 ^ 32"
    "unat (offset + x) = unat offset + unat x" "unat (offset + x) \<le> unat tot" "unat x \<le> unat xl"
proof -
  have d: "unat (tot - offset) = unat tot - unat offset" using assms(1) by (simp add: unat_sub word_le_nat_alt)
  show x: "unat x = min (unat xl) (unat tot - unat offset)"
    unfolding x_def Let_def by (simp add: word_less_nat_alt d unat_u32_u64 min_def)
  show "4 dvd unat x" "0 < unat x" unfolding x using assms(1-4,6) by (auto simp: min_def)
  show "unat x \<le> unat xl" unfolding x by simp
  show "unat x < 2 ^ 32" unfolding x using assms(5) by (auto simp: min_def)
  show s: "unat (offset + x) = unat offset + unat x"
    by (rule unat_add_lem [THEN iffD1]) (use x assms(1,5) in \<open>simp\<close>)
  show "unat (offset + x) \<le> unat tot" unfolding s x using assms(1) by simp
qed

text \<open>One piece of a loop: the command, and where it ends.\<close>

lemma piece_reads:
  assumes "unat offset < unat tot" "4 dvd unat tot" "4 dvd unat offset" "4 dvd unat (xl :: u32)" "unat tot < 2 ^ 32" "0 < unat xl"
    "unat start + unat tot \<le> 2 ^ 64" "unat base + unat tot \<le> 2 ^ 64"
    "x = (let x = tot - offset in if x > ucast xl then ucast xl else x)"
    "c = piece cmd start tot (cdw10 cmd0 AND keep10) (cdw11 cmd0 AND LOG_CDW11_LSI) rae offset x (base + offset)"
    "nsid cmd = nsid cmd0" "cdw14 cmd = cdw14 cmd0"
  shows "reads rae (unat start + unat offset) (unat base + unat offset) (unat tot - unat offset) (c # cs) =
      reads rae (unat start + unat (offset + x)) (unat base + unat (offset + x)) (unat tot - unat (offset + x)) cs"
    "same_page cmd0 (unat xl) c" "nsid c = nsid cmd0" "cdw14 c = cdw14 cmd0"
proof -
  note x = xfer_unat [OF assms(1-6), folded assms(9)]
  note f = piece_fields [OF x(2-4) assms(10)]
  have s: "unat (start + offset) = unat start + unat offset" "unat (base + offset) = unat base + unat offset"
    by (rule unat_add_lem [THEN iffD1], use assms(1,7,8) in simp)+
  have r: "offset + x < tot \<longleftrightarrow> unat x < unat tot - unat offset" using x(5,6) by (auto simp: word_less_nat_alt)
  show "reads rae (unat start + unat offset) (unat base + unat offset) (unat tot - unat offset) (c # cs) =
      reads rae (unat start + unat (offset + x)) (unat base + unat (offset + x)) (unat tot - unat (offset + x)) cs"
    using x(5,6) by (simp add: f s r Let_def add.assoc) linarith
  show "same_page cmd0 (unat xl) c" using x(7) by (simp add: same_page_def f assms(11,12))
  show "nsid c = nsid cmd0" "cdw14 c = cdw14 cmd0" using f assms(11,12) by simp_all
qed

lemma pieces_step: "0 < m \<Longrightarrow> (n + m + m - 1) div m = Suc ((n + m - 1) div (m :: nat))"
  using div_add_self2 [of m "n + m - 1"] by simp

lemma pieces_last: "0 < n \<Longrightarrow> n \<le> m \<Longrightarrow> (n + m - 1) div m = Suc 0" for n m :: nat
  by (rule div_nat_eqI) auto

lemma get_log_loop_sends:
  assumes "unat offset < unat tot" "4 dvd unat tot" "4 dvd unat offset" "4 dvd unat (xl :: u32)" "unat tot < 2 ^ 32" "0 < unat xl"
    "unat start + unat tot \<le> 2 ^ 64" "unat base + unat tot \<le> 2 ^ 64" "nsid cmd = nsid cmd0" "cdw14 cmd = cdw14 cmd0"
  shows "\<exists>cs. reads rae (unat start + unat offset) (unat base + unat offset) (unat tot - unat offset) cs = Some 0 \<and>
    list_all (same_page cmd0 (unat xl)) cs \<and> length cs = (unat tot - unat offset + unat xl - 1) div unat xl \<and>
    (\<forall>submit wait sent. get_log_loop False submit wait start tot xl (cdw10 cmd0 AND keep10) (cdw11 cmd0 AND LOG_CDW11_LSI) rae
       offset (base + offset) cmd sent = (let r = send submit wait (length sent) cs in Some (fst r, sent @ snd r)))"
  using assms
proof (induction "unat tot - unat offset" arbitrary: offset cmd rule: less_induct)
  case less
  define x where "x = (let x = tot - offset in if x > ucast xl then ucast xl else x)"
  define c where "c = piece cmd start tot (cdw10 cmd0 AND keep10) (cdw11 cmd0 AND LOG_CDW11_LSI) rae offset x (base + offset)"
  note x = xfer_unat [OF less.prems(1-6), folded x_def]
  note p = piece_reads [OF less.prems(1-8) x_def c_def less.prems(9,10)]
  have step: "get_log_loop False submit wait start tot xl (cdw10 cmd0 AND keep10) (cdw11 cmd0 AND LOG_CDW11_LSI) rae offset (base + offset) cmd sent =
      (if submit (length sent) c \<noteq> RcOk then Some (submit (length sent) c, sent @ [c])
       else if offset + x < tot then get_log_loop False submit wait start tot xl (cdw10 cmd0 AND keep10) (cdw11 cmd0 AND LOG_CDW11_LSI) rae (offset + x) (base + offset + x) c (sent @ [c])
       else Some (wait, sent @ [c]))" for submit wait sent
    by (subst get_log_loop.simps) (simp only: x_def c_def Let_def not_False_eq_True if_True refl)
  show ?case
  proof (cases "offset + x < tot")
    case True
    then have "unat (offset + x) < unat tot" by (simp add: word_less_nat_alt)
    moreover have "4 dvd unat (offset + x)" unfolding x(5) using less.prems(3) x(2) by simp
    moreover have "unat tot - unat (offset + x) < unat tot - unat offset" using x(3,5) less.prems(1) by linarith
    ultimately obtain cs where cs: "reads rae (unat start + unat (offset + x)) (unat base + unat (offset + x)) (unat tot - unat (offset + x)) cs = Some 0"
      "list_all (same_page cmd0 (unat xl)) cs" "length cs = (unat tot - unat (offset + x) + unat xl - 1) div unat xl"
      "\<And>submit wait sent. get_log_loop False submit wait start tot xl (cdw10 cmd0 AND keep10) (cdw11 cmd0 AND LOG_CDW11_LSI) rae
         (offset + x) (base + (offset + x)) c sent = (let r = send submit wait (length sent) cs in Some (fst r, sent @ snd r))"
      using less.hyps [of "offset + x" c] less.prems p(3,4) by blast
    have "get_log_loop False submit wait start tot xl (cdw10 cmd0 AND keep10) (cdw11 cmd0 AND LOG_CDW11_LSI) rae offset (base + offset) cmd sent =
        (let r = send submit wait (length sent) (c # cs) in Some (fst r, sent @ snd r))" for submit wait sent
      unfolding step using True by (simp add: cs(4) add.assoc Let_def)
    moreover have "length (c # cs) = (unat tot - unat offset + unat xl - 1) div unat xl"
    proof -
      have "unat x = unat xl" "unat tot - unat offset = unat tot - unat (offset + x) + unat xl"
        using True x(1,5) by (auto simp: word_less_nat_alt min_def split: if_splits)
      then show ?thesis using cs(3) pieces_step [OF less.prems(6)] by simp
    qed
    ultimately show ?thesis using cs(1,2) p(1) [of cs] p(2) by (intro exI [of _ "c # cs"]) (simp del: reads.simps)
  next
    case False
    then have "unat (offset + x) = unat tot" using x(6) by (simp add: word_less_nat_alt)
    then have "reads rae (unat start + unat offset) (unat base + unat offset) (unat tot - unat offset) [c] = Some 0"
      using p(1) [of "[]"] by simp
    moreover have "get_log_loop False submit wait start tot xl (cdw10 cmd0 AND keep10) (cdw11 cmd0 AND LOG_CDW11_LSI) rae offset (base + offset) cmd sent =
        (let r = send submit wait (length sent) [c] in Some (fst r, sent @ snd r))" for submit wait sent
      unfolding step using False by (simp add: Let_def)
    moreover have "length [c] = (unat tot - unat offset + unat xl - 1) div unat xl"
      using x(5,7) \<open>unat (offset + x) = unat tot\<close> less.prems(1) by (subst pieces_last) auto
    ultimately show ?thesis using p(2) by (intro exI [of _ "[c]"]) (simp del: reads.simps)
  qed
qed


lemma loop_progress:
  assumes "offset \<le> (tot :: u64)" "unat tot < 2 ^ 32" "0 < xl" "0 < (y :: u64)" "unat y < 2 ^ 32" "offset + x < tot"
    "x = (if \<not> force then (let x = tot - offset in if x > ucast (xl :: u32) then ucast xl else x) else y)"
  shows "unat tot - unat (offset + x) < unat tot - unat offset"
proof -
  have "unat (tot - offset) = unat tot - unat offset" using assms(1) by (simp add: unat_sub)
  moreover have "0 < unat xl" using assms(3) by (simp add: word_less_nat_alt)
  moreover have "offset \<noteq> tot \<or> force \<or> x = 0" using assms(7) by (auto simp: Let_def word_less_nat_alt)
  moreover have "unat offset \<le> unat tot" using assms(1) by (simp add: word_le_nat_alt)
  ultimately have x: "unat x < 2 ^ 32" "0 < unat x"
    using assms(2,4,5,6,7) unsigned_less [of xl, where 'a = nat]
    by (auto simp: Let_def word_less_nat_alt unat_u32_u64 split: if_splits)
  have "unat (offset + x) = unat offset + unat x"
    by (rule unat_add_lem [THEN iffD1]) (use x assms(1,2) in \<open>simp add: word_le_nat_alt\<close>)
  then show ?thesis using x assms(6) by (simp add: word_less_nat_alt)
qed

lemma get_log_loop_returns:
  assumes "offset \<le> tot" "unat tot < 2 ^ 32" "0 < xl"
  shows "\<exists>r. get_log_loop force submit wait start tot xl c10 c11 rae offset ptr cmd sent = Some r"
  using assms
proof (induction "unat tot - unat offset" arbitrary: offset ptr cmd sent rule: less_induct)
  case less
  define x where "x = (if \<not> force then (let x = tot - offset in if x > ucast xl then ucast xl else x) else ucast NVME_LOG_PAGE_PDU_SIZE)"
  have "unat tot - unat (offset + x) < unat tot - unat offset" if "offset + x < tot"
    by (rule loop_progress [OF less.prems _ _ that x_def]) (simp_all add: NVME_LOG_PAGE_PDU_SIZE_def)
  then have "\<exists>r. get_log_loop force submit wait start tot xl c10 c11 rae (offset + x) p c s = Some r" if "offset + x < tot" for p c s
    using less.hyps [of "offset + x"] less.prems that by (simp add: less_imp_le)
  then show ?case by (subst get_log_loop.simps) (simp only: Let_def x_def [unfolded Let_def, symmetric] split: if_split, blast)
qed

lemma shrink_unat: "unat ((xl div 2) AND NOT (NVME_LOG_PAGE_PDU_SIZE - 1)) = unat (xl :: u32) div 2 div 4096 * 4096"
proof -
  have m: "NVME_LOG_PAGE_PDU_SIZE - 1 = mask 12" by (simp add: NVME_LOG_PAGE_PDU_SIZE_def mask_eq_exp_minus_1)
  have "x AND NOT (mask 12) = push_bit 12 (drop_bit 12 x)" for x :: u32 by (auto simp: bit_eq_iff bit_simps)
  then have "(x AND NOT (mask 12)) + take_bit 12 x = x" for x :: u32 by (simp only: bits_ident)
  then have "x AND NOT (mask 12) = x - take_bit 12 x" for x :: u32 by (metis add_diff_cancel_right')
  moreover have "take_bit 12 x \<le> x" for x :: u32 by (simp only: word_le_nat_alt unsigned_take_bit_eq) (simp add: take_bit_eq_mod)
  ultimately have "unat (x AND NOT (mask 12)) = unat x - unat (take_bit 12 x)" for x :: u32 by (simp only: unat_sub)
  moreover have "unat x - unat (take_bit 12 x) = unat x div 4096 * 4096" for x :: u32
    by (simp only: unsigned_take_bit_eq) (simp add: take_bit_eq_mod minus_mod_eq_div_mult)
  moreover have "unat (xl div 2) = unat xl div 2" by (simp add: unat_div)
  ultimately show ?thesis unfolding m by simp
qed


abbreviation "shrunk xl \<equiv> (xl div 2) AND NOT (NVME_LOG_PAGE_PDU_SIZE - 1)"

lemma same_page_mono: "same_page cmd m c \<Longrightarrow> m \<le> n \<Longrightarrow> same_page cmd n c"
  by (simp add: same_page_def)

text \<open>Commands of at most 4096 bytes succeed, and no larger one fails in a way that is final.\<close>

definition small_ok :: "(nat \<Rightarrow> passthru_cmd \<Rightarrow> rc) \<Rightarrow> bool" where
  "small_ok submit \<longleftrightarrow> (\<forall>k c. submit k c = RcOk \<or> (cmd_bytes c > 4096 \<and> may_shrink (submit k c)))"

text \<open>What the loop with the shrinking transfer length has done when it returns \<open>ret\<close>.\<close>

definition dynamic_result ::
  "(nat \<Rightarrow> passthru_cmd \<Rightarrow> rc) \<Rightarrow> bool \<Rightarrow> nat \<Rightarrow> nat \<Rightarrow> nat \<Rightarrow> passthru_cmd \<Rightarrow> nat \<Rightarrow> rc \<Rightarrow> passthru_cmd list \<Rightarrow> bool" where
  "dynamic_result submit rae p a n cmd m ret cs \<longleftrightarrow>
     list_all (same_page cmd m) cs \<and> (\<exists>rest. reads rae p a n cs = Some rest \<and> (rest = 0 \<longleftrightarrow> ret = RcOk)) \<and>
     (ret = RcOk \<or> (\<exists>k c. ret = submit k c)) \<and> (4096 dvd m \<longrightarrow> small_ok submit \<longrightarrow> ret = RcOk)"

lemma shrink_stops: "shrunk xl < NVME_LOG_PAGE_PDU_SIZE \<Longrightarrow> 4096 dvd unat xl \<Longrightarrow> unat xl \<le> 4096"
proof (elim dvdE)
  fix k assume "shrunk xl < NVME_LOG_PAGE_PDU_SIZE" "unat xl = 4096 * k"
  then show "unat xl \<le> 4096"
    unfolding word_less_nat_alt shrink_unat by (simp add: NVME_LOG_PAGE_PDU_SIZE_def)
qed

lemma shrink_bounds:
  assumes "\<not> shrunk xl < NVME_LOG_PAGE_PDU_SIZE" "0 < unat xl"
  shows "0 < unat (shrunk xl)" "4 dvd unat (shrunk xl)" "4096 dvd unat (shrunk xl)" "unat (shrunk xl) < unat xl"
proof -
  show "0 < unat (shrunk xl)" using assms(1) unfolding word_less_nat_alt by (simp add: NVME_LOG_PAGE_PDU_SIZE_def)
  show d: "4096 dvd unat (shrunk xl)" unfolding shrink_unat by simp
  show "4 dvd unat (shrunk xl)" by (rule dvd_trans [OF _ d]) simp
  have "unat xl div 2 div 4096 * 4096 \<le> unat xl div 2" by (rule div_times_less_eq_dividend)
  also have "\<dots> < unat xl" using assms(2) by simp
  finally show "unat (shrunk xl) < unat xl" unfolding shrink_unat .
qed

lemma dynamic_result_failed:
  assumes "0 < n" "submit k c \<noteq> RcOk" "may_shrink (submit k c) \<Longrightarrow> 4096 dvd m \<Longrightarrow> cmd_bytes c \<le> 4096"
  shows "dynamic_result submit rae p a n cmd m (submit k c) []"
proof -
  have "\<not> small_ok submit" if "4096 dvd m" using assms(2,3) that leD unfolding small_ok_def by blast
  then show ?thesis using assms(1,2) by (auto simp: dynamic_result_def)
qed

lemma dynamic_result_shrink:
  "dynamic_result submit rae p a n cmd m ret cs \<Longrightarrow> 4096 dvd m \<Longrightarrow> m \<le> m' \<Longrightarrow> dynamic_result submit rae p a n cmd m' ret cs"
  using same_page_mono [of cmd m] by (auto simp: dynamic_result_def list_all_iff)

lemma dynamic_loop_result:
  assumes "unat offset < unat tot" "4 dvd unat tot" "4 dvd unat offset" "4 dvd unat (xl :: u32)" "unat tot < 2 ^ 32" "0 < unat xl"
    "unat start + unat tot \<le> 2 ^ 64" "unat base + unat tot \<le> 2 ^ 64" "nsid cmd = nsid cmd0" "cdw14 cmd = cdw14 cmd0"
  shows "\<exists>ret cs. dynamic_loop submit start tot (cdw10 cmd0 AND keep10) (cdw11 cmd0 AND LOG_CDW11_LSI) rae xl offset (base + offset)
       cmd k ds = Some (ret, ds @ cs) \<and>
     dynamic_result submit rae (unat start + unat offset) (unat base + unat offset) (unat tot - unat offset) cmd0 (unat xl) ret cs"
    (is "\<exists>ret cs. ?L xl offset (base + offset) cmd k ds = Some (ret, ds @ cs) \<and> ?R xl offset ret cs")
  using assms
proof (induction "unat tot - unat offset + unat xl" arbitrary: offset xl cmd k ds rule: less_induct)
  case less
  define x where "x = (let x = tot - offset in if x > ucast xl then ucast xl else x)"
  define c where "c = piece cmd start tot (cdw10 cmd0 AND keep10) (cdw11 cmd0 AND LOG_CDW11_LSI) rae offset x (base + offset)"
  note x = xfer_unat [OF less.prems(1-6), folded x_def]
  note p = piece_reads [OF less.prems(1-8) x_def c_def less.prems(9,10)]
  have step: "?L xl offset (base + offset) cmd k ds =
      (if may_shrink (submit k c) then
         (if shrunk xl < NVME_LOG_PAGE_PDU_SIZE then Some (submit k c, ds)
          else if offset < tot then ?L (shrunk xl) offset (base + offset) c (k + 1) ds else Some (RcOk, ds))
       else if submit k c \<noteq> RcOk then Some (submit k c, ds)
       else if offset + x < tot then ?L xl (offset + x) (base + offset + x) c (k + 1) (ds @ [c])
       else Some (RcOk, ds @ [c]))"
    by (subst dynamic_loop.simps) (simp only: x_def c_def Let_def refl)
  have "offset < tot" using less.prems(1) by (simp add: word_less_nat_alt)
  consider "may_shrink (submit k c)" "shrunk xl < NVME_LOG_PAGE_PDU_SIZE" | "may_shrink (submit k c)" "\<not> shrunk xl < NVME_LOG_PAGE_PDU_SIZE"
    | "\<not> may_shrink (submit k c)" "submit k c \<noteq> RcOk" | "submit k c = RcOk" "offset + x < tot" | "submit k c = RcOk" "\<not> offset + x < tot"
    by blast
  then show ?case
  proof cases
    case 1
    have "cmd_bytes c \<le> 4096" if "4096 dvd unat xl"
      using shrink_stops [OF 1(2) that] p(2) by (simp add: same_page_def)
    then have "?R xl offset (submit k c) []"
      using 1(1) less.prems(1) by (intro dynamic_result_failed) (auto simp: may_shrink_def)
    then show ?thesis using 1 step by auto
  next
    case 2
    note u = shrink_bounds [OF 2(2) less.prems(6)]
    have d: "unat tot - unat offset + unat (shrunk xl) < unat tot - unat offset + unat xl" using u(4) by linarith
    obtain ret cs where r: "?L (shrunk xl) offset (base + offset) c (k + 1) ds = Some (ret, ds @ cs)" "?R (shrunk xl) offset ret cs"
      using less.hyps [OF d less.prems(1-3) u(2) less.prems(5) u(1) less.prems(7,8) p(3,4)] by blast
    have "?R xl offset ret cs" by (rule dynamic_result_shrink [OF r(2) u(3) less_imp_le [OF u(4)]])
    then show ?thesis using r(1) 2 step \<open>offset < tot\<close> by auto
  next
    case 3
    then have "?R xl offset (submit k c) []" using less.prems(1) by (intro dynamic_result_failed) auto
    then show ?thesis using 3 step by auto
  next
    case 4
    have m: "\<not> may_shrink (submit k c)" using 4(1) by (simp add: may_shrink_def)
    have u: "unat (offset + x) < unat tot" "4 dvd unat (offset + x)" "unat tot - unat (offset + x) < unat tot - unat offset"
      using 4(2) x(2,3,5) less.prems(1,3) by (simp_all add: word_less_nat_alt)
    have d: "unat tot - unat (offset + x) + unat xl < unat tot - unat offset + unat xl" using u(3) by linarith
    obtain ret cs where r: "?L xl (offset + x) (base + (offset + x)) c (k + 1) (ds @ [c]) = Some (ret, (ds @ [c]) @ cs)" "?R xl (offset + x) ret cs"
      using less.hyps [OF d u(1) less.prems(2) u(2) less.prems(4-8) p(3,4)] by blast
    have "?R xl offset ret (c # cs)" using r(2) p(1) [of cs] p(2) by (simp add: dynamic_result_def del: reads.simps)
    then show ?thesis using r(1) 4 m step by (intro exI [of _ ret] exI [of _ "c # cs"]) (simp add: add.assoc)
  next
    case 5
    have m: "\<not> may_shrink (submit k c)" using 5(1) by (simp add: may_shrink_def)
    have "unat (offset + x) = unat tot" using 5(2) x(6) by (simp add: word_less_nat_alt)
    then have "?R xl offset RcOk [c]" using p(1) [of "[]"] p(2) by (simp add: dynamic_result_def del: reads.simps(2))
    then show ?thesis using 5 m step by (intro exI [of _ RcOk] exI [of _ "[c]"]) simp
  qed
qed


lemma dynamic_loop_returns:
  assumes "offset \<le> tot" "unat tot < 2 ^ 32" "0 < xl"
  shows "\<exists>r. dynamic_loop submit start tot c10 c11 rae xl offset ptr cmd k ds = Some r"
  using assms
proof (induction "unat tot - unat offset + unat xl" arbitrary: offset xl ptr cmd k ds rule: less_induct)
  case less
  define x where "x = (let x = tot - offset in if x > ucast xl then ucast xl else x)"
  have x: "x = (if \<not> False then (let x = tot - offset in if x > ucast xl then ucast xl else x) else 1)" by (simp add: x_def)
  have go: "\<exists>r. dynamic_loop submit start tot c10 c11 rae xl (offset + x) p c j s = Some r" if "offset + x < tot" for p c j s
    using less.hyps [of "offset + x" xl] loop_progress [OF less.prems _ _ that x] less.prems that by (simp add: less_imp_le)
  have "0 < unat xl" using less.prems(3) by (simp add: word_less_nat_alt)
  then have shrink: "\<exists>r. dynamic_loop submit start tot c10 c11 rae (shrunk xl) offset p c j s = Some r"
    if "\<not> shrunk xl < NVME_LOG_PAGE_PDU_SIZE" for p c j s
    using less.hyps [OF _ less.prems(1,2), of "shrunk xl"] shrink_bounds [OF that] by (simp add: word_less_nat_alt)
  show ?case by (subst dynamic_loop.simps) (simp only: Let_def x_def [unfolded Let_def, symmetric] split: if_split, use go shrink in blast)
qed

lemma start_lpo: "unat (push_bit 32 (ucast (cdw13 cmd)) OR ucast (cdw12 cmd) :: u64) = cmd_lpo cmd"
proof -
  let ?s = "push_bit 32 (ucast (cdw13 cmd)) OR ucast (cdw12 cmd) :: u64"
  have b: "n < 32" if "bit (w :: u32) n" for w n using bit_imp_le_length [OF that] by simp
  have "ucast (?s AND 0xffffffff) = cdw12 cmd" "ucast (drop_bit 32 ?s) = cdw13 cmd"
    unfolding masks by (auto simp: bit_eq_iff bit_simps dest: b)
  then show ?thesis using lpo_split [of ?s] by (simp only: cmd_lpo_def)
qed

lemma send_ok: "send (\<lambda>_ _. RcOk) w k cs = (w, cs)"
  by (induction cs arbitrary: k) simp_all

lemma get_log_sends:
  assumes "4 dvd unat (data_len cmd)" "0 < unat (data_len cmd)" "4 dvd unat xfer_len" "4 \<le> xfer_len"
    "cmd_lpo cmd + unat (data_len cmd) \<le> 2 ^ 64" "unat (addr cmd) + unat (data_len cmd) \<le> 2 ^ 64"
  shows "\<exists>cs. reads rae (cmd_lpo cmd) (unat (addr cmd)) (unat (data_len cmd)) cs = Some 0 \<and>
    list_all (same_page cmd (unat xfer_len)) cs \<and> length cs = (unat (data_len cmd) + unat xfer_len - 1) div unat xfer_len \<and>
    (\<forall>submit wait. libnvme_get_log False submit wait cmd rae xfer_len = Some (send submit wait 0 cs))"
proof -
  let ?start = "push_bit 32 (ucast (cdw13 cmd)) OR ucast (cdw12 cmd) :: u64" and ?tot = "ucast (data_len cmd) :: u64"
  have xl: "\<not> xfer_len < 4" "0 < unat xfer_len" using assms(4) by (simp_all add: word_le_nat_alt word_less_nat_alt)
  have "\<exists>cs. reads rae (unat ?start + unat (0 :: u64)) (unat (addr cmd) + unat (0 :: u64)) (unat ?tot - unat (0 :: u64)) cs = Some 0 \<and>
    list_all (same_page cmd (unat xfer_len)) cs \<and> length cs = (unat ?tot - unat (0 :: u64) + unat xfer_len - 1) div unat xfer_len \<and>
    (\<forall>submit wait sent. get_log_loop False submit wait ?start ?tot xfer_len (cdw10 cmd AND keep10) (cdw11 cmd AND LOG_CDW11_LSI) rae
       0 (addr cmd + 0) cmd sent = (let r = send submit wait (length sent) cs in Some (fst r, sent @ snd r)))"
    by (rule get_log_loop_sends) (use assms xl in \<open>simp_all add: unat_u32_u64 start_lpo unsigned_less [THEN less_le_trans]\<close>)
  then obtain cs where "reads rae (cmd_lpo cmd) (unat (addr cmd)) (unat (data_len cmd)) cs = Some 0"
    "list_all (same_page cmd (unat xfer_len)) cs" "length cs = (unat (data_len cmd) + unat xfer_len - 1) div unat xfer_len"
    "\<And>submit wait sent. get_log_loop False submit wait ?start ?tot xfer_len (cdw10 cmd AND keep10) (cdw11 cmd AND LOG_CDW11_LSI) rae
       0 (addr cmd) cmd sent = (let r = send submit wait (length sent) cs in Some (fst r, sent @ snd r))"
    by (auto simp: unat_u32_u64 start_lpo)
  then show ?thesis using xl(1) by (intro exI [of _ cs]) (simp add: libnvme_get_log_def Let_def)
qed

text \<open>With \<open>force_4k\<close> and a length that is a multiple of 4096 the pieces are those of a transfer length of 4096.\<close>

lemma force_4k_loop:
  assumes "4096 dvd unat tot - unat offset" "offset < tot" "unat tot < 2 ^ 32"
  shows "get_log_loop True submit wait start tot xl c10 c11 rae offset ptr cmd sent =
    get_log_loop False submit wait start tot NVME_LOG_PAGE_PDU_SIZE c10 c11 rae offset ptr cmd sent"
  using assms
proof (induction "unat tot - unat offset" arbitrary: offset ptr cmd sent rule: less_induct)
  case less
  let ?x = "ucast NVME_LOG_PAGE_PDU_SIZE :: u64"
  have x: "unat ?x = 4096" by (simp add: NVME_LOG_PAGE_PDU_SIZE_def)
  have o: "unat offset < unat tot" using less.prems(2) by (simp add: word_less_nat_alt)
  obtain q where q: "unat tot - unat offset = 4096 * q" using less.prems(1) by (elim dvdE)
  have d: "unat (tot - offset) = 4096 * q" using q o by (simp add: unat_sub word_le_nat_alt)
  have "0 < q" using q o by (cases q) auto
  then have same: "(if tot - offset > ?x then ?x else tot - offset) = ?x"
    using d x by (auto simp: word_less_nat_alt word_unat_eq_iff)
  have n: "unat (offset + ?x) = unat offset + 4096"
    using x less.prems(3) q o \<open>0 < q\<close> by (simp add: unat_word_ariths)
  have "unat tot - unat (offset + ?x) = 4096 * (q - 1)" using n q by simp
  then have "4096 dvd unat tot - unat (offset + ?x)" by (simp only: dvd_triv_left)
  then have ih: "get_log_loop True submit wait start tot xl c10 c11 rae (offset + ?x) (ptr + ?x) c s =
      get_log_loop False submit wait start tot NVME_LOG_PAGE_PDU_SIZE c10 c11 rae (offset + ?x) (ptr + ?x) c s"
    if "offset + ?x < tot" for c s
    using less.hyps [of "offset + ?x"] that n o less.prems(3) by simp
  show ?case
    unfolding get_log_loop.simps [of True submit wait start tot xl c10 c11 rae offset ptr cmd sent]
      get_log_loop.simps [of False submit wait start tot NVME_LOG_PAGE_PDU_SIZE c10 c11 rae offset ptr cmd sent]
    by (simp only: Let_def same not_True_eq_False not_False_eq_True if_True if_False ih cong: if_cong)
qed

lemma force_4k_same:
  assumes "force_4k \<Longrightarrow> 4096 dvd unat (data_len cmd)" "0 < unat (data_len cmd)" "4 \<le> xfer_len" force_4k
  shows "libnvme_get_log force_4k submit wait cmd rae xfer_len = libnvme_get_log False submit wait cmd rae NVME_LOG_PAGE_PDU_SIZE"
  using force_4k_loop [of "ucast (data_len cmd)" 0] assms
  by (simp add: libnvme_get_log_def Let_def unat_u32_u64 word_less_nat_alt word_le_nat_alt NVME_LOG_PAGE_PDU_SIZE_def
    unsigned_less [THEN less_le_trans])

section \<open>Properties\<close>

text \<open>C5: A page is read exactly once.  If the length and the transfer length are multiples of four and the
  range does not wrap, and with the flag \<open>force_4k\<close> the length is even a multiple of 4096, there are
  commands for the page of \<open>cmd\<close>, of at most the transfer length each - 4096 with \<open>force_4k\<close> - and as few as
  possible, which together read the range from the offset of \<open>cmd\<close> to its address without a gap or an overlap and
  retain the event until the last; whatever the controller answers, \<open>libnvme_get_log\<close> sends them in
  order until one fails and returns its error, or the result of the final wait.\<close>

theorem get_log_exact:
  assumes "4 dvd unat (data_len cmd)" "0 < unat (data_len cmd)" "4 dvd unat xfer_len" "4 \<le> xfer_len"
    "cmd_lpo cmd + unat (data_len cmd) \<le> 2 ^ 64" "unat (addr cmd) + unat (data_len cmd) \<le> 2 ^ 64"
    "force_4k \<Longrightarrow> 4096 dvd unat (data_len cmd)" "m = (if force_4k then 4096 else unat xfer_len)"
  shows "\<exists>cs. reads rae (cmd_lpo cmd) (unat (addr cmd)) (unat (data_len cmd)) cs = Some 0 \<and>
    list_all (same_page cmd m) cs \<and> length cs = (unat (data_len cmd) + m - 1) div m \<and>
    (\<forall>submit wait. libnvme_get_log force_4k submit wait cmd rae xfer_len = Some (send submit wait 0 cs))"
proof (cases force_4k)
  case True
  then have "m = unat NVME_LOG_PAGE_PDU_SIZE" using assms(8) by (simp add: NVME_LOG_PAGE_PDU_SIZE_def)
  then show ?thesis
    using get_log_sends [OF assms(1,2) _ _ assms(5,6), of NVME_LOG_PAGE_PDU_SIZE rae] force_4k_same [OF assms(7) assms(2,4)] True
    by (simp add: NVME_LOG_PAGE_PDU_SIZE_def)
next
  case False
  then show ?thesis using get_log_sends [OF assms(1-6)] assms(8) by simp
qed

text \<open>C14: Shrinking transfers.  Under the same conditions, whatever the controller answers,
  \<open>libnvme_get_log_dynamic_chunk\<close> returns; the commands that succeeded read the range from its
  start without a gap or an overlap, and reach its end exactly when success is returned.  If
  commands of 4096 bytes succeed and the transfer length is a multiple of 4096, a controller that refuses
  larger ones does not keep it from reading the whole page.\<close>

theorem get_log_dynamic_exact:
  assumes "4 dvd unat (data_len cmd)" "0 < unat (data_len cmd)" "4 dvd unat xfer_len" "4 \<le> xfer_len"
    "cmd_lpo cmd + unat (data_len cmd) \<le> 2 ^ 64" "unat (addr cmd) + unat (data_len cmd) \<le> 2 ^ 64"
  shows "\<exists>ret cs rest. libnvme_get_log_dynamic_chunk force_4k submit cmd rae xfer_len = Some (ret, cs) \<and>
    list_all (same_page cmd (if force_4k then 4096 else unat xfer_len)) cs \<and>
    reads rae (cmd_lpo cmd) (unat (addr cmd)) (unat (data_len cmd)) cs = Some rest \<and> (rest = 0 \<longleftrightarrow> ret = RcOk) \<and>
    (ret = RcOk \<or> (\<exists>k c. ret = submit k c)) \<and> (force_4k \<or> 4096 dvd unat xfer_len \<longrightarrow> small_ok submit \<longrightarrow> ret = RcOk)"
proof -
  let ?start = "push_bit 32 (ucast (cdw13 cmd)) OR ucast (cdw12 cmd) :: u64" and ?tot = "ucast (data_len cmd) :: u64"
  define xl where "xl = (if force_4k then NVME_LOG_PAGE_PDU_SIZE else xfer_len)"
  have xl: "\<not> xfer_len < 4" "0 < unat xl" "4 dvd unat xl" "unat xl = (if force_4k then 4096 else unat xfer_len)"
    using assms(3,4) by (simp_all add: xl_def word_le_nat_alt word_less_nat_alt NVME_LOG_PAGE_PDU_SIZE_def)
  have "\<exists>ret cs. dynamic_loop submit ?start ?tot (cdw10 cmd AND keep10) (cdw11 cmd AND LOG_CDW11_LSI) rae xl 0 (addr cmd + 0)
       cmd 0 [] = Some (ret, [] @ cs) \<and>
     dynamic_result submit rae (unat ?start + unat (0 :: u64)) (unat (addr cmd) + unat (0 :: u64)) (unat ?tot - unat (0 :: u64)) cmd (unat xl) ret cs"
    by (rule dynamic_loop_result) (use assms xl in \<open>simp_all add: unat_u32_u64 start_lpo unsigned_less [THEN less_le_trans]\<close>)
  then obtain ret cs where "libnvme_get_log_dynamic_chunk force_4k submit cmd rae xfer_len = Some (ret, cs)"
    and r: "dynamic_result submit rae (cmd_lpo cmd) (unat (addr cmd)) (unat (data_len cmd)) cmd (unat xl) ret cs"
    using xl(1) by (auto simp: libnvme_get_log_dynamic_chunk_def Let_def xl_def unat_u32_u64 start_lpo)
  moreover obtain rest where "reads rae (cmd_lpo cmd) (unat (addr cmd)) (unat (data_len cmd)) cs = Some rest" "rest = 0 \<longleftrightarrow> ret = RcOk"
    using r unfolding dynamic_result_def by blast
  moreover have "4096 dvd unat xl \<longleftrightarrow> force_4k \<or> 4096 dvd unat xfer_len" unfolding xl(4) by simp
  ultimately show ?thesis using r unfolding dynamic_result_def xl(4) by blast
qed

text \<open>C40: Both loops return for every command and every controller, also with lengths that are not multiples
  of four.\<close>

theorem get_log_returns:
  "(\<exists>r. libnvme_get_log force_4k submit wait cmd rae xfer_len = Some r) \<and>
   (\<exists>r. libnvme_get_log_dynamic_chunk force_4k submit cmd rae xfer_len = Some r)"
proof -
  have "0 < (if force_4k then NVME_LOG_PAGE_PDU_SIZE else xfer_len)" if "\<not> xfer_len < 4"
    using that by (auto simp: NVME_LOG_PAGE_PDU_SIZE_def word_less_nat_alt)
  moreover have "unat (ucast (data_len cmd) :: u64) < 2 ^ 32" using unsigned_less [of "data_len cmd", where 'a = nat] by (simp add: unat_u32_u64)
  ultimately show ?thesis
    using get_log_loop_returns [of 0 "ucast (data_len cmd)"] dynamic_loop_returns [of 0 "ucast (data_len cmd)"]
    by (auto simp: libnvme_get_log_def libnvme_get_log_dynamic_chunk_def Let_def simp del: split_paired_Ex)
qed


section \<open>Witnesses and lengths that do not fit\<close>

definition demo_cmd :: "u32 \<Rightarrow> passthru_cmd" where
  "demo_cmd n = \<lparr>opcode = nvme_admin_get_log_page, nsid = 1, addr = 0x10000, data_len = n, cdw10 = 2, cdw11 = 0, cdw12 = 512, cdw13 = 0, cdw14 = 0\<rparr>"

lemma demo_cmd_simps: "data_len (demo_cmd n) = n" "addr (demo_cmd n) = 0x10000" "cmd_lpo (demo_cmd n) = 512"
  by (simp_all add: demo_cmd_def cmd_lpo_def)

theorem get_log_exact_witness:
  "(\<exists>cs. reads False 512 0x10000 10000 cs = Some 0 \<and> libnvme_get_log False (\<lambda>_ _. RcOk) RcOk (demo_cmd 10000) False 4096 = Some (RcOk, cs)) \<and>
   (\<exists>cs. reads True 512 0x10000 12288 cs = Some 0 \<and> libnvme_get_log True (\<lambda>_ _. RcOk) RcOk (demo_cmd 12288) True 512 = Some (RcOk, cs))"
  using get_log_exact [of "demo_cmd 10000" 4096 False 4096 False] get_log_exact [of "demo_cmd 12288" 512 True 4096 True]
  by (auto simp: demo_cmd_simps send_ok)

text \<open>A controller that refuses more than 8192 bytes at once.\<close>

definition refuse_large :: "nat \<Rightarrow> passthru_cmd \<Rightarrow> rc" where
  "refuse_large k c = (if cmd_bytes c > 8192 then RcStatus 2 else RcOk)"

lemma refuse_large_small_ok: "small_ok refuse_large"
  by (simp add: small_ok_def refuse_large_def may_shrink_def nvme_status_code_type_def NVME_SCT_CMD_SPECIFIC_def)

theorem get_log_dynamic_exact_witness:
  "\<exists>cs. reads False 512 0x10000 100000 cs = Some 0 \<and>
     libnvme_get_log_dynamic_chunk False refuse_large (demo_cmd 100000) False 65536 = Some (RcOk, cs)"
  using get_log_dynamic_exact [of "demo_cmd 100000" 65536 False refuse_large False] refuse_large_small_ok
  by (auto simp: demo_cmd_simps)

text \<open>With \<open>force_4k\<close> the length of the buffer does not matter: 4096 bytes are transferred to a buffer of 512.\<close>

lemma get_log_force_4k_overrun:
  "\<exists>c. libnvme_get_log True (\<lambda>_ _. RcOk) RcOk (demo_cmd 512) False 512 = Some (RcOk, [c]) \<and> data_len c = 4096"
  unfolding libnvme_get_log_def
  by (subst get_log_loop.simps) (simp add: demo_cmd_simps Let_def NVME_LOG_PAGE_PDU_SIZE_def piece_def)

text \<open>Less than four bytes - an empty buffer, or the end of one whose length is not a multiple of four - are
  asked for as the largest transfer there is, 16 GiB.\<close>

lemma get_log_rounds_down_to_all:
  "\<exists>c. libnvme_get_log False (\<lambda>_ _. RcOk) RcOk (demo_cmd 3) False 4096 = Some (RcOk, [c]) \<and> data_len c = 3 \<and> cmd_bytes c = 2 ^ 34"
proof -
  let ?c = "piece (demo_cmd 3) 512 3 (2 AND keep10) (0 AND LOG_CDW11_LSI) False 0 3 0x10000"
  have "cmd_bytes ?c = 2 ^ 34"
    unfolding piece_bytes by (simp add: unsigned_ucast_eq unsigned_minus_1_eq_mask take_bit_of_mask) (simp add: mask_eq_exp_minus_1)
  moreover have "libnvme_get_log False (\<lambda>_ _. RcOk) RcOk (demo_cmd 3) False 4096 = Some (RcOk, [?c])"
    unfolding libnvme_get_log_def by (subst get_log_loop.simps) (simp add: demo_cmd_def Let_def)
  moreover have "data_len ?c = 3" by (simp add: piece_def Let_def)
  ultimately show ?thesis by blast
qed

text \<open>With an empty buffer an error of the controller is lost.\<close>

lemma get_log_dynamic_loses_error:
  "libnvme_get_log_dynamic_chunk False (\<lambda>_ _. RcErrno EINVAL) (demo_cmd 0) False 8192 = Some (RcOk, [])"
  unfolding libnvme_get_log_dynamic_chunk_def
  by (subst dynamic_loop.simps) (simp add: demo_cmd_simps Let_def may_shrink_def NVME_LOG_PAGE_PDU_SIZE_def)

end
