(* ===== verification/Numbers.thy ===== *)
theory Numbers
  imports Cstrings
begin

text \<open>
  Reading numbers, \<open>shared/parse-util.c\<close>: booleans, whole-string integers and comma-separated
  lists.  \<open>strtoull\<close> and \<open>strtoll\<close> are modelled as ISO C17 states them;
  64-bit values are words, so every wrap-around the C code guards against is visible.
\<close>

section \<open>strtoull and strtoll\<close>

text \<open>The scan both share: white space, a sign, the prefix that base 0 looks for, and the
  longest run of digits.  None when there is no digit; otherwise the sign, the value and the
  string at \<open>*endptr\<close>.\<close>

definition strto_mag :: "nat \<Rightarrow> string \<Rightarrow> (nat \<times> string) option" where
  "strto_mag base s =
     (let hex = ((base = 0 \<or> base = 16) \<and> cget s 0 = CHR ''0''
                 \<and> (cget s 1 = CHR ''x'' \<or> cget s 1 = CHR ''X'') \<and> is_digit_of 16 (cget s 2));
          b = (if hex then 16
               else if base = 0 then (if cget s 0 = CHR ''0'' then 8 else 10) else base);
          s' = (if hex then drop 2 s else s);
          ds = takeWhile (is_digit_of b) s'
      in if ds = [] then None else Some (digits_val b ds, drop (length ds) s'))"

definition strto_scan :: "nat \<Rightarrow> string \<Rightarrow> (bool \<times> nat \<times> string) option" where
  "strto_scan base s =
     (let s1 = dropWhile isspace s;
          neg = (cget s1 0 = CHR ''-'');
          s2 = (if neg \<or> cget s1 0 = CHR ''+'' then tl s1 else s1)
      in map_option (Pair neg) (strto_mag base s2))"

text \<open>The value, \<open>*endptr\<close> (None when it is the start of the string) and whether errno is
  set to ERANGE.\<close>

definition strtoull :: "nat \<Rightarrow> string \<Rightarrow> u64 \<times> string option \<times> bool" where
  "strtoull base s = (case strto_scan base s of
      None \<Rightarrow> (0, None, False)
    | Some (neg, v, r) \<Rightarrow>
        if v \<ge> 2 ^ 64 then (- 1, Some r, True)
        else (if neg then - of_nat v else of_nat v, Some r, False))"

definition strtoll :: "nat \<Rightarrow> string \<Rightarrow> int \<times> string option \<times> bool" where
  "strtoll base s = (case strto_scan base s of
      None \<Rightarrow> (0, None, False)
    | Some (neg, v, r) \<Rightarrow>
        if neg then (if v > 2 ^ 63 then (- (2 ^ 63), Some r, True) else (- int v, Some r, False))
        else (if v \<ge> 2 ^ 63 then (2 ^ 63 - 1, Some r, True) else (int v, Some r, False)))"

text \<open>The values of a \<open>long long\<close>.\<close>

definition llong :: "int \<Rightarrow> bool" where
  "llong v \<longleftrightarrow> - (2 ^ 63) \<le> v \<and> v < 2 ^ 63"

section \<open>Whole-string numbers (parse-util.c)\<close>

definition parse_bool_yes :: "string list" where
  "parse_bool_yes = [''1'', ''yes'', ''y'', ''true'', ''t'', ''on'']"

definition parse_bool_no :: "string list" where
  "parse_bool_no = [''0'', ''no'', ''n'', ''false'', ''f'', ''off'']"

definition shr_parse_bool :: "string \<Rightarrow> bool res" where
  "shr_parse_bool value =
     (if list_ex (strcasecmp_eq value) parse_bool_yes then Inr True
      else if list_ex (strcasecmp_eq value) parse_bool_no then Inr False
      else Inl EINVAL)"

definition shr_has_leading_zero :: "string \<Rightarrow> bool" where
  "shr_has_leading_zero s \<longleftrightarrow> cget s 0 = CHR ''0'' \<and> isdigit (cget s 1)"

definition shr_parse_u64 :: "string option \<Rightarrow> u64 \<Rightarrow> u64 res" where
  "shr_parse_u64 so mx = (case so of
      None \<Rightarrow> Inl EINVAL
    | Some s \<Rightarrow>
        if \<not> isdigit (cget s 0) \<or> shr_has_leading_zero s then Inl EINVAL
        else (case strtoull 0 s of (v, end, erange) \<Rightarrow>
               if end \<noteq> Some [] then Inl EINVAL
               else if erange \<or> v > mx then Inl ERANGE
               else Inr v))"

definition shr_parse_s64 :: "string option \<Rightarrow> int \<Rightarrow> int \<Rightarrow> int res" where
  "shr_parse_s64 so mn mx = (case so of
      None \<Rightarrow> Inl EINVAL
    | Some s \<Rightarrow>
        (let digits = (if cget s 0 = CHR ''-'' then tl s else s)
         in if \<not> isdigit (cget digits 0) \<or> shr_has_leading_zero digits then Inl EINVAL
            else (case strtoll 0 s of (v, end, erange) \<Rightarrow>
                   if end \<noteq> Some [] then Inl EINVAL
                   else if erange \<or> v < mn \<or> v > mx then Inl ERANGE
                   else Inr v)))"

section \<open>Comma-separated lists (parse-util.c)\<close>

text \<open>The loop of \<open>DEFINE_SHR_PARSE_CSV_FUNC\<close>: the entries stored in \<open>val\<close> so far, and the
  rest of the string.  The error is \<open>-1\<close>.\<close>

function csv_loop :: "u64 \<Rightarrow> nat \<Rightarrow> u64 list \<Rightarrow> string option \<Rightarrow> u64 list \<times> nat res" where
  "csv_loop mx max_length val rest = (case shr_strsep rest '','' of
      (None, _) \<Rightarrow> (val, Inr (length val))
    | (Some tok, rest') \<Rightarrow>
        if tok = [] then csv_loop mx max_length val rest'
        else if length val \<ge> max_length then (val, Inl (Errno 1))
        else (case shr_parse_u64 (Some (shr_trim tok)) mx of
                Inl e \<Rightarrow> (val, Inl (Errno 1))
              | Inr v \<Rightarrow> csv_loop mx max_length (val @ [v]) rest'))"
  by pat_completeness auto

lemma strsep_measure:
  assumes "(Some tok, rest') = shr_strsep rest d"
  shows "(case rest' of None \<Rightarrow> 0 | Some s \<Rightarrow> Suc (length s)) <
         (case rest of None \<Rightarrow> 0 | Some s \<Rightarrow> Suc (length s))"
proof (cases rest)
  case None
  with assms show ?thesis by simp
next
  case (Some s)
  show ?thesis
  proof (cases rest')
    case None
    with Some show ?thesis by simp
  next
    case (Some r)
    with assms \<open>rest = Some s\<close> have "shr_strsep (Some s) d = (Some tok, Some r)" by simp
    then have "length r < length s" by (rule shr_strsep_shrinks)
    with Some \<open>rest = Some s\<close> show ?thesis by simp
  qed
qed

termination csv_loop
  by (relation "measure (\<lambda>(mx, n, val, rest). case rest of None \<Rightarrow> 0 | Some s \<Rightarrow> Suc (length s))")
    (simp_all add: strsep_measure del: shr_strsep.simps)

declare csv_loop.simps [simp del]

definition shr_parse_csv :: "u64 \<Rightarrow> string option \<Rightarrow> nat \<Rightarrow> u64 list \<times> nat res" where
  "shr_parse_csv mx string max_length = (case string of
      None \<Rightarrow> ([], Inr 0)
    | Some s \<Rightarrow> if s = [] then ([], Inr 0) else csv_loop mx max_length [] (Some s))"

definition shr_parse_csv_int :: "string option \<Rightarrow> nat \<Rightarrow> u64 list \<times> nat res" where
  "shr_parse_csv_int = shr_parse_csv 0x7fffffff"
definition shr_parse_csv_ushort :: "string option \<Rightarrow> nat \<Rightarrow> u64 list \<times> nat res" where
  "shr_parse_csv_ushort = shr_parse_csv 0xffff"
definition shr_parse_csv_uint :: "string option \<Rightarrow> nat \<Rightarrow> u64 list \<times> nat res" where
  "shr_parse_csv_uint = shr_parse_csv 0xffffffff"
definition shr_parse_csv_ulonglong :: "string option \<Rightarrow> nat \<Rightarrow> u64 list \<times> nat res" where
  "shr_parse_csv_ulonglong = shr_parse_csv 0xffffffffffffffff"
definition shr_parse_csv_uchar :: "string option \<Rightarrow> nat \<Rightarrow> u64 list \<times> nat res" where
  "shr_parse_csv_uchar = shr_parse_csv 0xff"

text \<open>The digit loop of \<open>shr_parse_csv_uint128\<close>.\<close>

primrec u128_digits :: "u128 \<Rightarrow> u128 \<Rightarrow> string \<Rightarrow> u128 res" where
  "u128_digits base v [] = Inr v"
| "u128_digits base v (c # src) =
     (if CHR ''0'' \<le> c \<and> c \<le> CHR ''9''
         \<or> base = 16 \<and> CHR ''a'' \<le> c \<and> c \<le> CHR ''f''
         \<or> base = 16 \<and> CHR ''A'' \<le> c \<and> c \<le> CHR ''F''
      then let digit = of_nat (digit_val c)
           in if v > (- 1 - digit) div base then Inl ERANGE
              else u128_digits base (v * base + digit) src
      else Inl (Errno 1))"

definition u128_token :: "string \<Rightarrow> u128 res" where
  "u128_token temp =
     (let hex = (cget temp 0 = CHR ''0'' \<and> (cget temp 1 = CHR ''x'' \<or> cget temp 1 = CHR ''X''))
      in if \<not> hex \<and> shr_has_leading_zero temp then Inl EINVAL
         else let src = (if hex then drop 2 temp else temp)
              in if src = [] then Inl EINVAL
                 else u128_digits (if hex then 16 else 10) 0 src)"

function csv128_loop :: "nat \<Rightarrow> u128 list \<Rightarrow> string option \<Rightarrow> u128 list \<times> nat res" where
  "csv128_loop max_length val rest = (case shr_strsep rest '','' of
      (None, _) \<Rightarrow> (val, Inr (length val))
    | (Some tok, rest') \<Rightarrow>
        if tok = [] then csv128_loop max_length val rest'
        else if length val \<ge> max_length then (val, Inl EINVAL)
        else (case u128_token (shr_trim tok) of
                Inl e \<Rightarrow> (val, Inl e)
              | Inr v \<Rightarrow> csv128_loop max_length (val @ [v]) rest'))"
  by pat_completeness auto
termination csv128_loop
  by (relation "measure (\<lambda>(n, val, rest). case rest of None \<Rightarrow> 0 | Some s \<Rightarrow> Suc (length s))")
    (simp_all add: strsep_measure del: shr_strsep.simps)

declare csv128_loop.simps [simp del]

definition shr_parse_csv_uint128 :: "string option \<Rightarrow> nat \<Rightarrow> u128 list \<times> nat res" where
  "shr_parse_csv_uint128 string max_length = (case string of
      None \<Rightarrow> ([], Inr 0)
    | Some s \<Rightarrow> if s = [] then ([], Inr 0) else csv128_loop max_length [] (Some s))"

section \<open>Lemmas on the digit scan\<close>

lemma digit_val_cases: "digit_val c < 16 \<longleftrightarrow> isxdigit c" 
  by (auto simp: digit_val_def isxdigit_def isdigit_iff char_le_iff)

lemma is_digit_of_16: "is_digit_of 16 c \<longleftrightarrow> isxdigit c"
  by (simp add: is_digit_of_def digit_val_cases)

lemma is_digit_of_8: "is_digit_of 8 c \<Longrightarrow> isdigit c"
  by (auto simp: is_digit_of_def digit_val_def isdigit_iff char_le_iff split: if_splits)

lemma is_digit_of_eqs: "is_digit_of 10 = isdigit" "is_digit_of 16 = isxdigit"
  by (auto simp: is_digit_of_10 is_digit_of_16)

text \<open>The string starts with a hexadecimal number.\<close>

definition hex_prefix :: "string \<Rightarrow> bool" where
  "hex_prefix s \<longleftrightarrow> cget s 0 = CHR ''0'' \<and> (cget s 1 = CHR ''x'' \<or> cget s 1 = CHR ''X'')
     \<and> isxdigit (cget s 2)"

lemma strto_scan_0:
  assumes "isdigit (cget s 0)" "\<not> shr_has_leading_zero s"
  shows "strto_scan 0 s =
    (if hex_prefix s then
       Some (False, digits_val 16 (takeWhile isxdigit (drop 2 s)), dropWhile isxdigit (drop 2 s))
     else Some (False, digits_val 10 (takeWhile isdigit s), dropWhile isdigit s))"
proof -
  from assms(1) obtain c t where s: "s = c # t" by (cases s) auto
  have c: "isdigit c" "\<not> isspace c" "c \<noteq> CHR ''-''" "c \<noteq> CHR ''+''"
    using assms(1) s by (auto simp: isdigit_not_isspace ctype_defs)
  have dw: "dropWhile isspace s = s" using s c by simp
  show ?thesis
  proof (cases "hex_prefix s")
    case True
    then obtain d u where t: "t = d # u" "isxdigit (cget u 0)" "d = CHR ''x'' \<or> d = CHR ''X''"
      by (cases t) (auto simp: hex_prefix_def s)
    then have "takeWhile isxdigit u \<noteq> []" by (cases u) auto
    then show ?thesis using True c s t
      by (auto simp: strto_scan_def strto_mag_def Let_def dw is_digit_of_eqs hex_prefix_def is_digit_of_16
          dropWhile_eq_drop)
  next
    case False
    show ?thesis
    proof (cases "c = CHR ''0''")
      case True
      with assms(2) s have t: "\<not> isdigit (cget t 0)" by (simp add: shr_has_leading_zero_def)
      have tw: "takeWhile (is_digit_of 8) t = []" "takeWhile isdigit t = []"
        using t by (cases t; auto dest: is_digit_of_8)+
      have d0: "is_digit_of 8 CHR ''0''" "digits_val 8 ''0'' = digits_val 10 ''0''"
        by code_simp+
      have "strto_scan 0 s = Some (False, digits_val 8 ''0'', t)"
        using False True s t tw d0 unfolding strto_scan_def strto_mag_def Let_def dw
        by (auto simp: hex_prefix_def is_digit_of_16 ctype_defs)
      moreover have "dropWhile isdigit t = t" using t by (cases t) auto
      ultimately show ?thesis using False True s c tw d0 by simp
    next
      case c0: False
      then show ?thesis using False s c
        by (auto simp: strto_scan_def strto_mag_def Let_def dw is_digit_of_eqs hex_prefix_def dropWhile_eq_drop)
    qed
  qed
qed

section \<open>Whole-string numbers: the accepted language\<close>

text \<open>The grammar the header documents: a decimal number without a leading zero, or a
  hexadecimal number with a 0x prefix, and its value.\<close>

definition u64_literal :: "string \<Rightarrow> nat option" where
  "u64_literal s =
     (if s \<noteq> [] \<and> list_all isdigit s \<and> (hd s = CHR ''0'' \<longrightarrow> tl s = [])
      then Some (digits_val 10 s)
      else if (take 2 s = ''0x'' \<or> take 2 s = ''0X'') \<and> drop 2 s \<noteq> [] \<and> list_all isxdigit (drop 2 s)
      then Some (digits_val 16 (drop 2 s)) else None)"

lemma u64_literal_scan:
  "u64_literal s = (if isdigit (cget s 0) \<and> \<not> shr_has_leading_zero s
     then (case strto_scan 0 s of Some (neg, v, []) \<Rightarrow> Some v | _ \<Rightarrow> None) else None)"
proof (cases "isdigit (cget s 0) \<and> \<not> shr_has_leading_zero s")
  case True
  then obtain c t where s: "s = c # t" "isdigit c" by (cases s) auto
  from True s have z: "c = CHR ''0'' \<Longrightarrow> \<not> isdigit (cget t 0)"
    by (auto simp: shr_has_leading_zero_def)
  have scan: "strto_scan 0 s =
    (if hex_prefix s then
       Some (False, digits_val 16 (takeWhile isxdigit (drop 2 s)), dropWhile isxdigit (drop 2 s))
     else Some (False, digits_val 10 (takeWhile isdigit s), dropWhile isdigit s))"
    using True by (intro strto_scan_0) auto
  show ?thesis
  proof (cases "hex_prefix s")
    case True
    then obtain d u where t: "t = d # u" "isxdigit (cget u 0)" "d = CHR ''x'' \<or> d = CHR ''X''"
        "c = CHR ''0''"
      using s by (cases t) (auto simp: hex_prefix_def)
    then have nd: "\<not> list_all isdigit s" "u \<noteq> []" "take 2 s = ''0x'' \<or> take 2 s = ''0X''"
      "drop 2 s = u" using s by (auto simp: ctype_defs)
    then have "u64_literal s = (if list_all isxdigit u then Some (digits_val 16 u) else None)"
      by (simp add: u64_literal_def)
    moreover have "dropWhile isxdigit u = [] \<longleftrightarrow> list_all isxdigit u" by (rule dropWhile_all_Nil)
    ultimately show ?thesis using True \<open>isdigit (cget s 0) \<and> _\<close> scan nd
      by (auto split: list.splits simp: takeWhile_all)
  next
    case False
    have nohex: "\<not> ((take 2 s = ''0x'' \<or> take 2 s = ''0X'') \<and> drop 2 s \<noteq> [] \<and> list_all isxdigit (drop 2 s))"
    proof
      assume h: "(take 2 s = ''0x'' \<or> take 2 s = ''0X'') \<and> drop 2 s \<noteq> [] \<and> list_all isxdigit (drop 2 s)"
      then obtain d e u where "s = [CHR ''0'', d] @ (e # u)" "d = CHR ''x'' \<or> d = CHR ''X''"
        by (metis append_take_drop_id list.exhaust)
      with h have "hex_prefix s" by (auto simp: hex_prefix_def)
      with False show False by simp
    qed
    have "list_all isdigit s \<Longrightarrow> hd s = CHR ''0'' \<longrightarrow> tl s = []"
      using z s by (cases t) auto
    then have "u64_literal s = (if list_all isdigit s then Some (digits_val 10 s) else None)"
      unfolding u64_literal_def using nohex s by auto
    then show ?thesis using False \<open>isdigit (cget s 0) \<and> _\<close> scan
      by (auto split: list.splits simp: takeWhile_all list_all_iff)
  qed
next
  case False
  have "\<not> (s \<noteq> [] \<and> list_all isdigit s \<and> (hd s = CHR ''0'' \<longrightarrow> tl s = []))"
    using False by (cases s; cases "tl s") (auto simp: shr_has_leading_zero_def)
  moreover have "\<not> (take 2 s = ''0x'' \<or> take 2 s = ''0X'')"
  proof
    assume "take 2 s = ''0x'' \<or> take 2 s = ''0X''"
    then obtain d u where "s = [CHR ''0'', d] @ u" "d = CHR ''x'' \<or> d = CHR ''X''"
      by (metis append_take_drop_id)
    with False show False by (auto simp: shr_has_leading_zero_def ctype_defs)
  qed
  ultimately show ?thesis using False unfolding u64_literal_def by auto
qed

lemma of_nat_gt_iff: "n < 2 ^ 64 \<Longrightarrow> (of_nat n :: u64) > mx \<longleftrightarrow> n > unat mx"
  by (simp add: word_less_nat_alt unat_of_nat)

lemma parse_u64_literal:
  "shr_parse_u64 (Some s) mx = (case u64_literal s of
      None \<Rightarrow> Inl EINVAL
    | Some n \<Rightarrow> if n \<le> unat mx then Inr (of_nat n) else Inl ERANGE)"
proof (cases "isdigit (cget s 0) \<and> \<not> shr_has_leading_zero s")
  case True
  obtain v r where sc: "strto_scan 0 s = Some (False, v, r)" using strto_scan_0 [of s] True
    by (auto split: if_splits)
  have mx: "unat mx < 2 ^ 64" by (rule unat_lt_64)
  show ?thesis
  proof (cases "v < 2 ^ 64")
    case v: True
    then show ?thesis using True sc of_nat_gt_iff [OF v, of mx]
      by (auto simp: u64_literal_scan shr_parse_u64_def strtoull_def split: list.splits)
  next
    case False
    with mx show ?thesis using True sc
      by (auto simp: u64_literal_scan shr_parse_u64_def strtoull_def split: list.splits)
  qed
next
  case False
  then show ?thesis by (auto simp: u64_literal_scan shr_parse_u64_def)
qed

lemma u64_literal_dec_str: "u64_literal (dec_str n) = Some n"
proof -
  have "list_all isdigit (dec_str n)" by (auto simp: list_all_iff dec_str_digits)
  moreover have "hd (dec_str n) = CHR ''0'' \<longrightarrow> tl (dec_str n) = []"
    using dec_str_no_leading_zero [of n] by (cases "dec_str n") auto
  ultimately show ?thesis by (simp add: u64_literal_def)
qed

lemma strto_scan_minus:
  "isdigit (cget t 0) \<Longrightarrow>
   strto_scan b (CHR ''-'' # t) = map_option (\<lambda>(_, v, r). (True, v, r)) (strto_scan b t)"
proof -
  assume d: "isdigit (cget t 0)"
  then obtain c u where t: "t = c # u" by (cases t) auto
  have "\<not> isspace CHR ''-''" "\<not> isspace c" "c \<noteq> CHR ''-''" "c \<noteq> CHR ''+''"
    using d t by (auto simp: isdigit_not_isspace ctype_defs)
  then show ?thesis unfolding t strto_scan_def by (simp add: Let_def option.map_comp comp_def)
qed

text \<open>\<open>shr_parse_s64\<close> reads the same numbers with an optional minus sign, and reports a value
  outside the limits as \<open>ERANGE\<close>, also when it does not fit into a signed 64-bit integer.\<close>

theorem shr_parse_s64_spec:
  assumes "llong mn" "llong mx"
  shows "shr_parse_s64 (Some s) mn mx =
    (let neg = (cget s 0 = CHR ''-'')
     in case u64_literal (if neg then tl s else s) of
          None \<Rightarrow> Inl EINVAL
        | Some n \<Rightarrow>
            (let v = (if neg then - int n else int n)
             in if mn \<le> v \<and> v \<le> mx then Inr v else Inl ERANGE))"
proof -
  define neg where "neg = (cget s 0 = CHR ''-'')"
  define d where "d = (if neg then tl s else s)"
  show ?thesis
  proof (cases "isdigit (cget d 0) \<and> \<not> shr_has_leading_zero d")
    case True
    obtain v r where sc: "strto_scan 0 d = Some (False, v, r)"
      using strto_scan_0 [of d] True by (auto split: if_splits)
    have s: "strto_scan 0 s = Some (neg, v, r)"
    proof (cases neg)
      case neg: True
      then have "s = CHR ''-'' # d" by (cases s) (auto simp: neg_def d_def)
      then show ?thesis using strto_scan_minus [of d 0] True sc neg by simp
    next
      case False
      then show ?thesis using sc by (simp add: neg_def d_def)
    qed
    have lit: "u64_literal d = (if r = [] then Some v else None)"
      using True sc by (auto simp: u64_literal_scan split: list.splits)
    show ?thesis
      unfolding shr_parse_s64_def option.case Let_def neg_def [symmetric] d_def [symmetric]
        strtoll_def s lit
      using True assms by (auto simp: llong_def)
  next
    case False
    then have "u64_literal d = None" by (auto simp: u64_literal_scan)
    then show ?thesis using False
      unfolding shr_parse_s64_def option.case Let_def neg_def [symmetric] d_def [symmetric]
      by auto
  qed
qed

theorem shr_parse_s64_spec_witness:
  "shr_parse_s64 (Some ''-16'') (- 128) 127 = Inr (- 16)"
proof -
  have "u64_literal ''16'' = Some 16" by code_simp
  then show ?thesis using shr_parse_s64_spec [of "- 128" 127 "''-16''"]
    by (simp add: llong_def Let_def)
qed

section \<open>Comma-separated lists: lemmas\<close>

fun csv_str :: "u64 list \<Rightarrow> string" where
  "csv_str [] = []"
| "csv_str [v] = dec_str (unat v)"
| "csv_str (v # w # vs) = dec_str (unat v) @ '','' @ csv_str (w # vs)"

lemma shr_parse_u64_le: "shr_parse_u64 so mx = Inr v \<Longrightarrow> v \<le> mx"
  by (auto simp: shr_parse_u64_def split: option.splits if_splits prod.splits)

lemma csv_loop_bounds:
  "length val \<le> n \<Longrightarrow> list_all (\<lambda>v. v \<le> mx) val \<Longrightarrow> csv_loop mx n val rest = (vs, r) \<Longrightarrow>
   length vs \<le> n \<and> list_all (\<lambda>v. v \<le> mx) vs \<and> (r = Inl (Errno 1) \<or> r = Inr (length vs))"
proof (induction mx n val rest rule: csv_loop.induct)
  case (1 mx n val rest)
  obtain t rest' where sep: "shr_strsep rest '','' = (t, rest')" by fastforce
  show ?case
  proof (cases t)
    case None
    with "1.prems" sep show ?thesis by (subst (asm) csv_loop.simps) auto
  next
    case (Some tok)
    note IH = "1.IH" [OF sep [symmetric], unfolded Some, OF refl]
    from "1.prems"(3) sep Some have u: "(if tok = [] then csv_loop mx n val rest'
        else if length val \<ge> n then (val, Inl (Errno 1))
        else (case shr_parse_u64 (Some (shr_trim tok)) mx of
                Inl e \<Rightarrow> (val, Inl (Errno 1))
              | Inr v \<Rightarrow> csv_loop mx n (val @ [v]) rest')) = (vs, r)"
      by (subst (asm) csv_loop.simps) simp
    show ?thesis
      using u "1.prems"(1,2) IH
      by (auto split: if_splits sum.splits dest: shr_parse_u64_le)
  qed
qed

lemma dec_str_trimmed: "trimmed (dec_str n)"
  using dec_str_digits [of _ n] isdigit_not_isspace
  by (auto simp: trimmed_def)

lemma strsep_dec_str:
  "shr_strsep (Some (dec_str n @ CHR '','' # r)) '','' = (Some (dec_str n), Some r)"
  "shr_strsep (Some (dec_str n)) '','' = (Some (dec_str n), None)"
proof -
  have "list_all (\<lambda>c. c \<noteq> CHR '','') (dec_str n)"
    unfolding list_all_iff using dec_str_digits [of "CHR '',''" n] by (auto simp: ctype_defs)
  then show "shr_strsep (Some (dec_str n @ CHR '','' # r)) '','' = (Some (dec_str n), Some r)"
    "shr_strsep (Some (dec_str n)) '','' = (Some (dec_str n), None)"
    by (simp_all add: dropWhile_all takeWhile_append list_all_iff)
qed

lemma csv_loop_roundtrip:
  "vs \<noteq> [] \<Longrightarrow> length val + length vs \<le> n \<Longrightarrow> list_all (\<lambda>v. v \<le> mx) vs \<Longrightarrow>
   csv_loop mx n val (Some (csv_str vs)) = (val @ vs, Inr (length val + length vs))"
proof (induction vs arbitrary: val rule: csv_str.induct)
  case (2 v)
  have "csv_loop mx n (val @ [v]) None = (val @ [v], Inr (length val + 1))"
    by (subst csv_loop.simps) simp
  with 2 show ?case
    by (subst csv_loop.simps, simp only: csv_str.simps strsep_dec_str)
      (simp add: dec_str_trimmed parse_u64_literal u64_literal_dec_str word_le_nat_alt)
next
  case (3 v w vs)
  have "csv_loop mx n (val @ [v]) (Some (csv_str (w # vs))) =
      ((val @ [v]) @ w # vs, Inr (length (val @ [v]) + length (w # vs)))"
    using "3.prems" by (intro "3.IH") auto
  then show ?case using "3.prems"
    by (subst csv_loop.simps, simp only: csv_str.simps append_Cons append_Nil strsep_dec_str)
      (simp add: dec_str_trimmed parse_u64_literal u64_literal_dec_str word_le_nat_alt)
qed simp

text \<open>Whatever the string, the parser of a comma-separated list stores at most \<open>max_length\<close>
  entries, none above the limit of the element type, and returns their number or \<open>-1\<close>.\<close>

theorem shr_parse_csv_bounds:
  "case shr_parse_csv mx s max_length of (vs, r) \<Rightarrow>
     length vs \<le> max_length \<and> list_all (\<lambda>v. v \<le> mx) vs \<and> (r = Inl (Errno 1) \<or> r = Inr (length vs))"
proof (cases "s = None \<or> s = Some []")
  case True
  then show ?thesis by (auto simp: shr_parse_csv_def)
next
  case False
  then obtain t where t: "s = Some t" "t \<noteq> []" by (cases s) auto
  obtain vs r where l: "csv_loop mx max_length [] (Some t) = (vs, r)" by fastforce
  from csv_loop_bounds [OF _ _ l] l t show ?thesis by (simp add: shr_parse_csv_def)
qed

text \<open>A list of numbers within the limits, printed in decimal and joined by commas, reads
  back as the same list.\<close>

theorem shr_parse_csv_roundtrip:
  assumes "length vs \<le> max_length" "list_all (\<lambda>v. v \<le> mx) vs"
  shows "shr_parse_csv mx (Some (csv_str vs)) max_length = (vs, Inr (length vs))"
proof (cases vs)
  case Nil
  then show ?thesis by (simp add: shr_parse_csv_def)
next
  case (Cons v ws)
  then have "csv_str vs \<noteq> []" by (cases ws) auto
  then show ?thesis using csv_loop_roundtrip [of vs "[]" max_length mx] assms Cons
    by (simp add: shr_parse_csv_def)
qed

theorem shr_parse_csv_roundtrip_witness:
  "shr_parse_csv 0xff (Some (csv_str [7, 255])) 2 = ([7, 255], Inr 2)"
  using shr_parse_csv_roundtrip [of "[7, 255]" 2 "0xff"] by simp

section \<open>128-bit entries: lemmas\<close>

lemma digits_acc_mono: "(n::nat) \<le> foldl (\<lambda>v c. v * b + digit_val c) n ds" if "0 < b"
proof (induction ds arbitrary: n)
  case (Cons c ds)
  have "n \<le> n * b + digit_val c" using that by (simp add: trans_le_add1)
  also have "\<dots> \<le> foldl (\<lambda>v c. v * b + digit_val c) (n * b + digit_val c) ds" by (rule Cons.IH)
  finally show ?case by simp
qed simp

lemma u128_step:
  assumes "b = 10 \<or> b = 16" "d < b"
  shows "(v :: u128) > (- 1 - of_nat d) div of_nat b \<longleftrightarrow> unat v * b + d \<ge> 2 ^ 128"
    and "unat v * b + d < 2 ^ 128 \<Longrightarrow> unat (v * of_nat b + of_nat d) = unat v * b + d"
proof -
  have db: "d < 2 ^ 128" "b < 2 ^ 128" "0 < b" using assms by auto
  then have u: "unat (of_nat d :: u128) = d" "unat (of_nat b :: u128) = b"
    by (simp_all add: unat_of_nat)
  have "unat (- 1 :: u128) = 2 ^ 128 - 1" by (simp add: unsigned_minus_1_eq_mask mask_eq_exp_minus_1)
  moreover have "(of_nat d :: u128) \<le> - 1" by simp
  ultimately have "unat (- 1 - of_nat d :: u128) = 2 ^ 128 - 1 - d"
    using u by (simp add: unat_sub)
  then have "unat ((- 1 - of_nat d :: u128) div of_nat b) = (2 ^ 128 - 1 - d) div b"
    using u by (simp add: unat_div)
  then have "v > (- 1 - of_nat d) div of_nat b \<longleftrightarrow> (2 ^ 128 - 1 - d) div b < unat v"
    by (simp add: word_less_nat_alt)
  also have "\<dots> \<longleftrightarrow> 2 ^ 128 - 1 - d < unat v * b"
    using db(3) by (simp add: div_less_iff_less_mult)
  also have "\<dots> \<longleftrightarrow> unat v * b + d \<ge> 2 ^ 128" using db(1) by auto
  finally show "v > (- 1 - of_nat d) div of_nat b \<longleftrightarrow> unat v * b + d \<ge> 2 ^ 128" .
  assume "unat v * b + d < 2 ^ 128"
  then show "unat (v * of_nat b + of_nat d) = unat v * b + d"
    using u by (simp add: unat_word_ariths)
qed

lemma u128_digit_class:
  assumes "b = 10 \<or> b = 16"
  shows "(CHR ''0'' \<le> c \<and> c \<le> CHR ''9''
         \<or> (of_nat b :: u128) = 16 \<and> CHR ''a'' \<le> c \<and> c \<le> CHR ''f''
         \<or> (of_nat b :: u128) = 16 \<and> CHR ''A'' \<le> c \<and> c \<le> CHR ''F'') \<longleftrightarrow> digit_val c < b"
  using assms
  by (auto simp: digit_val_def isdigit_iff char_le_iff)

lemma u128_digits_spec:
  assumes "b = 10 \<or> b = 16"
  shows "u128_digits (of_nat b) v src = Inr w \<longleftrightarrow>
     list_all (is_digit_of b) src \<and> foldl (\<lambda>v c. v * b + digit_val c) (unat v) src < 2 ^ 128
     \<and> w = of_nat (foldl (\<lambda>v c. v * b + digit_val c) (unat v) src)"
proof (induction src arbitrary: v)
  case Nil
  show ?case using unat_lt_128 [of v] by auto
next
  case (Cons c src)
  have b0: "0 < b" using assms by auto
  show ?case
  proof (cases "digit_val c < b")
    case True
    note st = u128_step [OF assms True, of v]
    show ?thesis
    proof (cases "unat v * b + digit_val c < 2 ^ 128")
      case le: True
      with st have "u128_digits (of_nat b) v (c # src) =
          u128_digits (of_nat b) (v * of_nat b + of_nat (digit_val c)) src"
        unfolding u128_digits.simps u128_digit_class [OF assms]
        using True by (auto simp: Let_def)
      then show ?thesis using Cons.IH [of "v * of_nat b + of_nat (digit_val c)"] st le True
        by (simp add: is_digit_of_def)
    next
      case False
      with st have "u128_digits (of_nat b) v (c # src) = Inl ERANGE"
        unfolding u128_digits.simps u128_digit_class [OF assms]
        using True by (auto simp: Let_def)
      moreover have "2 ^ 128 \<le> foldl (\<lambda>v c. v * b + digit_val c) (unat v * b + digit_val c) src"
        using False digits_acc_mono [OF b0, of "unat v * b + digit_val c" src] by linarith
      ultimately show ?thesis by simp
    qed
  next
    case False
    then show ?thesis
      unfolding u128_digits.simps u128_digit_class [OF assms]
      by (simp add: is_digit_of_def)
  qed
qed

text \<open>An entry of a 128-bit list is accepted exactly when it is a number of the documented
  form that fits into 128 bits, and the overflow test before each digit makes the stored word
  its mathematical value: no digit wraps around.\<close>

theorem u128_token_exact:
  "u128_token s = Inr w \<longleftrightarrow> (\<exists>n. u64_literal s = Some n \<and> n < 2 ^ 128 \<and> w = of_nat n)"
proof -
  have d10: "is_digit_of 10 = isdigit" and d16: "is_digit_of 16 = isxdigit"
    by (rule is_digit_of_eqs)+
  define hex where "hex = (cget s 0 = CHR ''0'' \<and> (cget s 1 = CHR ''x'' \<or> cget s 1 = CHR ''X''))"
  show ?thesis
  proof (cases hex)
    case True
    then obtain d u where s: "s = CHR ''0'' # d # u" "d = CHR ''x'' \<or> d = CHR ''X''"
      by (cases s; cases "tl s") (auto simp: hex_def)
    then have "\<not> list_all isdigit s" by (auto simp: ctype_defs)
    with s have "u64_literal s = (if u \<noteq> [] \<and> list_all isxdigit u then Some (digits_val 16 u) else None)"
      by (auto simp: u64_literal_def)
    moreover have "u128_token s = (if u = [] then Inl EINVAL else u128_digits (of_nat 16) 0 u)"
      using True unfolding u128_token_def Let_def hex_def [symmetric] by (simp add: s)
    ultimately show ?thesis
      using u128_digits_spec [of 16 0 u w] by (auto simp: d16 digits_val_def)
  next
    case False
    then have nh: "\<not> (take 2 s = ''0x'' \<or> take 2 s = ''0X'')"
      by (cases s; cases "tl s") (auto simp: hex_def)
    have z: "s \<noteq> [] \<and> list_all isdigit s \<and> (hd s = CHR ''0'' \<longrightarrow> tl s = []) \<longleftrightarrow>
        s \<noteq> [] \<and> list_all isdigit s \<and> \<not> shr_has_leading_zero s"
      by (cases s; cases "tl s") (auto simp: shr_has_leading_zero_def)
    have "u128_token s = (if shr_has_leading_zero s \<or> s = [] then Inl EINVAL
        else u128_digits (of_nat 10) 0 s)"
      using False unfolding u128_token_def Let_def hex_def [symmetric] by simp
    moreover have "u64_literal s = (if s \<noteq> [] \<and> list_all isdigit s \<and> \<not> shr_has_leading_zero s
        then Some (digits_val 10 s) else None)"
      unfolding u64_literal_def z using nh by simp
    ultimately show ?thesis
      using u128_digits_spec [of 10 0 s w] by (auto simp: d10 digits_val_def)
  qed
qed

section \<open>The number grammar\<close>

text \<open>\<open>shr_parse_u64\<close> accepts exactly the decimal numbers without a leading zero and the
  hexadecimal numbers with a 0x prefix, returns their mathematical value, and reports a value
  above the limit (also one that does not fit into 64 bits) as \<open>ERANGE\<close>, anything else as
  \<open>EINVAL\<close>.\<close>

theorem shr_parse_u64_spec:
  "shr_parse_u64 (Some s) mx = (case u64_literal s of
      None \<Rightarrow> Inl EINVAL
    | Some n \<Rightarrow> if n \<le> unat mx then Inr (of_nat n) else Inl ERANGE)"
  by (rule parse_u64_literal)

end
