(* ===== verification/Net.thy ===== *)
theory Net
  imports Cstrings Numbers
begin

text \<open>
  Numeric network addresses, \<open>shared/net-util-linux.c\<close>: parsing with an optional scope, comparison
  across address families, and the search of interface lists.

  \<open>inet_pton\<close>, \<open>inet_ntop\<close> and \<open>if_nametoindex\<close> belong to the C library and the kernel: they are
  the argument \<open>inet\<close> of the operations.  An address is the list of its 4 or 16 bytes in network
  order.  \<open>mem\<close> says whether \<open>strdup\<close> succeeds.
\<close>

record inet =
  pton4 :: "string \<Rightarrow> bytes option"
  pton6 :: "string \<Rightarrow> bytes option"
  ntop4 :: "bytes \<Rightarrow> string option"
  ntop6 :: "bytes \<Rightarrow> string option"
  if_nametoindex :: "string \<Rightarrow> nat"

definition PCT :: char where "PCT = CHR ''%''"

text \<open>\<open>IN6_IS_ADDR_V4MAPPED\<close> and \<open>IN6_IS_ADDR_LINKLOCAL\<close> of \<open>netinet/in.h\<close>.\<close>

definition v4mapped :: "bytes \<Rightarrow> bool" where
  "v4mapped a \<longleftrightarrow> take 12 a = replicate 10 0 @ [0xff, 0xff]"

definition linklocal :: "bytes \<Rightarrow> bool" where
  "linklocal a \<longleftrightarrow> a ! 0 = 0xfe \<and> a ! 1 AND 0xc0 = 0x80"



definition UINT_MAX :: nat where "UINT_MAX = 2 ^ 32 - 1"

definition scope_to_index :: "inet \<Rightarrow> string \<Rightarrow> nat" where
  "scope_to_index net scope =
     (let index = if_nametoindex net scope
      in if index \<noteq> 0 then index
         else (case strtoull 10 scope of (val, end, erange) \<Rightarrow>
                 if erange \<or> end \<noteq> Some [] \<or> unat val > UINT_MAX then 0 else unat val))"

text \<open>\<open>In6 a scope_id\<close>; \<open>OtherFamily\<close> is an address of another family, which only interface lists
  have.\<close>

datatype sockaddr_any = In4 bytes | In6 bytes nat | OtherFamily

definition parse_numeric_addr :: "inet \<Rightarrow> bool \<Rightarrow> string \<Rightarrow> sockaddr_any res" where
  "parse_numeric_addr net mem addr =
     (case pton4 net addr of
        Some a \<Rightarrow> Inr (In4 a)
      | None \<Rightarrow>
          if \<not> mem then Inl ENOMEM
          else (let tmp = takeWhile (\<lambda>c. c \<noteq> PCT) addr; scope = dropWhile (\<lambda>c. c \<noteq> PCT) addr
                in case pton6 net tmp of
                     None \<Rightarrow> Inl EINVAL
                   | Some a \<Rightarrow> Inr (In6 a (if scope \<noteq> [] \<and> linklocal a then scope_to_index net (tl scope) else 0))))"

definition sockaddr_copy :: "sockaddr_any \<Rightarrow> sockaddr_any option" where
  "sockaddr_copy addr = (if addr = OtherFamily then None else Some addr)"

fun sockaddrs_eq :: "sockaddr_any \<Rightarrow> sockaddr_any \<Rightarrow> bool" where
  "sockaddrs_eq (In4 a) (In4 b) \<longleftrightarrow> a = b"
| "sockaddrs_eq (In6 a _) (In6 b _) \<longleftrightarrow> a = b"
| "sockaddrs_eq (In4 a) (In6 b _) \<longleftrightarrow> v4mapped b \<and> a = drop 12 b"
| "sockaddrs_eq (In6 a _) (In4 b) \<longleftrightarrow> v4mapped a \<and> b = drop 12 a"
| "sockaddrs_eq _ _ \<longleftrightarrow> False"

text \<open>The two pointers may be the same: \<open>same\<close>.\<close>

definition shr_ipaddrs_eq :: "inet \<Rightarrow> bool \<Rightarrow> bool \<Rightarrow> string option \<Rightarrow> string option \<Rightarrow> bool" where
  "shr_ipaddrs_eq net mem same addr1 addr2 =
     (if same then True
      else (case (addr1, addr2) of
              (Some a1, Some a2) \<Rightarrow>
                (case (parse_numeric_addr net mem a1, parse_numeric_addr net mem a2) of
                   (Inr sa1, Inr sa2) \<Rightarrow> sockaddrs_eq sa1 sa2
                 | _ \<Rightarrow> False)
            | (None, None) \<Rightarrow> True
            | _ \<Rightarrow> False))"

definition INET6_ADDRSTRLEN :: nat where "INET6_ADDRSTRLEN = 46"

definition shr_ipv6_is_link_local :: "inet \<Rightarrow> string option \<Rightarrow> bool" where
  "shr_ipv6_is_link_local net addr =
     (case addr of
        None \<Rightarrow> False
      | Some a \<Rightarrow>
          (let host = takeWhile (\<lambda>c. c \<noteq> PCT) a
           in if length host \<ge> INET6_ADDRSTRLEN then False
              else (case pton6 net host of None \<Rightarrow> False | Some in6 \<Rightarrow> linklocal in6)))"

text \<open>An interface list, as \<open>getifaddrs\<close> returns it; an entry may have no address.\<close>

record ifaddr =
  ifa_name :: string
  ifa_addr :: "sockaddr_any option"

fun iface_matching_loop :: "sockaddr_any \<Rightarrow> ifaddr list \<Rightarrow> string option" where
  "iface_matching_loop sa [] = None"
| "iface_matching_loop sa (it # rest) =
     (case ifa_addr it of
        None \<Rightarrow> iface_matching_loop sa rest
      | Some x \<Rightarrow>
          (case sockaddr_copy x of
             None \<Rightarrow> iface_matching_loop sa rest
           | Some ifaddr \<Rightarrow> if sockaddrs_eq sa ifaddr then Some (ifa_name it) else iface_matching_loop sa rest))"

definition shr_iface_matching_addr :: "inet \<Rightarrow> bool \<Rightarrow> ifaddr list \<Rightarrow> string option \<Rightarrow> string option" where
  "shr_iface_matching_addr net mem iface_list addr =
     (case addr of
        None \<Rightarrow> None
      | Some a \<Rightarrow> (case parse_numeric_addr net mem a of Inl e \<Rightarrow> None | Inr sa \<Rightarrow> iface_matching_loop sa iface_list))"

fun sa_family :: "sockaddr_any \<Rightarrow> nat" where
  "sa_family (In4 a) = 2"
| "sa_family (In6 a s) = 10"
| "sa_family OtherFamily = 17"

fun iface_primary_loop :: "string \<Rightarrow> sockaddr_any \<Rightarrow> ifaddr list \<Rightarrow> bool" where
  "iface_primary_loop iface sa [] = False"
| "iface_primary_loop iface sa (it # rest) =
     (if iface \<noteq> ifa_name it then iface_primary_loop iface sa rest
      else (case ifa_addr it of
              None \<Rightarrow> iface_primary_loop iface sa rest
            | Some x \<Rightarrow>
                if sa_family x = sa_family sa
                then (case sockaddr_copy x of None \<Rightarrow> False | Some ifaddr \<Rightarrow> sockaddrs_eq sa ifaddr)
                else iface_primary_loop iface sa rest))"

definition shr_iface_primary_addr_matches ::
  "inet \<Rightarrow> bool \<Rightarrow> ifaddr list \<Rightarrow> string \<Rightarrow> string option \<Rightarrow> bool" where
  "shr_iface_primary_addr_matches net mem iface_list iface addr =
     (case addr of
        None \<Rightarrow> False
      | Some a \<Rightarrow> (case parse_numeric_addr net mem a of Inl e \<Rightarrow> False | Inr sa \<Rightarrow> iface_primary_loop iface sa iface_list))"

section \<open>What the C library promises\<close>

text \<open>\<open>inet_pton\<close> yields 4 or 16 bytes; \<open>inet_ntop\<close> writes an address in the notation \<open>inet_pton\<close>
  reads, in hexadecimal digits, dots and colons, within \<open>INET6_ADDRSTRLEN\<close>, and an IPv6 address with
  a colon, so that it is no IPv4 address.\<close>

definition addr_char :: "char \<Rightarrow> bool" where
  "addr_char c \<longleftrightarrow> isxdigit c \<or> c = CHR ''.'' \<or> c = CHR '':''"

definition inet_ok :: "inet \<Rightarrow> bool" where
  "inet_ok net \<longleftrightarrow>
     (\<forall>s a. pton4 net s = Some a \<longrightarrow> length a = 4) \<and> (\<forall>s a. pton6 net s = Some a \<longrightarrow> length a = 16) \<and>
     (\<forall>a. length a = 4 \<longrightarrow> (\<exists>s. ntop4 net a = Some s \<and> pton4 net s = Some a \<and> s \<noteq> [] \<and> list_all addr_char s \<and>
        length s < INET6_ADDRSTRLEN)) \<and>
     (\<forall>r a. pton6 net r = Some a \<longrightarrow> (\<exists>s. ntop6 net a = Some s \<and> pton6 net s = Some a \<and> pton4 net s = None \<and>
        s \<noteq> [] \<and> list_all addr_char s \<and> length s < INET6_ADDRSTRLEN))"

lemma inet_okD:
  assumes "inet_ok net"
  shows "pton4 net s = Some a \<Longrightarrow> length a = 4" "pton6 net s = Some a \<Longrightarrow> length a = 16"
    "length a = 4 \<Longrightarrow> \<exists>s. ntop4 net a = Some s \<and> pton4 net s = Some a \<and> s \<noteq> [] \<and> list_all addr_char s \<and>
      length s < INET6_ADDRSTRLEN"
    "pton6 net r = Some a \<Longrightarrow> \<exists>s. ntop6 net a = Some s \<and> pton6 net s = Some a \<and> pton4 net s = None \<and>
      s \<noteq> [] \<and> list_all addr_char s \<and> length s < INET6_ADDRSTRLEN"
  using assms unfolding inet_ok_def by blast+

section \<open>Comparison\<close>

text \<open>The address a string denotes, as 16 bytes.  RFC 4291: an IPv4 address as its IPv4-mapped IPv6 address;
  RFC 4007: an IPv6 address may be followed by \<open>%\<close> and a zone, which says on which link the
  address is meant and is no part of it.\<close>

inductive denotes :: "inet \<Rightarrow> string \<Rightarrow> bytes \<Rightarrow> bool" for net where
  ipv4: "pton4 net s = Some a \<Longrightarrow> denotes net s (replicate 10 0 @ [0xff, 0xff] @ a)"
| ipv6: "pton6 net s = Some a \<Longrightarrow> PCT \<notin> set s \<Longrightarrow> denotes net s a"
| zoned: "pton6 net s = Some a \<Longrightarrow> PCT \<notin> set s \<Longrightarrow> denotes net (s @ PCT # zone) a"

text \<open>\<open>inet_pton\<close> reads dotted decimals as IPv4 only: such a string is no IPv6 address, and has no \<open>%\<close>.\<close>

definition inet_apart :: "inet \<Rightarrow> bool" where
  "inet_apart net \<longleftrightarrow> (\<forall>s. pton4 net s \<noteq> None \<longrightarrow> pton6 net s = None \<and> PCT \<notin> set s)"

text \<open>The 16 bytes of a parsed address.\<close>

fun as_ipv6 :: "sockaddr_any \<Rightarrow> bytes option" where
  "as_ipv6 (In4 a) = Some (replicate 10 0 @ [0xff, 0xff] @ a)"
| "as_ipv6 (In6 a s) = Some a"
| "as_ipv6 OtherFamily = None"

lemma v4mapped_iff: "v4mapped b \<and> a = drop 12 b \<longleftrightarrow> b = replicate 10 0 @ [0xff, 0xff] @ a"
proof
  assume "v4mapped b \<and> a = drop 12 b"
  then show "b = replicate 10 0 @ [0xff, 0xff] @ a"
    using append_take_drop_id [of 12 b] by (simp add: v4mapped_def)
next
  assume "b = replicate 10 0 @ [0xff, 0xff] @ a"
  then show "v4mapped b \<and> a = drop 12 b" by (simp add: v4mapped_def)
qed

lemma sockaddrs_eq_iff: "sockaddrs_eq a b \<longleftrightarrow> as_ipv6 a = as_ipv6 b \<and> as_ipv6 a \<noteq> None"
  by (cases "(a, b)" rule: sockaddrs_eq.cases) (auto simp: v4mapped_iff)

lemma host_part:
  assumes "PCT \<notin> set h"
  shows "takeWhile (\<lambda>c. c \<noteq> PCT) h = h" "takeWhile (\<lambda>c. c \<noteq> PCT) (h @ PCT # z) = h"
  using assms by (metis (mono_tags, lifting) takeWhile_eq_all_conv, metis (mono_tags, lifting) append_Nil2 takeWhile.simps(2) takeWhile_append2)

lemma zone_cases:
  "s = takeWhile (\<lambda>c. c \<noteq> PCT) s \<or> (\<exists>z. s = takeWhile (\<lambda>c. c \<noteq> PCT) s @ PCT # z)" "PCT \<notin> set (takeWhile (\<lambda>c. c \<noteq> PCT) s)"
proof -
  show "PCT \<notin> set (takeWhile (\<lambda>c. c \<noteq> PCT) s)" by (auto dest: set_takeWhileD)
  show "s = takeWhile (\<lambda>c. c \<noteq> PCT) s \<or> (\<exists>z. s = takeWhile (\<lambda>c. c \<noteq> PCT) s @ PCT # z)"
    by (induction s) auto
qed

text \<open>The parser reads what a string denotes.\<close>

lemma parse_denotes:
  assumes "inet_apart net"
  shows "denotes net s a \<longleftrightarrow> (\<exists>sa. parse_numeric_addr net True s = Inr sa \<and> as_ipv6 sa = Some a)"
proof
  assume "denotes net s a"
  then show "\<exists>sa. parse_numeric_addr net True s = Inr sa \<and> as_ipv6 sa = Some a"
  proof cases
    case ipv6
    then have "pton4 net s = None" using assms by (cases "pton4 net s") (auto simp: inet_apart_def)
    then show ?thesis using ipv6(1) by (simp add: parse_numeric_addr_def Let_def host_part(1) [OF ipv6(2)])
  next
    case (zoned h z)
    then have "pton4 net s = None" using assms by (cases "pton4 net s") (auto simp: inet_apart_def)
    then show ?thesis using zoned host_part(2) by (simp add: parse_numeric_addr_def Let_def)
  qed (simp add: parse_numeric_addr_def)
next
  assume "\<exists>sa. parse_numeric_addr net True s = Inr sa \<and> as_ipv6 sa = Some a"
  then consider b where "pton4 net s = Some b" "a = replicate 10 0 @ [0xff, 0xff] @ b"
    | "pton6 net (takeWhile (\<lambda>c. c \<noteq> PCT) s) = Some a"
    by (auto simp: parse_numeric_addr_def Let_def split: option.splits)
  then show "denotes net s a"
  proof cases
    case 1
    then show ?thesis using denotes.ipv4 by blast
  next
    case 2
    then show ?thesis using zone_cases [of s] denotes.ipv6 denotes.zoned by metis
  qed
qed

section \<open>Properties\<close>

text \<open>C32: With memory, \<open>shr_ipaddrs_eq\<close> says that two addresses are equal exactly when the two pointers are the
  same (also for a string that is no address), both are missing, or both strings denote the same IP
  address, an IPv4 address being the same as its IPv4-mapped IPv6 form however either is spelled.
  The zone of an IPv6 address takes no part: \<open>fe80::1%eth0\<close> and \<open>fe80::1%eth1\<close> compare equal.
  So the comparison is symmetric, although the code compares the four combinations of families by four
  different rules.\<close>

theorem ipaddrs_eq_same_address:
  assumes "inet_apart net"
  shows "shr_ipaddrs_eq net True same x y \<longleftrightarrow>
    same \<or> (x = None \<and> y = None) \<or> (\<exists>a b d. x = Some a \<and> y = Some b \<and> denotes net a d \<and> denotes net b d)"
proof -
  have "shr_ipaddrs_eq net True False (Some a) (Some b) \<longleftrightarrow> (\<exists>d. denotes net a d \<and> denotes net b d)" for a b
    unfolding parse_denotes [OF assms] by (auto simp: shr_ipaddrs_eq_def sockaddrs_eq_iff split: sum.splits)
  then show ?thesis by (cases x; cases y) (auto simp: shr_ipaddrs_eq_def)
qed

definition two_addrs :: inet where
  "two_addrs = \<lparr>pton4 = [''10.0.0.1'' \<mapsto> [10, 0, 0, 1], ''10.0.0.2'' \<mapsto> [10, 0, 0, 2]],
     pton6 = [''::ffff:10.0.0.1'' \<mapsto> replicate 10 0 @ [0xff, 0xff, 10, 0, 0, 1]],
     ntop4 = (\<lambda>_. None), ntop6 = (\<lambda>_. None), if_nametoindex = (\<lambda>_. 0)\<rparr>"

theorem ipaddrs_eq_same_address_witness:
  "shr_ipaddrs_eq two_addrs True False (Some ''10.0.0.1'') (Some ''::ffff:10.0.0.1%eth0'') \<and>
   \<not> shr_ipaddrs_eq two_addrs True False (Some ''10.0.0.2'') (Some ''::ffff:10.0.0.1'')"
proof -
  have ap: "inet_apart two_addrs" by (simp add: inet_apart_def two_addrs_def PCT_def)
  have "denotes two_addrs ''10.0.0.1'' (replicate 10 0 @ [0xff, 0xff] @ [10, 0, 0, 1])"
    by (rule denotes.ipv4) (simp add: two_addrs_def)
  moreover have "denotes two_addrs (''::ffff:10.0.0.1'' @ PCT # ''eth0'') (replicate 10 0 @ [0xff, 0xff] @ [10, 0, 0, 1])"
    by (rule denotes.zoned) (simp_all add: two_addrs_def PCT_def)
  moreover have "\<not> (denotes two_addrs ''10.0.0.2'' d \<and> denotes two_addrs ''::ffff:10.0.0.1'' d)" for d
    unfolding parse_denotes [OF ap] by (auto simp: parse_numeric_addr_def Let_def PCT_def two_addrs_def)
  ultimately show ?thesis unfolding ipaddrs_eq_same_address [OF ap] by (auto simp: PCT_def)
qed

text \<open>The scope takes no part in the comparison: a link-local address on one interface equals the same
  address on any other.\<close>

theorem ipaddrs_eq_ignores_scope:
  assumes "pton6 net h = Some a" "PCT \<notin> set h" "pton4 net (h @ PCT # s) = None" "pton4 net (h @ PCT # s') = None"
  shows "shr_ipaddrs_eq net True False (Some (h @ PCT # s)) (Some (h @ PCT # s'))"
  using assms host_part(2) [OF assms(2)] by (simp add: shr_ipaddrs_eq_def parse_numeric_addr_def Let_def)

text \<open>An interface found for an address has that address, and no earlier interface has it.\<close>

lemma iface_matching_first:
  "iface_matching_loop sa xs = Some n \<Longrightarrow>
   \<exists>ys it zs x. xs = ys @ it # zs \<and> n = ifa_name it \<and> ifa_addr it = Some x \<and> sockaddrs_eq sa x \<and>
     (\<forall>y \<in> set ys. \<forall>z. ifa_addr y = Some z \<longrightarrow> \<not> sockaddrs_eq sa z)"
proof (induction xs)
  case (Cons it xs)
  show ?case
  proof (cases "\<exists>x. ifa_addr it = Some x \<and> sockaddrs_eq sa x")
    case True
    then obtain x where x: "ifa_addr it = Some x" "sockaddrs_eq sa x" by blast
    then have "x \<noteq> OtherFamily" by (cases sa) auto
    then have "n = ifa_name it" using Cons.prems x by (simp add: sockaddr_copy_def)
    then show ?thesis using x by (intro exI [of _ "[]"] exI [of _ it] exI [of _ xs]) auto
  next
    case False
    then have "iface_matching_loop sa xs = Some n"
      using Cons.prems by (auto simp: sockaddr_copy_def split: option.splits if_splits)
    then obtain ys it' zs x where "xs = ys @ it' # zs" "n = ifa_name it'" "ifa_addr it' = Some x" "sockaddrs_eq sa x"
      "\<forall>y \<in> set ys. \<forall>z. ifa_addr y = Some z \<longrightarrow> \<not> sockaddrs_eq sa z" using Cons.IH by blast
    then show ?thesis using False by (intro exI [of _ "it # ys"] exI [of _ it'] exI [of _ zs] exI [of _ x]) auto
  qed
qed simp

end
