(* ===== verification/Hex.thy ===== *)
theory Hex
  imports Prelude
begin

text \<open>
  Hexadecimal text, \<open>shared/hex-util.c\<close>: the printer of a byte buffer and the reader that
  turns pairs of digits, counted from the end of the string, into characters.  The reader's
  loop fills its buffer from the last position to the first; the lemmas show that it computes
  the left-to-right pairing of the string, padded with a zero when its length is odd.
\<close>

section \<open>Model\<close>

definition shr_hex_to_int :: "char \<Rightarrow> int" where
  "shr_hex_to_int c =
     (if CHR ''0'' \<le> c \<and> c \<le> CHR ''9'' then int (ord c) - int (ord (CHR ''0''))
      else if CHR ''A'' \<le> c \<and> c \<le> CHR ''F'' then 10 + (int (ord c) - int (ord (CHR ''A'')))
      else if CHR ''a'' \<le> c \<and> c \<le> CHR ''f'' then 10 + (int (ord c) - int (ord (CHR ''a'')))
      else - 1)"

text \<open>The loop of \<open>shr_hex_to_ascii\<close>; the fourth argument is \<open>i + 1\<close>.  None is the exit
  through \<open>free(text)\<close>.\<close>

fun hex_ascii_loop :: "string \<Rightarrow> bool \<Rightarrow> nat \<Rightarrow> nat \<Rightarrow> char list \<Rightarrow> char list option" where
  "hex_ascii_loop hex odd_hex_count last_index 0 buf = Some buf"
| "hex_ascii_loop hex odd_hex_count last_index (Suc i) buf =
     (if (last_index - i) mod 2 \<noteq> 0 then
        (let hi = shr_hex_to_int (cget hex i); lo = shr_hex_to_int (cget hex (i + 1))
         in if hi < 0 \<or> lo < 0 then None
            else hex_ascii_loop hex odd_hex_count last_index i
              (buf[(if odd_hex_count then i div 2 + 1 else i div 2) := char_of (nat (16 * hi + lo))]))
      else if i = 0 then
        (let d = shr_hex_to_int (cget hex 0)
         in if d < 0 then None
            else hex_ascii_loop hex odd_hex_count last_index i (buf[0 := char_of (nat d)]))
      else hex_ascii_loop hex odd_hex_count last_index i buf)"

text \<open>\<open>fresh\<close> is the content of the allocated buffer, None when \<open>malloc\<close> fails; the result is
  the buffer with its terminating NUL.\<close>

definition shr_hex_to_ascii :: "(nat \<Rightarrow> char list option) \<Rightarrow> string \<Rightarrow> char list option" where
  "shr_hex_to_ascii fresh hex =
     (let hex_length = length hex
      in if hex_length > 0 then
           (let odd_hex_count = (hex_length mod 2 = 1);
                symbol_count = (if odd_hex_count then hex_length div 2 + 1 else hex_length div 2)
            in case fresh (symbol_count + 1) of None \<Rightarrow> None
               | Some buf \<Rightarrow>
                   (case hex_ascii_loop hex odd_hex_count (hex_length - 1) hex_length buf of
                      None \<Rightarrow> None
                    | Some t \<Rightarrow> Some (t[symbol_count := NUL])))
         else None)"

definition SHR_HEX_UPPER :: u32 where "SHR_HEX_UPPER = 1"
definition SHR_HEX_REVERSE :: u32 where "SHR_HEX_REVERSE = 2"

definition hex_digits :: "u32 \<Rightarrow> string" where
  "hex_digits flags = (if flags AND SHR_HEX_UPPER \<noteq> 0 then ''0123456789ABCDEF''
                       else ''0123456789abcdef'')"

function bin_to_hex_loop :: "u32 \<Rightarrow> bytes \<Rightarrow> nat \<Rightarrow> nat \<Rightarrow> char list \<Rightarrow> char list" where
  "bin_to_hex_loop flags p len i dst =
     (if i < len then
        (let b = (if flags AND SHR_HEX_REVERSE \<noteq> 0 then p ! (len - 1 - i) else p ! i)
         in bin_to_hex_loop flags p len (i + 1)
              (dst[2 * i := hex_digits flags ! unat (drop_bit 4 b),
                   2 * i + 1 := hex_digits flags ! unat (b AND 0xf)]))
      else dst)"
  by pat_completeness auto
termination by (relation "measure (\<lambda>(flags, p, len, i, dst). len - i)") auto

declare bin_to_hex_loop.simps [simp del]

definition shr_bin_to_hex :: "char list \<Rightarrow> nat \<Rightarrow> bytes \<Rightarrow> nat \<Rightarrow> u32 \<Rightarrow> char list \<times> nat res" where
  "shr_bin_to_hex dst sz src len flags =
     (if sz < 2 * len + 1 then ((if sz \<noteq> 0 then dst[0 := NUL] else dst), Inl E2BIG)
      else ((bin_to_hex_loop flags src len 0 dst)[2 * len := NUL], Inr (2 * len)))"

section \<open>Reference: pairs from the left\<close>

definition hexpair :: "char \<Rightarrow> char \<Rightarrow> char" where
  "hexpair a b = char_of (nat (16 * shr_hex_to_int a + shr_hex_to_int b))"

fun unhex :: "string \<Rightarrow> string" where
  "unhex (a # b # r) = hexpair a b # unhex r"
| "unhex _ = []"

definition pad_even :: "string \<Rightarrow> string" where
  "pad_even hex = (if odd (length hex) then CHR ''0'' # hex else hex)"

lemma hex_to_int_nonneg: "shr_hex_to_int c \<ge> 0 \<longleftrightarrow> isxdigit c"
  by (auto simp: shr_hex_to_int_def isxdigit_def isdigit_def char_le_iff)

lemma hex_to_int_neg: "shr_hex_to_int c < 0 \<longleftrightarrow> \<not> isxdigit c"
  using hex_to_int_nonneg [of c] by linarith

lemma unhex_append: "even (length a) \<Longrightarrow> unhex (a @ b) = unhex a @ unhex b"
  by (induction a rule: unhex.induct) auto

lemma length_unhex: "length (unhex s) = length s div 2"
  by (induction s rule: unhex.induct) auto

text \<open>Two steps of the loop write one symbol.\<close>

lemma hex_loop_even:
  assumes "2 * m \<le> length hex" "even (length hex)" "length hex \<noteq> 0" "m \<le> length buf"
  shows "hex_ascii_loop hex False (length hex - 1) (2 * m) buf =
    (if list_all isxdigit (take (2 * m) hex) then Some (unhex (take (2 * m) hex) @ drop m buf)
     else None)"
  using assms
proof (induction m arbitrary: buf)
  case (Suc m)
  let ?n = "length hex - 1"
  have par: "(?n - Suc (2 * m)) mod 2 = 0" "(?n - 2 * m) mod 2 = 1"
    using Suc.prems by (presburger, presburger)
  have t: "take (2 * Suc m) hex = take (2 * m) hex @ [hex ! (2 * m), hex ! (2 * m + 1)]"
    using Suc.prems by (simp add: take_Suc_conv_app_nth)
  have "hex_ascii_loop hex False ?n (2 * Suc m) buf =
    (if isxdigit (hex ! (2 * m)) \<and> isxdigit (hex ! (2 * m + 1))
     then hex_ascii_loop hex False ?n (2 * m)
       (buf[m := hexpair (hex ! (2 * m)) (hex ! (2 * m + 1))]) else None)"
    using Suc.prems par by (simp add: Let_def hex_to_int_neg cget_def hexpair_def)
  also have "\<dots> = (if list_all isxdigit (take (2 * Suc m) hex)
     then Some (unhex (take (2 * Suc m) hex) @ drop (Suc m) buf) else None)"
    unfolding t using Suc.prems
      Suc.IH [of "buf[m := hexpair (hex ! (2 * m)) (hex ! (2 * m + 1))]"]
      Cons_nth_drop_Suc [of m "buf[m := hexpair (hex ! (2 * m)) (hex ! (2 * m + 1))]"]
    by (simp add: unhex_append)
  finally show ?case .
qed simp

lemma hex_loop_odd:
  assumes "2 * m + 1 \<le> length hex" "odd (length hex)" "Suc m \<le> length buf"
  shows "hex_ascii_loop hex True (length hex - 1) (2 * m + 1) buf =
    (if list_all isxdigit (take (2 * m + 1) hex)
     then Some (unhex (CHR ''0'' # take (2 * m + 1) hex) @ drop (Suc m) buf) else None)"
  using assms
proof (induction m arbitrary: buf)
  case 0
  obtain c r where hex: "hex = c # r" using "0.prems" by (cases hex) auto
  obtain d q where buf: "buf = d # q" using "0.prems" by (cases buf) auto
  have "length r mod 2 = 0" using "0.prems" hex by simp
  then show ?case using hex buf
    by (simp add: Let_def hex_to_int_neg hexpair_def) (simp add: shr_hex_to_int_def)
next
  case (Suc m)
  let ?n = "length hex - 1"
  have par: "(?n - Suc (Suc (2 * m))) mod 2 = 0" "(?n - Suc (2 * m)) mod 2 = 1"
    using Suc.prems by (presburger, presburger)
  have t: "take (2 * Suc m + 1) hex = take (2 * m + 1) hex @ [hex ! (2 * m + 1), hex ! (2 * m + 2)]"
    using Suc.prems by (simp add: take_Suc_conv_app_nth)
  have "hex_ascii_loop hex True ?n (2 * Suc m + 1) buf =
    (if isxdigit (hex ! (2 * m + 1)) \<and> isxdigit (hex ! (2 * m + 2))
     then hex_ascii_loop hex True ?n (2 * m + 1)
       (buf[Suc m := hexpair (hex ! (2 * m + 1)) (hex ! (2 * m + 2))]) else None)"
    using Suc.prems par by (simp add: Let_def hex_to_int_neg cget_def hexpair_def)
  also have "\<dots> = (if list_all isxdigit (take (2 * Suc m + 1) hex)
     then Some (unhex (CHR ''0'' # take (2 * Suc m + 1) hex) @ drop (Suc (Suc m)) buf) else None)"
  proof -
    let ?v = "hexpair (hex ! (2 * m + 1)) (hex ! (2 * m + 2))"
    have u: "unhex (CHR ''0'' # take (2 * m + 1) hex @ [hex ! (2 * m + 1), hex ! (2 * m + 2)]) =
        unhex (CHR ''0'' # take (2 * m + 1) hex) @ [?v]"
      using Suc.prems
        unhex_append [of "CHR ''0'' # take (2 * m + 1) hex" "[hex ! (2 * m + 1), hex ! (2 * m + 2)]"]
      by simp
    have d: "drop (Suc m) (buf[Suc m := ?v]) = ?v # drop (Suc (Suc m)) buf"
      using Suc.prems Cons_nth_drop_Suc [of "Suc m" "buf[Suc m := ?v]"] by simp
    have ih: "hex_ascii_loop hex True ?n (2 * m + 1) (buf[Suc m := ?v]) =
        (if list_all isxdigit (take (2 * m + 1) hex)
         then Some (unhex (CHR ''0'' # take (2 * m + 1) hex) @ ?v # drop (Suc (Suc m)) buf) else None)"
      using Suc.prems Suc.IH [of "buf[Suc m := ?v]"] unfolding d by simp
    show ?thesis unfolding t ih u by simp
  qed
  finally show ?case .
qed

lemma hex_to_ascii_exact:
  assumes "\<And>n. fresh n = None \<or> (\<exists>t. fresh n = Some t \<and> length t = n)"
  shows "shr_hex_to_ascii fresh hex =
    (if hex = [] \<or> fresh (length (pad_even hex) div 2 + 1) = None \<or> \<not> list_all isxdigit hex then None
     else Some (unhex (pad_even hex) @ [NUL]))"
proof (cases "hex = []")
  case False
  let ?sc = "length (pad_even hex) div 2"
  have sc: "(if length hex mod 2 = 1 then length hex div 2 + 1 else length hex div 2) = ?sc"
    by (simp add: pad_even_def odd_iff_mod_2_eq_one)
  show ?thesis
  proof (cases "fresh (?sc + 1)")
    case (Some t)
    with assms [of "?sc + 1"] have lt: "length t = ?sc + 1" by auto
    then have z: "drop ?sc t = [t ! ?sc]"
      using Cons_nth_drop_Suc [of ?sc t] by simp
    have "hex_ascii_loop hex (length hex mod 2 = 1) (length hex - 1) (length hex) t =
      (if list_all isxdigit hex then Some (unhex (pad_even hex) @ drop ?sc t) else None)"
    proof (cases "odd (length hex)")
      case True
      then obtain m where "length hex = 2 * m + 1" by (auto elim: oddE)
      then show ?thesis using hex_loop_odd [of m hex t] True lt
        by (simp add: pad_even_def odd_iff_mod_2_eq_one)
    next
      case even: False
      then obtain m where "length hex = 2 * m" by (auto elim: evenE)
      then show ?thesis using hex_loop_even [of m hex t] even False lt
        by (cases m) (simp_all add: pad_even_def)
    qed
    then show ?thesis using False Some sc z
      by (auto simp: shr_hex_to_ascii_def Let_def length_unhex list_update_append)
  qed (use False sc in \<open>simp add: shr_hex_to_ascii_def Let_def\<close>)
qed (simp add: shr_hex_to_ascii_def)

section \<open>Printing\<close>

definition hex2 :: "u32 \<Rightarrow> u8 \<Rightarrow> string" where
  "hex2 flags b = [hex_digits flags ! unat (drop_bit 4 b), hex_digits flags ! unat (b AND 0xf)]"

definition hex_text :: "u32 \<Rightarrow> bytes \<Rightarrow> string" where
  "hex_text flags bs = concat (map (hex2 flags) (if flags AND SHR_HEX_REVERSE \<noteq> 0 then rev bs else bs))"

lemma length_hex_text: "length (hex_text flags bs) = 2 * length bs"
  by (simp add: hex_text_def length_concat comp_def hex2_def sum_list_triv)

lemma bin_to_hex_loop_text:
  assumes "2 * length bs \<le> length dst" "i \<le> length bs"
  shows "bin_to_hex_loop flags bs (length bs) i dst =
    take (2 * i) dst @ concat (map (hex2 flags)
      (drop i (if flags AND SHR_HEX_REVERSE \<noteq> 0 then rev bs else bs))) @ drop (2 * length bs) dst"
  using assms
proof (induction "length bs - i" arbitrary: i dst)
  case 0
  then show ?case by (simp add: bin_to_hex_loop.simps)
next
  case (Suc n)
  let ?bs = "if flags AND SHR_HEX_REVERSE \<noteq> 0 then rev bs else bs"
  let ?dst = "dst[2 * i := hex_digits flags ! unat (drop_bit 4 (?bs ! i)),
                  2 * i + 1 := hex_digits flags ! unat (?bs ! i AND 0xf)]"
  have i: "i < length bs" using Suc.hyps by simp
  have "bin_to_hex_loop flags bs (length bs) i dst =
      bin_to_hex_loop flags bs (length bs) (i + 1) ?dst"
    using i by (subst bin_to_hex_loop.simps) (auto simp: Let_def rev_nth)
  also have "\<dots> = take (2 * (i + 1)) ?dst @ concat (map (hex2 flags) (drop (i + 1) ?bs)) @
      drop (2 * length bs) ?dst"
    using Suc.hyps Suc.prems i by (intro Suc.hyps(1)) auto
  also have "take (2 * (i + 1)) ?dst = take (2 * i) dst @ hex2 flags (?bs ! i)"
    using i Suc.prems by (simp add: take_Suc_conv_app_nth hex2_def nth_list_update)
  also have "drop (2 * length bs) ?dst = drop (2 * length bs) dst"
    using i by (simp add: drop_update_cancel)
  finally have "bin_to_hex_loop flags bs (length bs) i dst =
      take (2 * i) dst @ concat (map (hex2 flags) (?bs ! i # drop (i + 1) ?bs)) @
      drop (2 * length bs) dst" by simp
  moreover have "?bs ! i # drop (i + 1) ?bs = drop i ?bs"
    using i Cons_nth_drop_Suc [of i ?bs] by simp
  ultimately show ?case by (simp only:)
qed

lemma hex_digit_table:
  "n < 16 \<Longrightarrow> shr_hex_to_int (hex_digits flags ! n) = int n \<and> isxdigit (hex_digits flags ! n)"
proof -
  have "list_all (\<lambda>n. shr_hex_to_int (''0123456789ABCDEF'' ! n) = int n) [0..<16]"
    "list_all (\<lambda>n. shr_hex_to_int (''0123456789abcdef'' ! n) = int n) [0..<16]"
    by (simp_all add: upt_rec shr_hex_to_int_def)
  then have d: "n < 16 \<Longrightarrow> shr_hex_to_int (hex_digits flags ! n) = int n"
    by (auto simp: list_all_iff hex_digits_def)
  then show "n < 16 \<Longrightarrow> ?thesis" using hex_to_int_nonneg [of "hex_digits flags ! n"] by simp
qed

lemma nibbles: "unat (drop_bit 4 (b :: u8)) = unat b div 16" "unat (b AND 0xf) = unat b mod 16"
proof -
  have "b AND 0xf = take_bit 4 b" by (simp add: take_bit_eq_mask mask_eq_exp_minus_1)
  then show "unat (b AND 0xf) = unat b mod 16"
    by (simp only: unsigned_take_bit_eq) (simp add: take_bit_eq_mod)
  show "unat (drop_bit 4 b) = unat b div 16"
    using unat_lt_8 [of b] by (simp only: unsigned_drop_bit_eq)
      (simp add: drop_bit_eq_div take_bit_nat_eq_self)
qed

lemma unhex_hex2:
  "unhex (concat (map (hex2 flags) bs)) = map (\<lambda>b. char_of (unat b)) bs \<and>
   list_all isxdigit (concat (map (hex2 flags) bs))"
proof (induction bs)
  case (Cons b bs)
  have l: "unat b div 16 < 16" "unat b mod 16 < 16"
    using unat_lt_8 [of b] by (simp_all add: less_mult_imp_div_less)
  have "hexpair (hex_digits flags ! (unat b div 16)) (hex_digits flags ! (unat b mod 16)) =
      char_of (unat b)"
    using hex_digit_table [OF l(1), of flags] hex_digit_table [OF l(2), of flags]
    by (simp add: hexpair_def nat_add_distrib nat_mult_distrib)
  then show ?case using Cons hex_digit_table [OF l(1), of flags] hex_digit_table [OF l(2), of flags]
    by (simp add: hex2_def nibbles)
qed simp

lemma bin_to_hex_exact:
  assumes "sz \<le> length dst"
  shows "shr_bin_to_hex dst sz bs (length bs) flags =
    (if sz < 2 * length bs + 1 then (if sz = 0 then dst else NUL # drop 1 dst, Inl E2BIG)
     else (hex_text flags bs @ NUL # drop (2 * length bs + 1) dst, Inr (2 * length bs)))"
proof (cases "sz < 2 * length bs + 1")
  case True
  then show ?thesis using assms(1) by (cases dst) (auto simp: shr_bin_to_hex_def)
next
  case False
  then have "drop (2 * length bs) dst = dst ! (2 * length bs) # drop (2 * length bs + 1) dst"
    using assms(1) Cons_nth_drop_Suc [of "2 * length bs" dst] by simp
  then show ?thesis
    using False assms(1) bin_to_hex_loop_text [of bs dst 0 flags] length_hex_text [of flags bs]
    by (simp add: shr_bin_to_hex_def hex_text_def [symmetric] list_update_append)
qed

lemma hex_to_ascii_text:
  assumes "bs \<noteq> []" and "\<And>n. fresh n = Some (replicate n NUL)"
  shows "shr_hex_to_ascii fresh (hex_text flags bs) =
    Some (map (\<lambda>b. char_of (unat b)) (if flags AND SHR_HEX_REVERSE \<noteq> 0 then rev bs else bs) @ [NUL])"
proof -
  have "even (length (hex_text flags bs))" "hex_text flags bs \<noteq> []"
    using length_hex_text [of flags bs] assms(1) by auto
  then show ?thesis
    using unhex_hex2 [of flags "if flags AND SHR_HEX_REVERSE \<noteq> 0 then rev bs else bs"]
      hex_to_ascii_exact [of fresh "hex_text flags bs"] assms(2)
    by (simp add: pad_even_def hex_text_def)
qed

text \<open>\<open>shr_bin_to_hex\<close> never writes outside the size it is given: with too little room it
  returns -E2BIG with an empty string and touches nothing else; with enough room it writes the
  two digits of every byte (last byte first on request), a NUL, and leaves the rest of the buffer
  alone.  \<open>shr_hex_to_ascii\<close> turns that text back into the bytes.\<close>

theorem hex_roundtrip:
  assumes "sz \<le> length dst" "bs \<noteq> []"
    and "\<And>n. fresh n = Some (replicate n NUL)"
  shows "shr_bin_to_hex dst sz bs (length bs) flags =
    (if sz < 2 * length bs + 1 then (if sz = 0 then dst else NUL # drop 1 dst, Inl E2BIG)
     else (hex_text flags bs @ NUL # drop (2 * length bs + 1) dst, Inr (2 * length bs))) \<and>
    shr_hex_to_ascii fresh (hex_text flags bs) =
      Some (map (\<lambda>b. char_of (unat b)) (if flags AND SHR_HEX_REVERSE \<noteq> 0 then rev bs else bs) @ [NUL])"
  using bin_to_hex_exact [OF assms(1)] hex_to_ascii_text [OF assms(2,3)] by blast

theorem hex_roundtrip_witness:
  "shr_hex_to_ascii (\<lambda>n. Some (replicate n NUL)) (hex_text 0 [0x41, 0x62]) = Some [CHR ''A'', CHR ''b'', NUL]
   \<and> shr_bin_to_hex (replicate 6 (CHR ''x'')) 6 [0x41, 0x62] (length [0x41, 0x62::u8]) 0 = (''4162'' @ [NUL, CHR ''x''], Inr 4)"
proof -
  have "char_of (65 :: nat) = CHR ''A''" "char_of (98 :: nat) = CHR ''b''" by code_simp+
  then show ?thesis
    using hex_roundtrip [of 6 "replicate 6 (CHR ''x'')" "[0x41, 0x62]" "\<lambda>n. Some (replicate n NUL)" 0]
  by (simp add: hex_text_def hex2_def hex_digits_def SHR_HEX_UPPER_def SHR_HEX_REVERSE_def nibbles)
qed

end
