(* ===== verification/Nqn.thy ===== *)
theory Nqn
  imports Cstrings Hex
begin

text \<open>
  UUID strings and NVMe qualified names, \<open>shared/uuid-util.c\<close> and \<open>shared/nqn-util.c\<close>: the
  validators every host NQN, subsystem NQN and host id passes, the UUID printer, and the
  normalisation of UUID-based NQNs.  A string argument that may be NULL is an option.
\<close>

section \<open>UUIDs\<close>

text \<open>The inner loop: \<open>n\<close> hexadecimal digits from index \<open>i\<close>.\<close>

fun uuid_digits :: "string \<Rightarrow> nat \<Rightarrow> nat \<Rightarrow> nat option" where
  "uuid_digits str i 0 = Some i"
| "uuid_digits str i (Suc n) =
     (if isxdigit (cget str i) then uuid_digits str (i + 1) n else None)"

text \<open>The outer loop over the groups from number \<open>g\<close> on.\<close>

fun uuid_groups :: "string \<Rightarrow> nat \<Rightarrow> nat \<Rightarrow> nat list \<Rightarrow> bool" where
  "uuid_groups str g i [] = True"
| "uuid_groups str g i (n # groups) =
     (if g \<noteq> 0 \<and> cget str i \<noteq> CHR ''-'' then False
      else case uuid_digits str (if g \<noteq> 0 then i + 1 else i) n of
             None \<Rightarrow> False
           | Some j \<Rightarrow> uuid_groups str (g + 1) j groups)"

definition SHR_UUID_LEN_STRING :: nat where "SHR_UUID_LEN_STRING = 37"

definition shr_uuid_str_valid :: "string option \<Rightarrow> bool" where
  "shr_uuid_str_valid s = (case s of
      None \<Rightarrow> False
    | Some str \<Rightarrow> if length str \<noteq> SHR_UUID_LEN_STRING - 1 then False
                  else uuid_groups str 0 0 [8, 4, 4, 4, 12])"

text \<open>\<open>"%02x"\<close>, and the format string of \<open>shr_uuid_to_string\<close>.\<close>

definition hex02 :: "u8 \<Rightarrow> string" where
  "hex02 b = [hex_digit (unat b div 16), hex_digit (unat b mod 16)]"

definition shr_uuid_to_string :: "bytes \<Rightarrow> string" where
  "shr_uuid_to_string u =
     hex02 (u ! 0) @ hex02 (u ! 1) @ hex02 (u ! 2) @ hex02 (u ! 3) @ ''-'' @
     hex02 (u ! 4) @ hex02 (u ! 5) @ ''-'' @ hex02 (u ! 6) @ hex02 (u ! 7) @ ''-'' @
     hex02 (u ! 8) @ hex02 (u ! 9) @ ''-'' @
     hex02 (u ! 10) @ hex02 (u ! 11) @ hex02 (u ! 12) @ hex02 (u ! 13) @ hex02 (u ! 14) @ hex02 (u ! 15)"

definition shr_fw_to_string :: "char list \<Rightarrow> string" where
  "shr_fw_to_string c = map (\<lambda>d. if CHR ''!'' \<le> d \<and> d \<le> CHR ''~'' then d else CHR ''.'') (take 8 c)"

section \<open>NQNs\<close>

definition NQN_PREFIX :: string where "NQN_PREFIX = ''nqn.''"
definition NQN_UUID_PREFIX :: string where "NQN_UUID_PREFIX = ''nqn.2014-08.org.nvmexpress:uuid:''"
definition NQN_DATE_LEN :: nat where "NQN_DATE_LEN = 7"
definition SHR_NQN_MAX_LEN :: nat where "SHR_NQN_MAX_LEN = 223"

text \<open>\<open>strncmp(s, prefix, strlen(prefix)) == 0\<close>.\<close>

definition has_prefix :: "string \<Rightarrow> string \<Rightarrow> bool" where
  "has_prefix s p \<longleftrightarrow> take (length p) s = p"

definition date_code_valid :: "string \<Rightarrow> bool" where
  "date_code_valid p =
     (if \<not> list_all (\<lambda>i. isdigit (cget p i)) [0, 1, 2, 3] then False
      else if cget p 4 \<noteq> CHR ''-'' \<or> \<not> isdigit (cget p 5) \<or> \<not> isdigit (cget p 6) then False
      else let month = (int (ord (cget p 5)) - 48) * 10 + (int (ord (cget p 6)) - 48)
           in month \<ge> 1 \<and> month \<le> 12)"

definition charset_valid :: "string \<Rightarrow> bool" where
  "charset_valid nqn \<longleftrightarrow> list_all (\<lambda>c. \<not> (ord c < 0x21 \<or> ord c > 0x7e)) nqn"

definition shr_nqn_valid :: "string option \<Rightarrow> bool" where
  "shr_nqn_valid n = (case n of None \<Rightarrow> False | Some nqn \<Rightarrow>
     (let len = length nqn
      in if len > SHR_NQN_MAX_LEN then False
         else if \<not> has_prefix nqn NQN_PREFIX then False
         else if \<not> charset_valid nqn then False
         else if has_prefix nqn NQN_UUID_PREFIX
              then shr_uuid_str_valid (Some (drop (length NQN_UUID_PREFIX) nqn))
         else if len < length NQN_PREFIX + NQN_DATE_LEN + 2 then False
         else let p = drop (length NQN_PREFIX) nqn
              in date_code_valid p \<and> cget p NQN_DATE_LEN = CHR ''.''))"

definition shr_hostid_valid :: "string option \<Rightarrow> bool" where
  "shr_hostid_valid hostid \<longleftrightarrow> shr_uuid_str_valid hostid \<and>
     \<not> shr_streq0 hostid (Some ''00000000-0000-0000-0000-000000000000'')"

definition fold_hex :: "char \<Rightarrow> char" where
  "fold_hex c = (if CHR ''A'' \<le> c \<and> c \<le> CHR ''F'' then char_of (ord c + (97 - 65)) else c)"

text \<open>The string after the call, and the returned flag.\<close>

definition shr_nqn_normalize :: "string option \<Rightarrow> string option \<times> bool" where
  "shr_nqn_normalize n = (case n of None \<Rightarrow> (None, False) | Some nqn \<Rightarrow>
     if \<not> has_prefix nqn NQN_UUID_PREFIX then (Some nqn, False)
     else (Some (take (length NQN_UUID_PREFIX) nqn @
                 map fold_hex (drop (length NQN_UUID_PREFIX) nqn)), True))"

section \<open>The validators\<close>

lemma uuid_digits_Some:
  "uuid_digits str i n = (if \<forall>k<n. isxdigit (cget str (i + k)) then Some (i + n) else None)"
  by (induction n arbitrary: i) (auto simp: less_Suc_eq_0_disj)

definition uuid_shape :: "string \<Rightarrow> bool" where
  "uuid_shape s \<longleftrightarrow> length s = 36 \<and>
     (\<forall>i<36. if i \<in> {8, 13, 18, 23} then s ! i = CHR ''-'' else isxdigit (s ! i))"

lemma all_less_add: "(\<forall>i<m + n. P i) \<longleftrightarrow> (\<forall>i<m. P i) \<and> (\<forall>k<n. P (m + k))" for m n :: nat
  by (metis add_lessD1 le_add_diff_inverse nat_add_left_cancel_less not_le_imp_less trans_less_add1)

lemma all_less_uuid:
  "(\<forall>i<36. P i) \<longleftrightarrow> (\<forall>i<8. P i) \<and> P 8 \<and> (\<forall>k<4. P (9 + k)) \<and> P 13 \<and>
      (\<forall>k<4. P (14 + k)) \<and> P 18 \<and> (\<forall>k<4. P (19 + k)) \<and> P 23 \<and> (\<forall>k<12. P (24 + k))"
  for P :: "nat \<Rightarrow> bool"
  using all_less_add [of 8 28 P] all_less_add [of 1 27 "\<lambda>k. P (8 + k)"]
    all_less_add [of 4 23 "\<lambda>k. P (9 + k)"] all_less_add [of 1 22 "\<lambda>k. P (13 + k)"]
    all_less_add [of 4 18 "\<lambda>k. P (14 + k)"] all_less_add [of 1 17 "\<lambda>k. P (18 + k)"]
    all_less_add [of 4 13 "\<lambda>k. P (19 + k)"] all_less_add [of 1 12 "\<lambda>k. P (23 + k)"]
  by (simp add: add.assoc [symmetric])

lemma uuid_str_valid_shape: "shr_uuid_str_valid (Some s) \<longleftrightarrow> uuid_shape s"
proof (cases "length s = 36")
  case True
  have c: "i < 36 \<Longrightarrow> cget s i = s ! i" for i using True by (simp add: cget_def)
  show ?thesis unfolding uuid_shape_def all_less_uuid using True
    by (auto simp: shr_uuid_str_valid_def SHR_UUID_LEN_STRING_def uuid_digits_Some c)
qed (simp add: shr_uuid_str_valid_def uuid_shape_def SHR_UUID_LEN_STRING_def)

lemma hex_digit_props:
  "n < 16 \<Longrightarrow> isxdigit (hex_digit n) \<and> fold_hex (hex_digit n) = hex_digit n"
proof -
  have "list_all (\<lambda>n. isxdigit (hex_digit n) \<and> fold_hex (hex_digit n) = hex_digit n) [0..<16]"
    by (simp add: upt_rec hex_digit_def fold_hex_def ctype_defs)
  then show "n < 16 \<Longrightarrow> ?thesis" by (auto simp: list_all_iff)
qed

lemma hex02_props:
  "list_all isxdigit (hex02 b)" "map fold_hex (hex02 b) = hex02 b" "length (hex02 b) = 2"
  using hex_digit_props [of "unat b div 16"] hex_digit_props [of "unat b mod 16"] unat_lt_8 [of b]
  by (simp_all add: hex02_def less_mult_imp_div_less)

lemma hex02_nth: "isxdigit (hex02 b ! 0)" "isxdigit (hex02 b ! Suc 0)"
  using hex02_props(1) [of b] by (auto simp: hex02_def)

lemma uuid_to_string_shape: "uuid_shape (shr_uuid_to_string u)"
proof -
  define f g where "f b = hex02 b ! 0" and "g b = hex02 b ! Suc 0" for b
  then have d: "hex02 b = [f b, g b]" "isxdigit (f b)" "isxdigit (g b)" for b
    using hex02_nth [of b] by (simp_all add: hex02_def)
  show ?thesis unfolding uuid_shape_def all_less_uuid
    by (simp add: shr_uuid_to_string_def d numeral_eq_Suc All_less_Suc2)
qed

lemma uuid_to_string_folded: "map fold_hex (shr_uuid_to_string u) = shr_uuid_to_string u"
  by (simp add: shr_uuid_to_string_def hex02_props fold_hex_def)

section \<open>Normalisation\<close>

lemma ord_lt: "ord c < 256" by (rule nat_of_char_less_256)

lemma char_eq_ord: "c = d \<longleftrightarrow> ord c = ord d" by simp

lemma ord_fold_hex: "ord (fold_hex c) = (if 65 \<le> ord c \<and> ord c \<le> 70 then ord c + 32 else ord c)"
  by (simp add: fold_hex_def char_le_iff of_char_of)

lemma ord_tolower: "ord (tolower c) = (if 65 \<le> ord c \<and> ord c \<le> 90 then ord c + 32 else ord c)"
  by (simp add: tolower_def char_le_iff of_char_of)

lemma isxdigit_ord: "isxdigit c \<longleftrightarrow> (48 \<le> ord c \<and> ord c \<le> 57) \<or> (97 \<le> ord c \<and> ord c \<le> 102) \<or>
    (65 \<le> ord c \<and> ord c \<le> 70)"
  by (simp add: isxdigit_def isdigit_iff char_le_iff)

lemma fold_hex_xdigit [simp]: "isxdigit (fold_hex c) \<longleftrightarrow> isxdigit c"
  unfolding isxdigit_ord ord_fold_hex by presburger

lemma fold_hex_dash [simp]: "fold_hex c = CHR ''-'' \<longleftrightarrow> c = CHR ''-''"
proof -
  have "ord (fold_hex c) = 45 \<longleftrightarrow> ord c = 45" unfolding ord_fold_hex by presburger
  then show ?thesis using char_eq_ord [of _ "CHR ''-''"] by simp
qed

lemma fold_hex_idem [simp]: "fold_hex (fold_hex c) = fold_hex c"
  by (rule char_eq_ord [THEN iffD2], unfold ord_fold_hex) presburger

lemma fold_hex_printable [simp]:
  "ord (fold_hex c) < 33 \<or> 126 < ord (fold_hex c) \<longleftrightarrow> ord c < 33 \<or> 126 < ord c"
  unfolding ord_fold_hex by presburger

lemma fold_hex_tolower [simp]: "isxdigit c \<or> c = CHR ''-'' \<Longrightarrow> fold_hex c = tolower c"
proof -
  assume "isxdigit c \<or> c = CHR ''-''"
  then have "ord c \<le> 70 \<or> 90 < ord c" by (auto simp: isxdigit_ord)
  then have "65 \<le> ord c \<and> ord c \<le> 70 \<longleftrightarrow> 65 \<le> ord c \<and> ord c \<le> 90" by linarith
  then have "ord (fold_hex c) = ord (tolower c)"
    unfolding ord_fold_hex ord_tolower by (rule if_cong) (rule refl)+
  then show ?thesis by simp
qed

lemma uuid_shape_fold: "uuid_shape (map fold_hex s) \<longleftrightarrow> uuid_shape s"
proof -
  have "i < length s \<Longrightarrow> (if i \<in> A then map fold_hex s ! i = CHR ''-'' else isxdigit (map fold_hex s ! i)) \<longleftrightarrow>
      (if i \<in> A then s ! i = CHR ''-'' else isxdigit (s ! i))" for i and A :: "nat set"
    by simp
  then show ?thesis unfolding uuid_shape_def length_map by metis
qed

lemma uuid_shape_tolower: "uuid_shape s \<Longrightarrow> map fold_hex s = map tolower s"
proof (rule nth_equalityI)
  fix i assume s: "uuid_shape s" and i: "i < length (map fold_hex s)"
  then have "isxdigit (s ! i) \<or> s ! i = CHR ''-''"
    unfolding uuid_shape_def by (metis length_map)
  with i show "map fold_hex s ! i = map tolower s ! i" by simp
qed simp

lemma nqn_uuid_split:
  "has_prefix n NQN_UUID_PREFIX \<Longrightarrow> n = NQN_UUID_PREFIX @ drop (length NQN_UUID_PREFIX) n"
  unfolding has_prefix_def by (metis append_take_drop_id)

lemma uuid_prefix_facts:
  "has_prefix (NQN_UUID_PREFIX @ r) NQN_UUID_PREFIX" "has_prefix (NQN_UUID_PREFIX @ r) NQN_PREFIX"
  "charset_valid (NQN_UUID_PREFIX @ r) \<longleftrightarrow> charset_valid r"
  "map tolower NQN_UUID_PREFIX = NQN_UUID_PREFIX" "length NQN_UUID_PREFIX = 32"
  by (simp_all add: has_prefix_def NQN_PREFIX_def NQN_UUID_PREFIX_def charset_valid_def tolower_def)

lemma uuid_shape_charset: "uuid_shape s \<Longrightarrow> charset_valid s"
  unfolding charset_valid_def list_all_length
  by (auto simp: uuid_shape_def isxdigit_ord split: if_splits)

lemma nqn_valid_uuid: "shr_nqn_valid (Some (NQN_UUID_PREFIX @ r)) \<longleftrightarrow> uuid_shape r"
proof -
  have "uuid_shape r \<Longrightarrow> length r = 36" by (simp add: uuid_shape_def)
  then show ?thesis using uuid_shape_charset [of r]
    by (auto simp: shr_nqn_valid_def uuid_prefix_facts uuid_str_valid_shape SHR_NQN_MAX_LEN_def Let_def)
qed

text \<open>Normalising an NQN changes only the case of the hexadecimal letters of a UUID-based
  NQN, keeps validity, is idempotent, and yields the same string for two valid UUID-based NQNs
  exactly when they differ only in letter case.\<close>

theorem nqn_normalize_canonical:
  "(\<exists>n' ok. shr_nqn_normalize (Some n) = (Some n', ok) \<and> length n' = length n \<and>
      (ok \<longleftrightarrow> has_prefix n NQN_UUID_PREFIX) \<and> (\<not> ok \<longrightarrow> n' = n) \<and>
      shr_nqn_valid (Some n') = shr_nqn_valid (Some n) \<and>
      shr_nqn_normalize (Some n') = (Some n', ok)) \<and>
   (has_prefix n NQN_UUID_PREFIX \<and> has_prefix m NQN_UUID_PREFIX \<and>
    shr_nqn_valid (Some n) \<and> shr_nqn_valid (Some m) \<longrightarrow>
    (shr_nqn_normalize (Some n) = shr_nqn_normalize (Some m) \<longleftrightarrow> shr_streqcase0 (Some n) (Some m)))"
proof (intro conjI impI)
  show "\<exists>n' ok. shr_nqn_normalize (Some n) = (Some n', ok) \<and> length n' = length n \<and>
      (ok \<longleftrightarrow> has_prefix n NQN_UUID_PREFIX) \<and> (\<not> ok \<longrightarrow> n' = n) \<and>
      shr_nqn_valid (Some n') = shr_nqn_valid (Some n) \<and> shr_nqn_normalize (Some n') = (Some n', ok)"
  proof (cases "has_prefix n NQN_UUID_PREFIX")
    case True
    then obtain r where n: "n = NQN_UUID_PREFIX @ r" using nqn_uuid_split by blast
    show ?thesis
      by (intro exI [of _ "NQN_UUID_PREFIX @ map fold_hex r"] exI [of _ True])
        (simp add: n shr_nqn_normalize_def uuid_prefix_facts nqn_valid_uuid uuid_shape_fold comp_def)
  qed (auto simp: shr_nqn_normalize_def)
  assume a: "has_prefix n NQN_UUID_PREFIX \<and> has_prefix m NQN_UUID_PREFIX \<and>
    shr_nqn_valid (Some n) \<and> shr_nqn_valid (Some m)"
  then obtain r q where "n = NQN_UUID_PREFIX @ r" "m = NQN_UUID_PREFIX @ q"
    using nqn_uuid_split by blast
  with a show "shr_nqn_normalize (Some n) = shr_nqn_normalize (Some m) \<longleftrightarrow>
      shr_streqcase0 (Some n) (Some m)"
    by (simp add: shr_nqn_normalize_def uuid_prefix_facts nqn_valid_uuid uuid_shape_tolower
        shr_streqcase0_def strcasecmp_eq_def)
qed

theorem nqn_normalize_canonical_witness:
  "shr_nqn_normalize (Some (NQN_UUID_PREFIX @ ''ABCDEF01-0000-0000-0000-000000000000'')) =
   shr_nqn_normalize (Some (NQN_UUID_PREFIX @ ''abcdef01-0000-0000-0000-000000000000''))"
proof -
  have "uuid_shape ''ABCDEF01-0000-0000-0000-000000000000''"
    "uuid_shape ''abcdef01-0000-0000-0000-000000000000''"
    unfolding uuid_str_valid_shape [symmetric] by code_simp+
  moreover have "map tolower ''ABCDEF01-0000-0000-0000-000000000000'' =
      map tolower ''abcdef01-0000-0000-0000-000000000000''" by code_simp
  ultimately show ?thesis
    using nqn_normalize_canonical [of "NQN_UUID_PREFIX @ ''ABCDEF01-0000-0000-0000-000000000000''"
        "NQN_UUID_PREFIX @ ''abcdef01-0000-0000-0000-000000000000''"]
    by (simp only: uuid_prefix_facts nqn_valid_uuid shr_streqcase0_def strcasecmp_eq_def
        map_append prod.case option.case simp_thms)
qed

text \<open>A valid NQN is between 13 and 223 characters of printable ASCII without blanks, so it
  can neither break a line nor end a token of a configuration or control file; a UUID printed by
  \<open>shr_uuid_to_string\<close> is a valid UUID string whose NQN is valid and already normal.\<close>

theorem nqn_valid_printable:
  assumes "shr_nqn_valid (Some n)"
  shows "13 \<le> length n \<and> length n \<le> 223 \<and> (\<forall>c\<in>set n. 0x21 \<le> ord c \<and> ord c \<le> 0x7e \<and> \<not> isspace c) \<and>
    take 4 n = ''nqn.'' \<and> shr_uuid_str_valid (Some (shr_uuid_to_string u)) \<and>
    shr_nqn_valid (Some (NQN_UUID_PREFIX @ shr_uuid_to_string u)) \<and>
    shr_nqn_normalize (Some (NQN_UUID_PREFIX @ shr_uuid_to_string u)) =
      (Some (NQN_UUID_PREFIX @ shr_uuid_to_string u), True)"
proof -
  have c: "\<forall>c\<in>set n. 0x21 \<le> ord c \<and> ord c \<le> 0x7e" "length n \<le> 223" "take 4 n = ''nqn.''"
    using assms by (auto simp: shr_nqn_valid_def Let_def SHR_NQN_MAX_LEN_def charset_valid_def
        list_all_iff has_prefix_def NQN_PREFIX_def not_less numeral_eq_Suc split: if_splits)
  have sp: "33 \<le> ord c \<Longrightarrow> \<not> isspace c" for c by (auto simp: isspace_def)
  have "13 \<le> length n"
  proof (cases "has_prefix n NQN_UUID_PREFIX")
    case True
    then show ?thesis using arg_cong [OF nqn_uuid_split, of n length] by (simp add: uuid_prefix_facts)
  next
    case False
    then show ?thesis using assms
      by (auto simp: shr_nqn_valid_def Let_def NQN_PREFIX_def NQN_DATE_LEN_def split: if_splits)
  qed
  with c sp show ?thesis
    by (auto simp: uuid_str_valid_shape uuid_to_string_shape nqn_valid_uuid shr_nqn_normalize_def
        uuid_prefix_facts uuid_to_string_folded)
qed

theorem nqn_valid_printable_witness:
  "shr_uuid_str_valid (Some (shr_uuid_to_string (replicate 16 0xab))) \<and> length ''nqn.2014-08.org.x'' \<le> 223"
proof -
  have "shr_nqn_valid (Some ''nqn.2014-08.org.x'')" by code_simp
  from nqn_valid_printable [OF this, of "replicate 16 0xab"] show ?thesis by blast
qed

end
