(* ===== verification/Tid.thy ===== *)
theory Tid
  imports Net Nqn
begin

text \<open>
  Transport IDs, \<open>libnvme/src/nvme/tid.c\<close> (with \<open>libnvme_hostid_from_hostnqn\<close> of \<open>tree.c\<close>): the eight
  strings that name the path between a host and a controller, how they are parsed, sanitised and
  printed, and the cached renderings.

  A field is \<open>None\<close> where the pointer is NULL.  \<open>mok k\<close> says whether the \<open>k\<close>-th allocation of a call
  succeeds.  Constructors that fail free the object, so only the error remains of them; log messages
  are not modelled.
\<close>

section \<open>Addresses\<close>

text \<open>\<open>scope\<close> is NULL exactly when there is no percent sign, and it starts with that sign
  otherwise.\<close>

definition canon_ip :: "inet \<Rightarrow> bool \<Rightarrow> string \<Rightarrow> string res" where
  "canon_ip net mem s =
     (let scope = dropWhile (\<lambda>c. c \<noteq> PCT) s; host = takeWhile (\<lambda>c. c \<noteq> PCT) s
      in if length host \<ge> INET6_ADDRSTRLEN then Inl EINVAL
         else (case pton4 net host of
                 Some addr4 \<Rightarrow>
                   (case ntop4 net addr4 of
                      None \<Rightarrow> Inl EINVAL
                    | Some canon \<Rightarrow> if mem then Inr canon else Inl ENOMEM)
               | None \<Rightarrow>
                   (case pton6 net host of
                      Some addr6 \<Rightarrow>
                        if v4mapped addr6 \<and> scope = []
                        then (case ntop4 net (drop 12 addr6) of
                                None \<Rightarrow> Inl EINVAL
                              | Some canon \<Rightarrow> if mem then Inr canon else Inl ENOMEM)
                        else (case ntop6 net addr6 of
                                None \<Rightarrow> Inl EINVAL
                              | Some canon \<Rightarrow> if mem then Inr (canon @ scope) else Inl ENOMEM)
                    | None \<Rightarrow> Inl EINVAL)))"

text \<open>The first comma becomes a colon.\<close>

fun fc_wwn_normalize :: "string \<Rightarrow> string" where
  "fc_wwn_normalize [] = []"
| "fc_wwn_normalize (c # s) = (if c = CHR '','' then CHR '':'' # s else c # fc_wwn_normalize s)"

text \<open>\<open>sscanf\<close>: a literal, and a scan set of at least one and at most 16 hexadecimal digits.\<close>

definition scan_lit :: "string \<Rightarrow> string \<Rightarrow> string option" where
  "scan_lit p s = (if take (length p) s = p then Some (drop (length p) s) else None)"

definition scan_hex16 :: "string \<Rightarrow> string option" where
  "scan_hex16 s =
     (let n = length (takeWhile isxdigit (take 16 s)) in if n = 0 then None else Some (drop n s))"

definition fc_wwn_is_valid :: "string \<Rightarrow> bool" where
  "fc_wwn_is_valid s =
     (case scan_lit ''nn-0x'' s of None \<Rightarrow> False
      | Some s1 \<Rightarrow> (case scan_hex16 s1 of None \<Rightarrow> False
      | Some s2 \<Rightarrow> (case scan_lit '':pn-0x'' s2 of None \<Rightarrow> False
      | Some s3 \<Rightarrow> (case scan_hex16 s3 of None \<Rightarrow> False
      | Some rest \<Rightarrow> rest = []))))"

section \<open>The transport ID\<close>

record tid =
  transport :: "string option"
  traddr :: "string option"
  trsvcid :: "string option"
  subsysnqn :: "string option"
  host_traddr :: "string option"
  host_iface :: "string option"
  hostnqn :: "string option"
  hostid :: "string option"
  canon_cache :: "string option"
  str_cache :: "string option"

definition tid_new :: tid where
  "tid_new = \<lparr>transport = None, traddr = None, trsvcid = None, subsysnqn = None, host_traddr = None,
     host_iface = None, hostnqn = None, hostid = None, canon_cache = None, str_cache = None\<rparr>"

definition invalidate_cache :: "tid \<Rightarrow> tid" where
  "invalidate_cache p = p\<lparr>canon_cache := None, str_cache := None\<rparr>"

definition tid_sanitize_addr :: "inet \<Rightarrow> (nat \<Rightarrow> bool) \<Rightarrow> tid \<Rightarrow> tid res" where
  "tid_sanitize_addr net mok t =
     (if transport t = None then Inr t
      else if transport t = Some ''fc'' then
        (let t1 = t\<lparr>traddr := map_option fc_wwn_normalize (traddr t),
                    host_traddr := map_option fc_wwn_normalize (host_traddr t)\<rparr>
         in if (case traddr t1 of None \<Rightarrow> False | Some a \<Rightarrow> \<not> fc_wwn_is_valid a) then Inl EINVAL
            else if (case host_traddr t1 of None \<Rightarrow> False | Some a \<Rightarrow> \<not> fc_wwn_is_valid a) then Inl EINVAL
            else Inr t1)
      else if transport t \<noteq> Some ''tcp'' \<and> transport t \<noteq> Some ''rdma'' then Inr t
      else
        (case (case traddr t of
                 None \<Rightarrow> Inr t
               | Some a \<Rightarrow> (case canon_ip net (mok 0) a of Inl rc \<Rightarrow> Inl rc | Inr canon \<Rightarrow> Inr (t\<lparr>traddr := Some canon\<rparr>))) of
           Inl rc \<Rightarrow> Inl rc
         | Inr t1 \<Rightarrow>
             (case host_traddr t1 of
                None \<Rightarrow> Inr t1
              | Some a \<Rightarrow> (case canon_ip net (mok 1) a of Inl rc \<Rightarrow> Inl rc
                         | Inr canon \<Rightarrow> Inr (t1\<lparr>host_traddr := Some canon\<rparr>)))))"

text \<open>\<open>shr_xstrdup\<close> and the check of the caller that a copy is there.\<close>

definition shr_xstrdup :: "bool \<Rightarrow> string option \<Rightarrow> string option" where
  "shr_xstrdup ok s = (if ok then s else None)"

definition copy_failed :: "string option \<Rightarrow> string option \<Rightarrow> bool" where
  "copy_failed src dst \<longleftrightarrow> src \<noteq> None \<and> dst = None"

definition any_copy_failed :: "tid \<Rightarrow> tid \<Rightarrow> bool" where
  "any_copy_failed src t \<longleftrightarrow> copy_failed (transport src) (transport t) \<or> copy_failed (traddr src) (traddr t) \<or>
     copy_failed (trsvcid src) (trsvcid t) \<or> copy_failed (subsysnqn src) (subsysnqn t) \<or>
     copy_failed (host_traddr src) (host_traddr t) \<or> copy_failed (host_iface src) (host_iface t) \<or>
     copy_failed (hostnqn src) (hostnqn t) \<or> copy_failed (hostid src) (hostid t)"

definition copy_fields :: "(nat \<Rightarrow> bool) \<Rightarrow> tid \<Rightarrow> tid" where
  "copy_fields mok src = tid_new\<lparr>
     transport := shr_xstrdup (mok 1) (transport src), traddr := shr_xstrdup (mok 2) (traddr src),
     trsvcid := shr_xstrdup (mok 3) (trsvcid src), subsysnqn := shr_xstrdup (mok 4) (subsysnqn src),
     host_traddr := shr_xstrdup (mok 5) (host_traddr src), host_iface := shr_xstrdup (mok 6) (host_iface src),
     hostnqn := shr_xstrdup (mok 7) (hostnqn src), hostid := shr_xstrdup (mok 8) (hostid src)\<rparr>"

text \<open>The eight arguments are those of \<open>args\<close>; \<open>out_ok\<close> says that \<open>out\<close> is not NULL.\<close>

definition libnvmf_tid_from_fields :: "inet \<Rightarrow> (nat \<Rightarrow> bool) \<Rightarrow> bool \<Rightarrow> tid \<Rightarrow> tid res" where
  "libnvmf_tid_from_fields net mok out_ok args =
     (if \<not> out_ok then Inl EINVAL
      else if \<not> mok 0 then Inl ENOMEM
      else (let t = copy_fields mok args
            in if any_copy_failed args t then Inl ENOMEM
               else tid_sanitize_addr net (\<lambda>k. mok (9 + k)) t))"

text \<open>\<open>strstr(hostnqn, "uuid:")\<close> and what follows.\<close>

fun strstr_after :: "string \<Rightarrow> string \<Rightarrow> string option" where
  "strstr_after p [] = (if p = [] then Some [] else None)"
| "strstr_after p (c # s) = (case scan_lit p (c # s) of Some r \<Rightarrow> Some r | None \<Rightarrow> strstr_after p s)"

definition libnvme_hostid_from_hostnqn :: "bool \<Rightarrow> string \<Rightarrow> string option" where
  "libnvme_hostid_from_hostnqn mem nqn =
     (case strstr_after ''uuid:'' nqn of None \<Rightarrow> None | Some uuid \<Rightarrow> if mem then Some uuid else None)"

definition or_else :: "'a option \<Rightarrow> 'a option \<Rightarrow> 'a option" where
  "or_else a b = (if a \<noteq> None then a else b)"

text \<open>The result and the object after the call.\<close>

definition libnvmf_tid_set_identity ::
  "(nat \<Rightarrow> bool) \<Rightarrow> tid option \<Rightarrow> string option \<Rightarrow> string option \<Rightarrow> string option \<Rightarrow> unit res \<times> tid option" where
  "libnvmf_tid_set_identity mok tid subsysnqn' hostnqn' hostid' =
     (case tid of
        None \<Rightarrow> (Inl EINVAL, None)
      | Some t \<Rightarrow>
          (let eff_hostnqn = or_else hostnqn' (hostnqn t);
               eff_hostid0 = or_else hostid' (hostid t);
               derived = (if eff_hostid0 = None then
                            (case eff_hostnqn of None \<Rightarrow> None | Some n \<Rightarrow> libnvme_hostid_from_hostnqn (mok 0) n)
                          else None);
               eff_hostid = or_else eff_hostid0 derived
           in if eff_hostid \<noteq> None \<and> eff_hostnqn = None then (Inl EINVAL, Some t)
              else
                (let new_subsysnqn = shr_xstrdup (mok 1) subsysnqn'; new_hostnqn = shr_xstrdup (mok 2) hostnqn';
                     new_hostid = shr_xstrdup (mok 3) hostid'
                 in if copy_failed subsysnqn' new_subsysnqn \<or> copy_failed hostnqn' new_hostnqn \<or>
                       copy_failed hostid' new_hostid
                    then (Inl ENOMEM, Some t)
                    else
                      (let t1 = invalidate_cache t
                       in (Inr (), Some (t1\<lparr>subsysnqn := or_else new_subsysnqn (subsysnqn t1),
                                             hostnqn := or_else new_hostnqn (hostnqn t1),
                                             hostid := or_else new_hostid (or_else derived (hostid t1))\<rparr>))))))"

definition libnvmf_tid_dup :: "(nat \<Rightarrow> bool) \<Rightarrow> tid option \<Rightarrow> tid option" where
  "libnvmf_tid_dup mok tid =
     (case tid of
        None \<Rightarrow> None
      | Some src \<Rightarrow>
          if \<not> mok 0 then None
          else (let t = copy_fields mok src in if any_copy_failed src t then None else Some t))"

definition libnvmf_tid_is_empty :: "tid option \<Rightarrow> bool" where
  "libnvmf_tid_is_empty tid =
     (case tid of
        None \<Rightarrow> True
      | Some t \<Rightarrow> transport t = None \<and> traddr t = None \<and> trsvcid t = None \<and> subsysnqn t = None \<and>
          host_traddr t = None \<and> host_iface t = None \<and> hostnqn t = None \<and> hostid t = None)"

section \<open>Parsing\<close>

text \<open>\<open>strtok_r\<close> with one delimiter: the non-empty runs between delimiters.\<close>

function strtok :: "char \<Rightarrow> string \<Rightarrow> string list" where
  "strtok d [] = []"
| "strtok d (c # s) =
     (if c = d then strtok d s
      else (c # takeWhile (\<lambda>x. x \<noteq> d) s) # strtok d (dropWhile (\<lambda>x. x \<noteq> d) s))"
  by pat_completeness auto
termination by (relation "measure (\<lambda>(d, s). length s)") (auto simp: le_imp_less_Suc length_dropWhile_le)

text \<open>A token: the ID, and the flags \<open>bad\<close> and \<open>oom\<close>.\<close>

definition set_field :: "bool \<Rightarrow> string \<Rightarrow> string \<Rightarrow> tid \<Rightarrow> tid option" where
  "set_field ok key val t =
     (let v = (if ok then Some val else None)
      in if key = ''transport'' then Some (t\<lparr>transport := v\<rparr>)
         else if key = ''traddr'' then Some (t\<lparr>traddr := v\<rparr>)
         else if key = ''trsvcid'' then Some (t\<lparr>trsvcid := v\<rparr>)
         else if key = ''nqn'' then Some (t\<lparr>subsysnqn := v\<rparr>)
         else if key = ''host-traddr'' then Some (t\<lparr>host_traddr := v\<rparr>)
         else if key = ''host-iface'' then Some (t\<lparr>host_iface := v\<rparr>)
         else if key = ''hostnqn'' then Some (t\<lparr>hostnqn := v\<rparr>)
         else if key = ''hostid'' then Some (t\<lparr>hostid := v\<rparr>)
         else None)"

definition tid_token :: "bool \<Rightarrow> bool \<Rightarrow> string \<Rightarrow> tid \<Rightarrow> tid \<times> bool \<times> bool" where
  "tid_token ok strict tok t =
     (if CHR ''='' \<notin> set tok then (t, shr_trim tok \<noteq> [] \<and> strict, False)
      else
        (let key = shr_trim (takeWhile (\<lambda>c. c \<noteq> CHR ''='') tok);
             val = shr_trim (tl (dropWhile (\<lambda>c. c \<noteq> CHR ''='') tok))
         in if val = [] then (t, strict, False)
            else (case set_field ok key val t of
                    None \<Rightarrow> (t, strict, False)
                  | Some t' \<Rightarrow> (t', False, \<not> ok))))"

fun tid_tokens :: "(nat \<Rightarrow> bool) \<Rightarrow> nat \<Rightarrow> bool \<Rightarrow> string list \<Rightarrow> tid \<Rightarrow> tid res" where
  "tid_tokens mok k strict [] t = Inr t"
| "tid_tokens mok k strict (tok # toks) t =
     (case tid_token (mok k) strict tok t of (t', bad, oom) \<Rightarrow>
        if oom then Inl ENOMEM else if bad then Inl EINVAL else tid_tokens mok (k + 1) strict toks t')"

definition tid_parse :: "inet \<Rightarrow> (nat \<Rightarrow> bool) \<Rightarrow> bool \<Rightarrow> bool \<Rightarrow> bool \<Rightarrow> string option \<Rightarrow> tid res" where
  "tid_parse net mok ctx_ok out_ok strict str =
     (if \<not> out_ok then Inl EINVAL
      else (case (ctx_ok, str) of
              (True, Some s) \<Rightarrow>
                if \<not> mok 0 then Inl ENOMEM
                else if \<not> mok 1 then Inl ENOMEM
                else (case tid_tokens mok 4 strict (strtok (CHR '';'') s) tid_new of
                        Inl e \<Rightarrow> Inl e
                      | Inr t \<Rightarrow> tid_sanitize_addr net (\<lambda>k. mok (2 + k)) t)
            | _ \<Rightarrow> Inl EINVAL))"

definition libnvmf_tid_parse where
  "libnvmf_tid_parse net mok ctx_ok out_ok str = tid_parse net mok ctx_ok out_ok False str"

definition libnvmf_tid_parse_strict where
  "libnvmf_tid_parse_strict net mok ctx_ok out_ok str = tid_parse net mok ctx_ok out_ok True str"

definition libnvmf_tid_parse_strict_at_level where
  "libnvmf_tid_parse_strict_at_level net mok ctx_ok out_ok level str = tid_parse net mok ctx_ok out_ok True str"

definition libnvmf_traddr_is_numeric :: "inet \<Rightarrow> bool \<Rightarrow> string option \<Rightarrow> bool" where
  "libnvmf_traddr_is_numeric net mem a =
     (case a of None \<Rightarrow> False | Some s \<Rightarrow> (case canon_ip net mem s of Inl e \<Rightarrow> False | Inr c \<Rightarrow> True))"

section \<open>Printing\<close>

definition CANONICAL_MAX :: nat where "CANONICAL_MAX = 1024"

text \<open>\<open>APPEND\<close>: the text \<open>snprintf\<close> would write without a limit; \<open>n\<close> is its length, and the buffer
  holds its first \<open>CANONICAL_MAX - 1\<close> characters.\<close>

definition append_kv :: "string \<Rightarrow> string option \<Rightarrow> string \<Rightarrow> string" where
  "append_kv key field buf =
     (case field of
        None \<Rightarrow> buf
      | Some v \<Rightarrow>
          if length buf < CANONICAL_MAX then buf @ (if buf \<noteq> [] then '';'' else '''') @ key @ ''='' @ v else buf)"

definition canonical_text :: "tid \<Rightarrow> string" where
  "canonical_text p = take (CANONICAL_MAX - 1)
     (append_kv ''hostid'' (hostid p) (append_kv ''hostnqn'' (hostnqn p)
     (append_kv ''host-iface'' (host_iface p) (append_kv ''host-traddr'' (host_traddr p)
     (append_kv ''nqn'' (subsysnqn p) (append_kv ''trsvcid'' (trsvcid p)
     (append_kv ''traddr'' (traddr p) (append_kv ''transport'' (transport p) []))))))))"

definition libnvmf_tid_get_canonical :: "bool \<Rightarrow> tid option \<Rightarrow> string option \<times> tid option" where
  "libnvmf_tid_get_canonical mem tid =
     (case tid of
        None \<Rightarrow> (None, None)
      | Some p \<Rightarrow>
          if canon_cache p \<noteq> None then (canon_cache p, Some p)
          else (let p1 = p\<lparr>canon_cache := (if mem then Some (canonical_text p) else None)\<rparr> in (canon_cache p1, Some p1)))"

definition append_str :: "string option \<Rightarrow> string \<times> string \<Rightarrow> string \<times> string" where
  "append_str field st =
     (case st of (buf, sep) \<Rightarrow>
        (case field of
           None \<Rightarrow> (buf, sep)
         | Some v \<Rightarrow> if v \<noteq> [] \<and> length buf < CANONICAL_MAX then (buf @ sep @ v, '', '') else (buf, sep)))"

definition str_text :: "tid \<Rightarrow> string" where
  "str_text p =
     (case append_str (host_traddr p) (append_str (host_iface p) (append_str (subsysnqn p) (append_str (trsvcid p)
             (append_str (traddr p) (append_str (transport p) (''('', '''')))))) of (buf, sep) \<Rightarrow>
        take (CANONICAL_MAX - 1) (if length buf < CANONICAL_MAX then buf @ '')'' else buf))"

definition libnvmf_tid_str :: "bool \<Rightarrow> tid option \<Rightarrow> string option \<times> tid option" where
  "libnvmf_tid_str mem tid =
     (case tid of
        None \<Rightarrow> (None, None)
      | Some p \<Rightarrow>
          if str_cache p \<noteq> None then (str_cache p, Some p)
          else (let p1 = p\<lparr>str_cache := (if mem then Some (str_text p) else None)\<rparr> in (str_cache p1, Some p1)))"

section \<open>Sanitising is idempotent\<close>

text \<open>A value that survives the parser: not empty, trimmed, without a semicolon.\<close>

definition clean :: "string \<Rightarrow> bool" where
  "clean v \<longleftrightarrow> v \<noteq> [] \<and> \<not> isspace (hd v) \<and> \<not> isspace (last v) \<and> CHR '';'' \<notin> set v"

lemma addr_char_props: "addr_char c \<Longrightarrow> \<not> isspace c \<and> c \<noteq> PCT \<and> c \<noteq> CHR '';''"
  by (auto simp: addr_char_def PCT_def ctype_defs char_le_iff)

lemma canon_ip_cases:
  assumes "inet_ok net" "canon_ip net mem s = Inr c"
  obtains (v4) a where "length a = 4" "ntop4 net a = Some c" "pton4 net c = Some a" "c \<noteq> []" "list_all addr_char c"
      "length c < INET6_ADDRSTRLEN"
  | (v6) a h where "c = h @ dropWhile (\<lambda>c. c \<noteq> PCT) s" "ntop6 net a = Some h" "pton6 net h = Some a" "pton4 net h = None"
      "h \<noteq> []" "list_all addr_char h" "length h < INET6_ADDRSTRLEN" "\<not> (v4mapped a \<and> dropWhile (\<lambda>c. c \<noteq> PCT) s = [])"
proof -
  let ?h = "takeWhile (\<lambda>c. c \<noteq> PCT) s" and ?s = "dropWhile (\<lambda>c. c \<noteq> PCT) s"
  have v4': "thesis" if "length a = 4" "ntop4 net a = Some c" for a
    using inet_okD(3) [OF assms(1) that(1)] that v4 by fastforce
  show thesis
  proof (cases "pton4 net ?h")
    case (Some a)
    then show thesis using assms(2) v4' [of a] inet_okD(1) [OF assms(1) Some]
      by (auto simp: canon_ip_def Let_def split: if_splits option.splits)
  next
    case None
    then obtain a where a: "pton6 net ?h = Some a" using assms(2)
      by (auto simp: canon_ip_def Let_def split: if_splits option.splits)
    show thesis
    proof (cases "v4mapped a \<and> ?s = []")
      case True
      have "length (drop 12 a) = 4" using inet_okD(2) [OF assms(1) a] by simp
      then show thesis using assms(2) None a True v4' [of "drop 12 a"]
        by (auto simp: canon_ip_def Let_def split: if_splits option.splits)
    next
      case False
      obtain h where h: "ntop6 net a = Some h" "pton6 net h = Some a" "pton4 net h = None" "h \<noteq> []"
        "list_all addr_char h" "length h < INET6_ADDRSTRLEN"
        using inet_okD(4) [OF assms(1) a] by blast
      have "c = h @ ?s" using assms(2) None a False h(1)
        by (auto simp: canon_ip_def Let_def split: if_splits option.splits)
      then show thesis using v6 h False by blast
    qed
  qed
qed

lemma no_scope: "list_all addr_char h \<Longrightarrow> takeWhile (\<lambda>c. c \<noteq> PCT) (h @ r) = h @ takeWhile (\<lambda>c. c \<noteq> PCT) r"
  "list_all addr_char h \<Longrightarrow> dropWhile (\<lambda>c. c \<noteq> PCT) (h @ r) = dropWhile (\<lambda>c. c \<noteq> PCT) r"
  by (auto simp: list_all_iff takeWhile_append dropWhile_append dest: addr_char_props)

lemma canon_ip_idem:
  assumes "inet_ok net" "canon_ip net mem s = Inr c"
  shows "canon_ip net True c = Inr c"
  using assms
proof (cases rule: canon_ip_cases)
  case (v4 a)
  have tw: "takeWhile (\<lambda>c. c \<noteq> PCT) c = c" "dropWhile (\<lambda>c. c \<noteq> PCT) c = []"
    using no_scope [OF v4(5), of "[]"] by (simp_all only: append_Nil2 takeWhile.simps dropWhile.simps)
  show ?thesis using v4 unfolding canon_ip_def Let_def tw by simp
next
  case (v6 a h)
  let ?s = "dropWhile (\<lambda>c. c \<noteq> PCT) s"
  have "takeWhile (\<lambda>c. c \<noteq> PCT) ?s = []" "dropWhile (\<lambda>c. c \<noteq> PCT) ?s = ?s"
    by (induction s) auto
  then have tw: "takeWhile (\<lambda>c. c \<noteq> PCT) c = h" "dropWhile (\<lambda>c. c \<noteq> PCT) c = ?s"
    using no_scope [OF v6(6), of ?s] unfolding v6(1) by (simp_all only: append_Nil2)
  show ?thesis using v6 unfolding canon_ip_def Let_def tw by auto
qed

lemma clean_addr: "c \<noteq> [] \<Longrightarrow> list_all addr_char c \<Longrightarrow> clean c"
  using addr_char_props [of "hd c"] addr_char_props [of "last c"] addr_char_props [of "CHR '';''"]
  by (auto simp: clean_def list_all_iff)

lemma canon_ip_clean:
  assumes "inet_ok net" "canon_ip net mem s = Inr c" "clean s"
  shows "clean c"
  using assms(1,2)
proof (cases rule: canon_ip_cases)
  case (v4 a)
  then show ?thesis by (simp add: clean_addr)
next
  case (v6 a h)
  let ?s = "dropWhile (\<lambda>c. c \<noteq> PCT) s"
  have "last ?s = last s" if "?s \<noteq> []" using that by (metis last_appendR takeWhile_dropWhile_id)
  moreover have "set ?s \<subseteq> set s" by (auto dest: set_dropWhileD)
  ultimately show ?thesis using v6(1,5,6) clean_addr [of h] assms(3)
    by (cases "?s = []") (auto simp: clean_def simp del: dropWhile_eq_Nil_conv)
qed

lemma fc_normalize_id: "CHR '','' \<notin> set s \<Longrightarrow> fc_wwn_normalize s = s"
  by (induction s) auto

lemma fc_valid_chars: "fc_wwn_is_valid s \<Longrightarrow> CHR '','' \<notin> set s"
proof -
  have lit: "scan_lit p s = Some r \<Longrightarrow> s = p @ r" for p s r
    by (auto simp: scan_lit_def split: if_splits) (metis append_take_drop_id)
  have hex: "scan_hex16 s = Some r \<Longrightarrow> \<exists>h. s = h @ r \<and> list_all isxdigit h" for s r
  proof -
    assume a: "scan_hex16 s = Some r"
    let ?h = "takeWhile isxdigit (take 16 s)"
    have "?h = take (length ?h) s"
      by (metis takeWhile_eq_take take_take min.absorb1 length_takeWhile_le length_take min.bounded_iff)
    then have "s = ?h @ r" using a by (auto simp: scan_hex16_def Let_def split: if_splits) (metis append_take_drop_id)
    moreover have "list_all isxdigit ?h" by (auto simp: list_all_iff dest: set_takeWhileD)
    ultimately show ?thesis by blast
  qed
  have comma: "\<not> isxdigit (CHR '','')" by (simp add: ctype_defs char_le_iff)
  assume "fc_wwn_is_valid s"
  then obtain s1 s2 s3 where "scan_lit ''nn-0x'' s = Some s1" "scan_hex16 s1 = Some s2" "scan_lit '':pn-0x'' s2 = Some s3"
    "scan_hex16 s3 = Some []"
    by (auto simp: fc_wwn_is_valid_def split: option.splits)
  note l = this
  obtain h where h: "s1 = h @ s2" "list_all isxdigit h" using hex [OF l(2)] by blast
  obtain g where g: "s3 = g @ []" "list_all isxdigit g" using hex [OF l(4)] by blast
  have "s = ''nn-0x'' @ h @ '':pn-0x'' @ g" using lit [OF l(1)] lit [OF l(3)] h(1) g(1) by simp
  then show ?thesis using h(2) g(2) comma by (auto simp: list_all_iff)
qed

lemma sanitize_cases:
  assumes "tid_sanitize_addr net mok t = Inr t'"
  obtains (other) "t' = t" "transport t \<noteq> Some ''fc''" "transport t \<noteq> Some ''tcp''" "transport t \<noteq> Some ''rdma''"
  | (fc) "transport t = Some ''fc''"
      "t' = t\<lparr>traddr := map_option fc_wwn_normalize (traddr t), host_traddr := map_option fc_wwn_normalize (host_traddr t)\<rparr>"
      "\<And>a. traddr t' = Some a \<Longrightarrow> fc_wwn_is_valid a" "\<And>a. host_traddr t' = Some a \<Longrightarrow> fc_wwn_is_valid a"
  | (ip) a h where "transport t = Some ''tcp'' \<or> transport t = Some ''rdma''"
      "t' = t\<lparr>traddr := a, host_traddr := h\<rparr>"
      "traddr t = None \<and> a = None \<or> (\<exists>x y. traddr t = Some x \<and> a = Some y \<and> canon_ip net (mok 0) x = Inr y)"
      "host_traddr t = None \<and> h = None \<or> (\<exists>x y. host_traddr t = Some x \<and> h = Some y \<and> canon_ip net (mok 1) x = Inr y)"
proof -
  consider "transport t = Some ''fc''" | "transport t = Some ''tcp'' \<or> transport t = Some ''rdma''"
    | "transport t \<noteq> Some ''fc''" "transport t \<noteq> Some ''tcp''" "transport t \<noteq> Some ''rdma''" by blast
  then show thesis
  proof cases
    case 1
    then show thesis using assms fc by (auto simp: tid_sanitize_addr_def Let_def split: if_splits option.splits)
  next
    case 2
    let ?t1 = "\<lambda>y. t\<lparr>traddr := y\<rparr>"
    obtain a where a: "traddr t = None \<and> a = None \<or> (\<exists>x y. traddr t = Some x \<and> a = Some y \<and> canon_ip net (mok 0) x = Inr y)"
      "(case host_traddr (?t1 a) of None \<Rightarrow> Inr (?t1 a) | Some x \<Rightarrow> (case canon_ip net (mok 1) x of Inl rc \<Rightarrow> Inl rc
         | Inr canon \<Rightarrow> Inr ((?t1 a)\<lparr>host_traddr := Some canon\<rparr>))) = Inr t'"
    proof (cases "traddr t")
      case None
      then have t: "?t1 None = t" by simp
      have "(case host_traddr t of None \<Rightarrow> Inr t | Some x \<Rightarrow> (case canon_ip net (mok 1) x of Inl rc \<Rightarrow> Inl rc
         | Inr canon \<Rightarrow> Inr (t\<lparr>host_traddr := Some canon\<rparr>))) = Inr t'"
        using None assms 2 by (auto simp: tid_sanitize_addr_def)
      then show ?thesis using that [of None, unfolded t] None by blast
    next
      case (Some x)
      then show ?thesis using that assms 2 by (auto simp: tid_sanitize_addr_def split: sum.splits)
    qed
    show thesis
    proof (cases "host_traddr t")
      case None
      then have "t' = t\<lparr>traddr := a, host_traddr := None\<rparr>" using a(2) by (intro tid.equality) auto
      then show thesis using ip [OF 2] a(1) None by blast
    next
      case (Some x)
      then obtain y where "canon_ip net (mok 1) x = Inr y" "t' = t\<lparr>traddr := a, host_traddr := Some y\<rparr>"
        using a(2) by (auto split: sum.splits)
      then show thesis using ip [OF 2] a(1) Some by blast
    qed
  next
    case 3
    then show thesis using assms other by (auto simp: tid_sanitize_addr_def split: if_splits)
  qed
qed

definition sanitized :: "inet \<Rightarrow> tid \<Rightarrow> bool" where
  "sanitized net t \<longleftrightarrow> tid_sanitize_addr net (\<lambda>_. True) t = Inr t"

lemma sanitize_idem:
  assumes "inet_ok net" "tid_sanitize_addr net mok t = Inr t'"
  shows "sanitized net t'"
  using assms(2)
proof (cases rule: sanitize_cases)
  case other
  then show ?thesis by (auto simp: sanitized_def tid_sanitize_addr_def)
next
  case fc
  have "map_option fc_wwn_normalize (traddr t') = traddr t'" "map_option fc_wwn_normalize (host_traddr t') = host_traddr t'"
    using fc(3,4) by (auto simp: fc_normalize_id fc_valid_chars map_option_case split: option.split)
  moreover have "transport t' = Some ''fc''" using fc(1,2) by simp
  ultimately show ?thesis using fc(3,4)
    by (auto simp: sanitized_def tid_sanitize_addr_def Let_def split: option.split)
next
  case (ip a h)
  have "canon_ip net True y = Inr y" if "a = Some y \<or> h = Some y" for y
    using that ip(3,4) canon_ip_idem [OF assms(1)] by auto
  then show ?thesis using ip(1)
    by (cases a; cases h) (auto simp: sanitized_def tid_sanitize_addr_def ip(2))
qed


section \<open>Printing and parsing\<close>

text \<open>The fields with their keys, in the order they are printed.\<close>

definition tid_fields :: "tid \<Rightarrow> (string \<times> string option) list" where
  "tid_fields t = [(''transport'', transport t), (''traddr'', traddr t), (''trsvcid'', trsvcid t), (''nqn'', subsysnqn t),
     (''host-traddr'', host_traddr t), (''host-iface'', host_iface t), (''hostnqn'', hostnqn t), (''hostid'', hostid t)]"

definition tid_clean :: "tid \<Rightarrow> bool" where
  "tid_clean t \<longleftrightarrow> (\<forall>f \<in> snd ` set (tid_fields t). \<forall>v. f = Some v \<longrightarrow> clean v)"

lemma tid_clean_iff: "tid_clean t \<longleftrightarrow> pred_option clean (transport t) \<and> pred_option clean (traddr t) \<and>
  pred_option clean (trsvcid t) \<and> pred_option clean (subsysnqn t) \<and> pred_option clean (host_traddr t) \<and>
  pred_option clean (host_iface t) \<and> pred_option clean (hostnqn t) \<and> pred_option clean (hostid t)"
proof -
  have "(\<forall>v. f = Some v \<longrightarrow> clean v) = pred_option clean f" for f by (cases f) auto
  then show ?thesis by (simp add: tid_clean_def tid_fields_def)
qed

definition no_cache :: "tid \<Rightarrow> bool" where
  "no_cache t \<longleftrightarrow> canon_cache t = None \<and> str_cache t = None"

lemma fc_normalize_shape: "v \<noteq> [] \<Longrightarrow> fc_wwn_normalize v \<noteq> [] \<and>
  (hd (fc_wwn_normalize v) = hd v \<or> hd (fc_wwn_normalize v) = CHR '':'') \<and>
  (last (fc_wwn_normalize v) = last v \<or> last (fc_wwn_normalize v) = CHR '':'') \<and>
  set (fc_wwn_normalize v) \<subseteq> insert (CHR '':'') (set v)"
  by (induction v rule: fc_wwn_normalize.induct) (auto split: if_splits)

lemma sanitize_clean:
  assumes "inet_ok net" "tid_sanitize_addr net mok t = Inr t'" "tid_clean t"
  shows "tid_clean t'"
  using assms(2)
proof (cases rule: sanitize_cases)
  case fc
  have "clean (fc_wwn_normalize v)" if "clean v" for v
    using that fc_normalize_shape [of v] by (auto simp: clean_def ctype_defs)
  then show ?thesis using assms(3) fc(2) by (auto simp: tid_clean_def tid_fields_def)
next
  case (ip a h)
  then show ?thesis using assms(3) canon_ip_clean [OF assms(1)] by (auto simp: tid_clean_def tid_fields_def)
qed (use assms(3) in simp)

lemma strtok_no: "tok \<in> set (strtok d s) \<Longrightarrow> tok \<noteq> [] \<and> d \<notin> set tok"
  by (induction d s rule: strtok.induct) (auto dest: set_takeWhileD split: if_splits)

lemma strtok_one: "tok \<noteq> [] \<Longrightarrow> d \<notin> set tok \<Longrightarrow> strtok d tok = [tok]"
proof (cases tok)
  case (Cons c s)
  assume "d \<notin> set tok"
  then have "takeWhile (\<lambda>x. x \<noteq> d) s = s" "dropWhile (\<lambda>x. x \<noteq> d) s = []" using Cons by auto
  then show ?thesis using \<open>d \<notin> set tok\<close> Cons by (auto simp del: dropWhile_eq_Nil_conv takeWhile_eq_all_conv)
qed simp

lemma strtok_snoc: "tok \<noteq> [] \<Longrightarrow> d \<notin> set tok \<Longrightarrow> strtok d (buf @ d # tok) = strtok d buf @ [tok]"
proof (induction d buf rule: strtok.induct)
  case (1 d)
  then show ?case by (simp add: strtok_one)
next
  case (2 d c s)
  show ?case
  proof (cases "c = d")
    case True
    then show ?thesis using 2 by simp
  next
    case False
    have "takeWhile (\<lambda>x. x \<noteq> d) (s @ d # tok) = takeWhile (\<lambda>x. x \<noteq> d) s"
      "dropWhile (\<lambda>x. x \<noteq> d) (s @ d # tok) = dropWhile (\<lambda>x. x \<noteq> d) s @ d # tok"
      by (induction s) auto
    then show ?thesis using 2 False by simp
  qed
qed

definition kv :: "string \<times> string option \<Rightarrow> string list" where
  "kv p = (case p of (k, None) \<Rightarrow> [] | (k, Some v) \<Rightarrow> [k @ ''='' @ v])"

lemma kv_simps [simp]: "kv (k, None) = []" "kv (k, Some v) = [k @ ''='' @ v]" "append_kv k None buf = buf"
  by (simp_all add: kv_def append_kv_def)

lemma append_kv_mono: "length buf \<le> length (append_kv k f buf)"
  by (simp add: append_kv_def split: option.split)

lemma fold_append_mono: "length buf \<le> length (fold (\<lambda>(k, f). append_kv k f) fs buf)"
proof (induction fs arbitrary: buf)
  case (Cons p fs)
  then show ?case using append_kv_mono [of buf "fst p" "snd p"] by (auto simp: case_prod_beta intro: order_trans)
qed simp

lemma strtok_fold:
  assumes "length (fold (\<lambda>(k, f). append_kv k f) fs buf) < CANONICAL_MAX"
    "\<And>k v. (k, Some v) \<in> set fs \<Longrightarrow> clean v \<and> CHR '';'' \<notin> set k"
  shows "strtok (CHR '';'') (fold (\<lambda>(k, f). append_kv k f) fs buf) = strtok (CHR '';'') buf @ concat (map kv fs)"
  using assms
proof (induction fs arbitrary: buf)
  case (Cons p fs)
  obtain k f where p: "p = (k, f)" by fastforce
  show ?case
  proof (cases f)
    case None
    then show ?thesis using Cons p by simp
  next
    case (Some v)
    have l: "length buf < CANONICAL_MAX"
      using Cons.prems(1) fold_append_mono [of "append_kv k f buf" fs] append_kv_mono [of buf k f] p by simp
    have v: "CHR '';'' \<notin> set (k @ ''='' @ v)" using Cons.prems(2) [of k v] p Some by (auto simp: clean_def)
    have "strtok (CHR '';'') (append_kv k f buf) = strtok (CHR '';'') buf @ [k @ ''='' @ v]"
      using l Some v strtok_snoc [of "k @ ''='' @ v" "CHR '';''" buf] strtok_one [of "k @ ''='' @ v" "CHR '';''"]
      by (cases "buf = []") (auto simp: append_kv_def)
    moreover have "strtok (CHR '';'') (fold (\<lambda>(k, f). append_kv k f) fs (append_kv k f buf)) =
        strtok (CHR '';'') (append_kv k f buf) @ concat (map kv fs)"
      by (rule Cons.IH) (use Cons.prems p in auto)
    ultimately show ?thesis using p Some by simp
  qed
qed simp

lemma shr_trim_clean: "clean v \<Longrightarrow> shr_trim v = v"
  by (simp add: shr_trim_def shr_rtrim_id shr_ltrim_id clean_def)

lemma tid_token_kv:
  assumes "CHR ''='' \<notin> set k" "shr_trim k = k" "clean v" "set_field True k v t = Some t'"
  shows "tid_token True strict (k @ ''='' @ v) t = (t', False, False)"
proof -
  have "takeWhile (\<lambda>c. c \<noteq> CHR ''='') (k @ ''='' @ v) = k" "dropWhile (\<lambda>c. c \<noteq> CHR ''='') (k @ ''='' @ v) = ''='' @ v"
    using assms(1) by (auto simp: takeWhile_append dropWhile_append)
  then show ?thesis using assms(2-4) by (simp add: tid_token_def Let_def shr_trim_clean) (simp add: clean_def)
qed

lemma keys_ok:
  "p \<in> set (tid_fields t) \<Longrightarrow> CHR '';'' \<notin> set (fst p) \<and> CHR ''='' \<notin> set (fst p) \<and> shr_trim (fst p) = fst p"
proof -
  have "list_all (\<lambda>k. CHR '';'' \<notin> set k \<and> CHR ''='' \<notin> set k \<and> trimmed k) (map fst (tid_fields t))"
    by (simp add: tid_fields_def trimmed_def ctype_defs)
  then show "p \<in> set (tid_fields t) \<Longrightarrow> ?thesis" by (auto simp: list_all_iff)
qed

text \<open>Setting a field by its key, as the parser does.\<close>

definition put_field :: "string \<times> string option \<Rightarrow> tid \<Rightarrow> tid" where
  "put_field p t = (case p of (k, None) \<Rightarrow> t | (k, Some v) \<Rightarrow> the (set_field True k v t))"

lemma put_field_Some: "put_field (k, Some v) t = the (set_field True k v t)" "put_field (k, None) t = t"
  by (simp_all add: put_field_def)

lemma put_fields: "no_cache t \<Longrightarrow> fold put_field (tid_fields t) tid_new = t"
proof -
  have p: "put_field (''transport'', f) t = t\<lparr>transport := or_else f (transport t)\<rparr>"
    "put_field (''traddr'', f) t = t\<lparr>traddr := or_else f (traddr t)\<rparr>"
    "put_field (''trsvcid'', f) t = t\<lparr>trsvcid := or_else f (trsvcid t)\<rparr>"
    "put_field (''nqn'', f) t = t\<lparr>subsysnqn := or_else f (subsysnqn t)\<rparr>"
    "put_field (''host-traddr'', f) t = t\<lparr>host_traddr := or_else f (host_traddr t)\<rparr>"
    "put_field (''host-iface'', f) t = t\<lparr>host_iface := or_else f (host_iface t)\<rparr>"
    "put_field (''hostnqn'', f) t = t\<lparr>hostnqn := or_else f (hostnqn t)\<rparr>"
    "put_field (''hostid'', f) t = t\<lparr>hostid := or_else f (hostid t)\<rparr>" for f t
    by (cases f; simp add: put_field_def set_field_def or_else_def Let_def)+
  have o: "or_else f None = f" for f :: "string option" by (simp add: or_else_def)
  show "no_cache t \<Longrightarrow> ?thesis"
    by (intro tid.equality) (simp_all add: tid_fields_def p o tid_new_def no_cache_def)
qed

lemma set_field_known: "k \<in> fst ` set (tid_fields t) \<Longrightarrow> \<exists>t'. set_field ok k v u = Some t'"
  by (auto simp: tid_fields_def set_field_def Let_def)

lemma tid_tokens_fields:
  assumes "\<And>k v. (k, Some v) \<in> set fs \<Longrightarrow> clean v" "set fs \<subseteq> set (tid_fields t)"
  shows "tid_tokens (\<lambda>_. True) n strict (concat (map kv fs)) u = Inr (fold put_field fs u)"
  using assms
proof (induction fs arbitrary: u n)
  case (Cons p fs)
  obtain k f where p: "p = (k, f)" by fastforce
  show ?case
  proof (cases f)
    case None
    then show ?thesis using Cons p by (simp add: put_field_Some)
  next
    case (Some v)
    obtain u' where u': "set_field True k v u = Some u'"
      using set_field_known [of k t True v u] Cons.prems(2) p by force
    have "tid_token True strict (k @ ''='' @ v) u = (u', False, False)"
      using keys_ok [of p t] Cons.prems p Some u' by (intro tid_token_kv) auto
    moreover have "tid_tokens (\<lambda>_. True) (n + 1) strict (concat (map kv fs)) u' = Inr (fold put_field fs u')"
      by (rule Cons.IH) (use Cons.prems in auto)
    ultimately show ?thesis using p Some u' by (simp add: put_field_Some)
  qed
qed simp

lemma canonical_fold: "canonical_text t = take (CANONICAL_MAX - 1) (fold (\<lambda>(k, f). append_kv k f) (tid_fields t) [])"
  by (simp add: canonical_text_def tid_fields_def)

lemma parse_fields:
  assumes "tid_clean t" "no_cache t" "sanitized net t" "strtok (CHR '';'') s = concat (map kv (tid_fields t))"
  shows "tid_parse net (\<lambda>_. True) True True strict (Some s) = Inr t"
proof -
  have cl: "clean v" if "(k, Some v) \<in> set (tid_fields t)" for k v
    using assms(1) that by (force simp: tid_clean_def)
  have "tid_tokens (\<lambda>_. True) 4 strict (strtok (CHR '';'') s) tid_new = Inr t"
    using tid_tokens_fields [of "tid_fields t" t] cl put_fields [OF assms(2)] assms(4) by simp
  then show ?thesis using assms(3) by (simp add: tid_parse_def sanitized_def)
qed

lemma parse_canonical:
  assumes "tid_clean t" "no_cache t" "sanitized net t" "length (canonical_text t) < CANONICAL_MAX - 1"
  shows "tid_parse net (\<lambda>_. True) True True strict (Some (canonical_text t)) = Inr t"
proof -
  let ?full = "fold (\<lambda>(k, f). append_kv k f) (tid_fields t) []"
  have l: "length ?full < CANONICAL_MAX - 1" and c: "canonical_text t = ?full"
    using assms(4) by (auto simp: canonical_fold min_def split: if_splits)
  have cl: "clean v" if "(k, Some v) \<in> set (tid_fields t)" for k v
    using assms(1) that by (force simp: tid_clean_def)
  have "strtok (CHR '';'') ?full = concat (map kv (tid_fields t))"
    using strtok_fold [of "tid_fields t" "[]"] l cl keys_ok [of _ t] by fastforce
  then show ?thesis unfolding c by (rule parse_fields [OF assms(1-3)])
qed

text \<open>What the parser yields.\<close>

lemma clean_trim: "CHR '';'' \<notin> set s \<Longrightarrow> shr_trim s \<noteq> [] \<Longrightarrow> clean (shr_trim s)"
  using shr_trim_trimmed [of s] set_shr_trim [of s] by (auto simp: clean_def trimmed_def)

lemma set_field_clean:
  "set_field ok k v t = Some t' \<Longrightarrow> clean v \<Longrightarrow> tid_clean t \<Longrightarrow> no_cache t \<Longrightarrow> tid_clean t' \<and> no_cache t'"
proof -
  assume f: "set_field ok k v t = Some t'" and c: "clean v" "tid_clean t" "no_cache t"
  let ?v = "if ok then Some v else None"
  have v: "pred_option clean ?v" using c(1) by simp
  have t: "t' \<in> {t\<lparr>transport := ?v\<rparr>, t\<lparr>traddr := ?v\<rparr>, t\<lparr>trsvcid := ?v\<rparr>, t\<lparr>subsysnqn := ?v\<rparr>, t\<lparr>host_traddr := ?v\<rparr>,
      t\<lparr>host_iface := ?v\<rparr>, t\<lparr>hostnqn := ?v\<rparr>, t\<lparr>hostid := ?v\<rparr>}"
    using f by (simp only: set_field_def Let_def split: if_splits) simp_all
  then have "no_cache t'" using c(3) by (auto simp: no_cache_def)
  moreover have "tid_clean t'" using t v c(2) unfolding tid_clean_iff by (elim insertE emptyE) simp_all
  ultimately show ?thesis by simp
qed

lemma tid_token_clean:
  assumes "tid_clean t" "no_cache t" "CHR '';'' \<notin> set tok" "tid_token ok strict tok t = (t', bad, oom)"
  shows "tid_clean t' \<and> no_cache t'"
proof (cases "t' = t")
  case False
  let ?v = "shr_trim (tl (dropWhile (\<lambda>c. c \<noteq> CHR ''='') tok))" and ?k = "shr_trim (takeWhile (\<lambda>c. c \<noteq> CHR ''='') tok)"
  have f: "set_field ok ?k ?v t = Some t'" "?v \<noteq> []"
    using False assms(4) by (auto simp: tid_token_def Let_def split: if_splits option.splits)
  have "set (tl xs) \<subseteq> set xs" for xs :: string by (cases xs) auto
  moreover have "set (dropWhile (\<lambda>c. c \<noteq> CHR ''='') tok) \<subseteq> set tok" by (auto dest: set_dropWhileD)
  ultimately have "CHR '';'' \<notin> set (tl (dropWhile (\<lambda>c. c \<noteq> CHR ''='') tok))" using assms(3) by blast
  then have "clean ?v" using f(2) by (rule clean_trim)
  then show ?thesis using set_field_clean [OF f(1)] assms(1,2) by blast
qed (use assms in simp)

lemma tid_tokens_clean:
  "tid_tokens mok k strict toks t = Inr t' \<Longrightarrow> tid_clean t \<Longrightarrow> no_cache t \<Longrightarrow> \<forall>tok \<in> set toks. CHR '';'' \<notin> set tok \<Longrightarrow>
   tid_clean t' \<and> no_cache t'"
proof (induction toks arbitrary: k t)
  case (Cons tok toks)
  obtain u bad oom where u: "tid_token (mok k) strict tok t = (u, bad, oom)" by (metis prod_cases3)
  have "tid_clean u \<and> no_cache u" using Cons.prems u by (intro tid_token_clean [of t tok]) auto
  then show ?case using Cons.IH [of "k + 1" u] Cons.prems u by (auto split: if_splits)
qed simp

lemma sanitize_no_cache: "tid_sanitize_addr net mok t = Inr t' \<Longrightarrow> no_cache t \<Longrightarrow> no_cache t'"
  by (erule sanitize_cases) (auto simp: no_cache_def)

lemma tid_parse_good:
  assumes "inet_ok net" "tid_parse net mok c out strict str = Inr t"
  shows "tid_clean t" "no_cache t" "sanitized net t"
proof -
  obtain s u where u: "tid_tokens mok 4 strict (strtok (CHR '';'') s) tid_new = Inr u"
    "tid_sanitize_addr net (\<lambda>k. mok (2 + k)) u = Inr t"
    using assms(2) by (auto simp: tid_parse_def split: if_splits option.splits sum.splits bool.splits)
  have "tid_clean tid_new" "no_cache tid_new" by (auto simp: tid_clean_def tid_fields_def tid_new_def no_cache_def)
  then have "tid_clean u \<and> no_cache u" using tid_tokens_clean [OF u(1)] strtok_no by blast
  then show "tid_clean t" "no_cache t" "sanitized net t"
    using sanitize_clean [OF assms(1) u(2)] sanitize_no_cache [OF u(2)] sanitize_idem [OF assms(1) u(2)] by auto
qed


section \<open>A C library without IPv6\<close>

text \<open>The assumptions about \<open>inet_pton\<close> and \<open>inet_ntop\<close> hold of dotted decimal notation.\<close>

definition quad :: "bytes \<Rightarrow> string" where
  "quad a = dec_str (unat (a ! 0)) @ ''.'' @ dec_str (unat (a ! 1)) @ ''.'' @ dec_str (unat (a ! 2)) @ ''.'' @ dec_str (unat (a ! 3))"

definition octet :: "string \<Rightarrow> u8" where
  "octet p = (case u64_literal p of None \<Rightarrow> 0 | Some n \<Rightarrow> of_nat n)"

definition v4_net :: inet where
  "v4_net = \<lparr>pton4 = (\<lambda>s. let a = map octet (strtok (CHR ''.'') s) in if length a = 4 \<and> quad a = s then Some a else None),
     pton6 = (\<lambda>s. None), ntop4 = (\<lambda>a. Some (quad a)), ntop6 = (\<lambda>a. None), if_nametoindex = (\<lambda>s. 0)\<rparr>"

lemma strtok_cons: "tok \<noteq> [] \<Longrightarrow> d \<notin> set tok \<Longrightarrow> strtok d (tok @ d # r) = tok # strtok d r"
proof (cases tok)
  case (Cons c s)
  assume "d \<notin> set tok"
  then have "takeWhile (\<lambda>x. x \<noteq> d) (s @ d # r) = s" "dropWhile (\<lambda>x. x \<noteq> d) (s @ d # r) = d # r" "c \<noteq> d"
    using Cons by (auto simp: takeWhile_append dropWhile_append)
  then show ?thesis using Cons by simp
qed simp

lemma dec_str_no_dot: "CHR ''.'' \<notin> set (dec_str n)"
  using dec_str_digits [of "CHR ''.''" n] by (auto simp: ctype_defs)

lemma strtok_quad: "strtok (CHR ''.'') (quad a) = map (\<lambda>i. dec_str (unat (a ! i))) [0, 1, 2, 3]"
  by (simp add: quad_def strtok_cons strtok_one dec_str_no_dot)

lemma length_dec_str: "n < 1000 \<Longrightarrow> length (dec_str n) \<le> 3"
proof -
  assume "n < 1000"
  then have "n div 10 div 10 < 10" by simp
  then show ?thesis
    by (subst dec_str.simps, simp) (subst dec_str.simps, simp, subst dec_str.simps, simp)
qed

lemma v4_net_ok: "inet_ok v4_net"
proof -
  have "pton4 v4_net (quad a) = Some a" if a: "length a = 4" for a
  proof -
    obtain b0 b1 b2 b3 where "a = [b0, b1, b2, b3]" using a by (auto simp: numeral_eq_Suc length_Suc_conv)
    then have "map octet (strtok (CHR ''.'') (quad a)) = a"
      by (simp add: strtok_quad octet_def u64_literal_dec_str)
    moreover have "length (strtok (CHR ''.'') (quad a)) = 4" by (simp add: strtok_quad)
    ultimately show ?thesis unfolding v4_net_def Let_def by simp
  qed
  moreover have "list_all addr_char (quad a)" for a
    using dec_str_digits by (auto simp: quad_def list_all_iff addr_char_def isxdigit_def)
  moreover have "length (quad a) < INET6_ADDRSTRLEN" for a
  proof -
    have "unat x < 2 ^ LENGTH(8)" for x :: u8 by (rule unsigned_less)
    then have "length (dec_str (unat x)) \<le> 3" for x :: u8
      by (intro length_dec_str) (rule order.strict_trans, assumption, simp)
    from this [of "a ! 0"] this [of "a ! 1"] this [of "a ! 2"] this [of "a ! 3"]
    show ?thesis by (simp add: quad_def INET6_ADDRSTRLEN_def)
  qed
  moreover have "quad a \<noteq> []" for a by (simp add: quad_def)
  moreover have "pton6 v4_net s = None" "ntop4 v4_net a = Some (quad a)" for s a by (simp_all add: v4_net_def)
  moreover have "pton4 v4_net s = Some a \<Longrightarrow> length a = 4" for s a
    by (auto simp: v4_net_def Let_def split: if_splits) (metis length_map)
  ultimately show ?thesis unfolding inet_ok_def by auto
qed

section \<open>Properties\<close>

text \<open>C17: What a transport ID prints is what it is.  However a TID was parsed - strictly or not, from any
  text - its canonical string, as long as it fits the buffer, parses strictly to the same
  TID again: every field, addresses already in canonical form, nothing lost and nothing added.  So TIDs with the same
  canonical string are the same.\<close>

theorem tid_canonical_roundtrip:
  assumes "inet_ok net" "tid_parse net mok ctx_ok out_ok strict str = Inr t"
    "length (canonical_text t) < CANONICAL_MAX - 1"
  shows "libnvmf_tid_parse_strict net (\<lambda>_. True) True True (Some (canonical_text t)) = Inr t"
  unfolding libnvmf_tid_parse_strict_def
  by (rule parse_canonical) (use tid_parse_good [OF assms(1,2)] assms(3) in auto)

lemma demo_parse: "tid_parse v4_net (\<lambda>_. True) True True False (Some '' transport = tcp;bogus;;nqn=a=b '') =
  Inr (tid_new\<lparr>transport := Some ''tcp'', subsysnqn := Some ''a=b''\<rparr>)"
proof -
  have s: "strtok (CHR '';'') '' transport = tcp;bogus;;nqn=a=b '' = ['' transport = tcp'', ''bogus'', ''nqn=a=b '']"
    by simp
  have t: "shr_trim '' transport '' = ''transport''" "shr_trim '' tcp'' = ''tcp''" "shr_trim ''nqn'' = ''nqn''"
    "shr_trim ''a=b '' = ''a=b''"
    by (simp_all add: shr_trim_def shr_rtrim_def shr_ltrim_eq ctype_defs)
  have "tid_token True False '' transport = tcp'' tid_new = (tid_new\<lparr>transport := Some ''tcp''\<rparr>, False, False)"
    by (simp add: tid_token_def t set_field_def)
  moreover have "tid_token True False ''bogus'' u = (u, False, False)" for u by (simp add: tid_token_def)
  moreover have "tid_token True False ''nqn=a=b '' u = (u\<lparr>subsysnqn := Some ''a=b''\<rparr>, False, False)" for u
    by (simp add: tid_token_def t set_field_def)
  ultimately show ?thesis
    unfolding tid_parse_def s by (simp add: tid_sanitize_addr_def tid_new_def)
qed

theorem tid_canonical_roundtrip_witness:
  "libnvmf_tid_parse_strict v4_net (\<lambda>_. True) True True (Some ''transport=tcp;nqn=a=b'') =
     Inr (tid_new\<lparr>transport := Some ''tcp'', subsysnqn := Some ''a=b''\<rparr>)"
proof -
  have "canonical_text (tid_new\<lparr>transport := Some ''tcp'', subsysnqn := Some ''a=b''\<rparr>) = ''transport=tcp;nqn=a=b''"
    by (simp add: canonical_text_def append_kv_def tid_new_def CANONICAL_MAX_def)
  then show ?thesis using tid_canonical_roundtrip [OF v4_net_ok demo_parse] by (simp add: CANONICAL_MAX_def)
qed

text \<open>The operations without caches: what the cached object stands for, and what each call promises.\<close>

definition tid_abs :: "tid \<Rightarrow> tid" where
  "tid_abs t = invalidate_cache t"

datatype tid_call = SetIdentity "string option" "string option" "string option" | GetCanonical | GetStr | IsEmpty

datatype tid_out = Done "unit res" | Text "string option" | Answer bool

text \<open>A call with its allocations \<open>mok\<close> on the object, and the same call on a bare value; \<open>None\<close> of
  the caches' \<open>strdup\<close> is the one case where the object may answer less.\<close>

fun tid_do :: "(nat \<Rightarrow> bool) \<Rightarrow> tid_call \<Rightarrow> tid \<Rightarrow> tid_out \<times> tid" where
  "tid_do mok (SetIdentity s n i) t = (case libnvmf_tid_set_identity mok (Some t) s n i of (r, u) \<Rightarrow> (Done r, the u))"
| "tid_do mok GetCanonical t = (case libnvmf_tid_get_canonical (mok 0) (Some t) of (r, u) \<Rightarrow> (Text r, the u))"
| "tid_do mok GetStr t = (case libnvmf_tid_str (mok 0) (Some t) of (r, u) \<Rightarrow> (Text r, the u))"
| "tid_do mok IsEmpty t = (Answer (libnvmf_tid_is_empty (Some t)), t)"

fun tid_spec :: "(nat \<Rightarrow> bool) \<Rightarrow> tid_call \<Rightarrow> tid \<Rightarrow> tid_out \<times> tid" where
  "tid_spec mok (SetIdentity s n i) t = (case libnvmf_tid_set_identity mok (Some t) s n i of (r, u) \<Rightarrow> (Done r, the u))"
| "tid_spec mok GetCanonical t = (Text (Some (canonical_text t)), t)"
| "tid_spec mok GetStr t = (Text (Some (str_text t)), t)"
| "tid_spec mok IsEmpty t = (Answer (libnvmf_tid_is_empty (Some t)), t)"

fun tid_run :: "(tid_call \<Rightarrow> tid \<Rightarrow> tid_out \<times> tid) \<Rightarrow> tid_call list \<Rightarrow> tid \<Rightarrow> tid_out list \<times> tid" where
  "tid_run f [] t = ([], t)"
| "tid_run f (c # cs) t = (case f c t of (r, u) \<Rightarrow> (case tid_run f cs u of (rs, v) \<Rightarrow> (r # rs, v)))"

definition cache_ok :: "tid \<Rightarrow> bool" where
  "cache_ok t \<longleftrightarrow> (\<forall>c. canon_cache t = Some c \<longrightarrow> c = canonical_text t) \<and> (\<forall>c. str_cache t = Some c \<longrightarrow> c = str_text t)"

lemma texts_abs [simp]: "canonical_text (tid_abs t) = canonical_text t" "str_text (tid_abs t) = str_text t"
  "canonical_text (t\<lparr>canon_cache := x\<rparr>) = canonical_text t" "str_text (t\<lparr>canon_cache := x\<rparr>) = str_text t"
  "canonical_text (t\<lparr>str_cache := x\<rparr>) = canonical_text t" "str_text (t\<lparr>str_cache := x\<rparr>) = str_text t"
  by (simp_all add: tid_abs_def invalidate_cache_def canonical_text_def str_text_def)

lemma set_identity_abs:
  assumes "libnvmf_tid_set_identity mok (Some t) s n i = (r, Some u)"
  shows "libnvmf_tid_set_identity mok (Some (tid_abs t)) s n i = (r, Some (tid_abs u))" "cache_ok t \<Longrightarrow> cache_ok u"
proof -
  have sel: "hostnqn (tid_abs t) = hostnqn t" "hostid (tid_abs t) = hostid t" "subsysnqn (tid_abs t) = subsysnqn t"
    "invalidate_cache (tid_abs t) = tid_abs t"
    by (simp_all add: tid_abs_def invalidate_cache_def)
  show "libnvmf_tid_set_identity mok (Some (tid_abs t)) s n i = (r, Some (tid_abs u))"
    using assms unfolding libnvmf_tid_set_identity_def option.case sel Let_def
    by (auto simp: tid_abs_def invalidate_cache_def split: if_split_asm)
  show "cache_ok t \<Longrightarrow> cache_ok u"
    using assms unfolding libnvmf_tid_set_identity_def option.case Let_def
    by (auto simp: cache_ok_def invalidate_cache_def split: if_split_asm)
qed

lemma set_identity_Some: "\<exists>r u. libnvmf_tid_set_identity mok (Some t) s n i = (r, Some u)"
  unfolding libnvmf_tid_set_identity_def option.case Let_def by simp

lemma tid_do_refines:
  assumes "cache_ok t" "mok 0" "tid_do mok c t = (r, u)"
  shows "tid_spec mok c (tid_abs t) = (r, tid_abs u) \<and> cache_ok u"
proof (cases c)
  case (SetIdentity s n i)
  obtain q v where "libnvmf_tid_set_identity mok (Some t) s n i = (q, Some v)" using set_identity_Some by blast
  then show ?thesis using SetIdentity assms(1,3) set_identity_abs by auto
next
  case GetCanonical
  then show ?thesis using assms
    by (auto simp: libnvmf_tid_get_canonical_def Let_def cache_ok_def tid_abs_def invalidate_cache_def
        canonical_text_def str_text_def split: if_splits)
next
  case GetStr
  then show ?thesis using assms
    by (auto simp: libnvmf_tid_str_def Let_def cache_ok_def tid_abs_def invalidate_cache_def
        canonical_text_def str_text_def split: if_splits)
next
  case IsEmpty
  then show ?thesis using assms by (auto simp: libnvmf_tid_is_empty_def tid_abs_def invalidate_cache_def)
qed

text \<open>C25: The caches are invisible.  Whatever calls are made on a TID, in whatever order, starting from
  one without cached strings: every answer is the one a TID that computes its strings afresh each
  time would give, and the fields end up the same; in particular no stale string survives
  \<open>libnvmf_tid_set_identity\<close>.\<close>

theorem tid_caches_refine:
  assumes "no_cache t" "mok 0"
  shows "case tid_run (tid_do mok) cs t of (rs, u) \<Rightarrow> tid_run (tid_spec mok) cs (tid_abs t) = (rs, tid_abs u)"
proof -
  have "cache_ok t" using assms(1) by (simp add: no_cache_def cache_ok_def)
  then show ?thesis
  proof (induction cs arbitrary: t)
    case (Cons c cs)
    obtain r u where u: "tid_do mok c t = (r, u)" by fastforce
    then have "tid_spec mok c (tid_abs t) = (r, tid_abs u)" "cache_ok u" using tid_do_refines Cons.prems assms(2) by blast+
    then show ?case using Cons.IH [of u] u by (auto split: prod.splits)
  qed simp
qed

theorem tid_caches_refine_witness:
  "case tid_run (tid_do (\<lambda>_. True)) [GetStr, SetIdentity (Some ''n'') None None, GetStr] tid_new of
     (rs, u) \<Rightarrow> tid_run (tid_spec (\<lambda>_. True)) [GetStr, SetIdentity (Some ''n'') None None, GetStr] (tid_abs tid_new) = (rs, tid_abs u)"
  by (rule tid_caches_refine) (simp_all add: no_cache_def tid_new_def)

text \<open>\<open>libnvmf_tid_set_identity\<close> is all or nothing, and a host stays one pair of NQN and
  identifier: on an error the TID is untouched, and on success an identifier never stands without an
  NQN; every argument given has been stored, an identifier that was neither given nor set is the one
  derived from the NQN, and every other field is as before.\<close>

theorem tid_set_identity_atomic:
  "case libnvmf_tid_set_identity mok (Some t) s n i of
     (Inl e, u) \<Rightarrow> u = Some t \<and> (e = EINVAL \<or> e = ENOMEM)
   | (Inr _, u) \<Rightarrow> \<exists>v. u = Some v \<and> \<not> (hostid v \<noteq> None \<and> hostnqn v = None) \<and>
       subsysnqn v = or_else s (subsysnqn t) \<and> hostnqn v = or_else n (hostnqn t) \<and>
       hostid v = or_else i (or_else (hostid t)
         (case hostnqn v of None \<Rightarrow> None | Some q \<Rightarrow> libnvme_hostid_from_hostnqn (mok 0) q)) \<and>
       transport v = transport t \<and> traddr v = traddr t \<and> trsvcid v = trsvcid t \<and>
       host_traddr v = host_traddr t \<and> host_iface v = host_iface t"
  unfolding libnvmf_tid_set_identity_def option.case Let_def
  by (auto simp: or_else_def copy_failed_def shr_xstrdup_def invalidate_cache_def split: option.splits)

text \<open>The host identifier is taken from behind the first \<open>uuid:\<close> anywhere in the host NQN, not only
  from an NQN in the UUID format: an NQN of another organisation that contains these characters
  yields an identifier that is no UUID.\<close>

theorem tid_hostid_not_uuid:
  "libnvmf_tid_set_identity (\<lambda>_. True) (Some tid_new) None (Some ''nqn.2020-01.org.acme:nonuuid:x'') None =
     (Inr (), Some (tid_new\<lparr>hostnqn := Some ''nqn.2020-01.org.acme:nonuuid:x'', hostid := Some ''x''\<rparr>)) \<and>
   \<not> shr_uuid_str_valid (Some ''x'')"
proof -
  have "libnvme_hostid_from_hostnqn True ''nqn.2020-01.org.acme:nonuuid:x'' = Some ''x''"
    by (simp add: libnvme_hostid_from_hostnqn_def scan_lit_def)
  moreover have "\<not> shr_uuid_str_valid (Some ''x'')" by code_simp
  ultimately show ?thesis
    by (simp add: libnvmf_tid_set_identity_def Let_def or_else_def shr_xstrdup_def copy_failed_def invalidate_cache_def tid_new_def)
qed

end
