(* ===== verification/DiscTid.thy ===== *)
theory DiscTid
  imports Tid
begin

text \<open>
  Transport IDs as the discovery daemon uses them, \<open>discoverd/src/tid.c\<close> and \<open>tid.h\<close>: their
  construction with a default port and a default host, the comparison of two candidates, the
  comparison of a candidate with a connection the kernel reports, the scope of link-local addresses,
  and the name of the systemd unit that serves a candidate.

  \<open>mok\<close> gives the outcomes of the allocations that build an object; temporary strings can be
  allocated.  The C library's address functions are the argument \<open>net\<close>, as in theory \<open>Net\<close>.
\<close>

section \<open>Construction\<close>

definition NVME_RDMA_IP_PORT :: string where "NVME_RDMA_IP_PORT = ''4420''"
definition NVME_DISC_IP_PORT :: string where "NVME_DISC_IP_PORT = ''8009''"
definition NVME_DISC_SUBSYS_NAME :: string where
  "NVME_DISC_SUBSYS_NAME = ''nqn.2014-08.org.nvmexpress.discovery''"

definition libnvmf_get_default_trsvcid :: "string option \<Rightarrow> bool \<Rightarrow> string option" where
  "libnvmf_get_default_trsvcid tr discovery_ctrl =
     (if tr = None then None
      else if tr = Some ''tcp'' then Some (if discovery_ctrl then NVME_DISC_IP_PORT else NVME_RDMA_IP_PORT)
      else if tr = Some ''rdma'' then Some NVME_RDMA_IP_PORT
      else None)"

text \<open>\<open>tid_new\<close> of the daemon; \<open>args\<close> holds the field arguments.\<close>

definition tid_new_for :: "inet \<Rightarrow> (nat \<Rightarrow> bool) \<Rightarrow> tid \<Rightarrow> bool \<Rightarrow> tid option" where
  "tid_new_for net mok args is_dc =
     (let svc = (if trsvcid args = None \<or> trsvcid args = Some [] then libnvmf_get_default_trsvcid (transport args) is_dc
                 else trsvcid args)
      in case libnvmf_tid_from_fields net mok True (args\<lparr>trsvcid := svc\<rparr>) of Inl _ \<Rightarrow> None | Inr t \<Rightarrow> Some t)"

definition tid_set_default_host_if_unset ::
  "(nat \<Rightarrow> bool) \<Rightarrow> tid \<Rightarrow> string option \<Rightarrow> string option \<Rightarrow> unit res \<times> tid" where
  "tid_set_default_host_if_unset mok t nqn0 id0 =
     (if hostnqn t \<noteq> None then (Inr (), t)
      else (case libnvmf_tid_set_identity mok (Some t) None nqn0 (if hostid t \<noteq> None then None else id0) of
              (r, u) \<Rightarrow> (r, the u)))"

section \<open>Comparison of candidates\<close>

definition canon :: "tid \<Rightarrow> string option" where
  "canon t = fst (libnvmf_tid_get_canonical True (Some t))"

definition tid_same :: "tid \<Rightarrow> tid \<Rightarrow> bool" where
  "tid_same a b = shr_streq0 (canon a) (canon b)"

definition tid_target_same :: "tid \<Rightarrow> tid \<Rightarrow> bool" where
  "tid_target_same a b \<longleftrightarrow> shr_streq0 (transport a) (transport b) \<and> shr_streq0 (traddr a) (traddr b) \<and>
     shr_streq0 (trsvcid a) (trsvcid b)"

section \<open>Comparison with a connection\<close>

definition tid_addr_eq :: "inet \<Rightarrow> bool \<Rightarrow> string option \<Rightarrow> string option \<Rightarrow> bool" where
  "tid_addr_eq net ip a b = (if ip then shr_ipaddrs_eq net True False a b else shr_streq0 a b)"

definition tcp_host_side_matches ::
  "inet \<Rightarrow> ifaddr list \<Rightarrow> string option \<Rightarrow> string option \<Rightarrow> tid \<Rightarrow> bool \<Rightarrow> bool" where
  "tcp_host_side_matches net ifs cand_traddr cand_iface ex live =
     (let src = host_traddr ex; ex_if = host_iface ex
      in if src = None then
           (if cand_iface \<noteq> None \<and> ex_if \<noteq> None \<and> \<not> shr_streq0 cand_iface ex_if then False
            else if cand_traddr \<noteq> None \<and> ex_if \<noteq> None \<and>
                    \<not> shr_iface_primary_addr_matches net True ifs (the ex_if) cand_traddr then False
            else live \<or> ex_if \<noteq> None)
         else if cand_traddr \<noteq> None \<and> \<not> shr_ipaddrs_eq net True False cand_traddr src then False
         else if cand_iface \<noteq> None \<and> \<not> shr_streq0 cand_iface (shr_iface_matching_addr net True ifs src) then False
         else True)"

definition hostid_matches :: "string option \<Rightarrow> string option \<Rightarrow> bool" where
  "hostid_matches c e = (case (c, e) of (Some a, Some b) \<Rightarrow> strcasecmp_eq a b | _ \<Rightarrow> True)"

definition tid_matches_existing :: "inet \<Rightarrow> ifaddr list \<Rightarrow> tid \<Rightarrow> tid \<Rightarrow> bool \<Rightarrow> bool \<Rightarrow> bool" where
  "tid_matches_existing net ifs c ex ex_is_dc live =
     (let tr = transport c; nqn = subsysnqn c;
          ip = shr_streq0 tr (Some ''tcp'') \<or> shr_streq0 tr (Some ''rdma'')
      in if \<not> shr_streq0 tr (transport ex) then False
         else if \<not> shr_streq0 (trsvcid c) (trsvcid ex) then False
         else if \<not> tid_addr_eq net ip (traddr c) (traddr ex) then False
         else if \<not> shr_streq0 (hostnqn c) (hostnqn ex) then False
         else if \<not> hostid_matches (hostid c) (hostid ex) then False
         else if (if shr_streq0 nqn (Some NVME_DISC_SUBSYS_NAME) then \<not> ex_is_dc else \<not> shr_streq0 nqn (subsysnqn ex))
         then False
         else if shr_streq0 tr (Some ''tcp'') then
           \<not> ((host_traddr c \<noteq> None \<or> host_iface c \<noteq> None) \<and>
              \<not> tcp_host_side_matches net ifs (host_traddr c) (host_iface c) ex live)
         else if host_traddr c \<noteq> None \<and> host_traddr ex \<noteq> None \<and> \<not> tid_addr_eq net ip (host_traddr c) (host_traddr ex)
         then False
         else if host_iface c \<noteq> None \<and> host_iface ex \<noteq> None \<and> \<not> shr_streq0 (host_iface c) (host_iface ex)
         then False
         else True)"

section \<open>Link-local addresses\<close>

definition tid_link_local_scope :: "inet \<Rightarrow> tid \<Rightarrow> string option" where
  "tid_link_local_scope net t =
     (case traddr t of
        None \<Rightarrow> None
      | Some a \<Rightarrow>
          (let scope = dropWhile (\<lambda>c. c \<noteq> PCT) a
           in if scope = [] \<or> \<not> shr_ipv6_is_link_local net (Some a) then None else Some (tl scope)))"

definition tid_scope_link_local :: "inet \<Rightarrow> bool \<Rightarrow> string \<Rightarrow> string option \<Rightarrow> string option" where
  "tid_scope_link_local net mem addr scope =
     (if \<not> mem then None
      else (case scope of
              None \<Rightarrow> Some addr
            | Some s \<Rightarrow> if PCT \<in> set addr \<or> \<not> shr_ipv6_is_link_local net (Some addr) then Some addr
                        else Some (addr @ PCT # s)))"

section \<open>Units\<close>

text \<open>\<open>fnv1a_64\<close>: FNV-1a, 64 bits.\<close>

definition fnv1a_64 :: "bytes \<Rightarrow> u64" where
  "fnv1a_64 buf = foldl (\<lambda>hash b. (hash XOR ucast b) * 1099511628211) 14695981039346656037 buf"

definition fmt_012x :: "u64 \<Rightarrow> string" where
  "fmt_012x h = map (\<lambda>i. ''0123456789abcdef'' ! unat (drop_bit (44 - 4 * i) h AND 15)) [0..<12]"

definition tid_unit_name :: "bool \<Rightarrow> tid \<Rightarrow> string option" where
  "tid_unit_name mem t =
     (case canon t of
        None \<Rightarrow> None
      | Some c \<Rightarrow>
          if \<not> mem then None
          else Some (''nvme-discoverd-'' @ fmt_012x (fnv1a_64 (map of_char c) AND 0xffffffffffff) @ ''.service''))"


section \<open>Lemmas\<close>

lemma tid_same_canon: "tid_same a b \<longleftrightarrow> canon a = canon b"
  by (simp add: tid_same_def)

lemma canon_no_cache: "canon_cache t = None \<Longrightarrow> canon t = Some (canonical_text t)"
  by (simp add: canon_def libnvmf_tid_get_canonical_def Let_def)

lemma canon_cached: "cache_ok t \<Longrightarrow> canon t = Some (canonical_text t)"
  by (auto simp: cache_ok_def canon_def libnvmf_tid_get_canonical_def Let_def)

text \<open>A copy has the fields of the original and no cached strings.\<close>

lemma xstrdup_ok: "\<not> copy_failed a (shr_xstrdup ok a) \<Longrightarrow> shr_xstrdup ok a = a"
  by (auto simp: copy_failed_def shr_xstrdup_def)

lemma tid_abs_sel [simp]:
  "transport (tid_abs t) = transport t" "traddr (tid_abs t) = traddr t" "trsvcid (tid_abs t) = trsvcid t"
  "subsysnqn (tid_abs t) = subsysnqn t" "host_traddr (tid_abs t) = host_traddr t" "host_iface (tid_abs t) = host_iface t"
  "hostnqn (tid_abs t) = hostnqn t" "hostid (tid_abs t) = hostid t" "canon_cache (tid_abs t) = None"
  "str_cache (tid_abs t) = None"
  by (simp_all add: tid_abs_def invalidate_cache_def)

lemma copied: "\<not> any_copy_failed src (copy_fields mok src) \<Longrightarrow> copy_fields mok src = tid_abs src"
  unfolding any_copy_failed_def copy_fields_def
  by (intro tid.equality) (simp_all add: tid_new_def, auto intro: xstrdup_ok)

lemma dup_abs: "libnvmf_tid_dup mok (Some t) = Some u \<Longrightarrow> u = tid_abs t"
  by (auto simp: libnvmf_tid_dup_def Let_def copied split: if_splits)

lemma canon_abs: "cache_ok t \<Longrightarrow> canon (tid_abs t) = canon t"
  by (simp add: canon_cached canon_no_cache)

lemma dup_same: "libnvmf_tid_dup mok (Some t) = Some u \<Longrightarrow> cache_ok t \<Longrightarrow> tid_same u t"
  by (auto dest!: dup_abs simp: canon_abs tid_same_canon)

text \<open>What \<open>tid_new\<close> builds.\<close>

definition port_for :: "tid \<Rightarrow> bool \<Rightarrow> string option" where
  "port_for args is_dc = (if trsvcid args \<in> {None, Some []} then libnvmf_get_default_trsvcid (transport args) is_dc
     else trsvcid args)"

lemma tid_new_for_sanitized:
  assumes "tid_new_for net mok args is_dc = Some t"
  shows "tid_sanitize_addr net (\<lambda>k. mok (9 + k)) (tid_abs (args\<lparr>trsvcid := port_for args is_dc\<rparr>)) = Inr t"
proof -
  have p: "(if trsvcid args = None \<or> trsvcid args = Some [] then libnvmf_get_default_trsvcid (transport args) is_dc
     else trsvcid args) = port_for args is_dc" by (simp add: port_for_def)
  show ?thesis
    using assms unfolding tid_new_for_def Let_def p libnvmf_tid_from_fields_def
    by (auto simp: copied split: if_splits sum.splits)
qed

lemma clean_ports: "clean NVME_RDMA_IP_PORT" "clean NVME_DISC_IP_PORT"
  by (simp_all add: clean_def NVME_RDMA_IP_PORT_def NVME_DISC_IP_PORT_def ctype_defs)

lemma tid_new_for_good:
  assumes "inet_ok net" "tid_new_for net mok args is_dc = Some t" "tid_clean (args\<lparr>trsvcid := port_for args is_dc\<rparr>)"
  shows "tid_clean t" "no_cache t" "sanitized net t"
proof -
  have "tid_clean (tid_abs (args\<lparr>trsvcid := port_for args is_dc\<rparr>))" "no_cache (tid_abs (args\<lparr>trsvcid := port_for args is_dc\<rparr>))"
    using assms(3) by (simp_all add: tid_clean_iff no_cache_def)
  then show "tid_clean t" "no_cache t" "sanitized net t"
    using sanitize_clean [OF assms(1) tid_new_for_sanitized [OF assms(2)]]
      sanitize_no_cache [OF tid_new_for_sanitized [OF assms(2)]]
      sanitize_idem [OF assms(1) tid_new_for_sanitized [OF assms(2)]] by auto
qed

lemma canonical_inj:
  assumes "tid_clean a" "no_cache a" "sanitized net a" "tid_clean b" "no_cache b" "sanitized net b"
    "length (canonical_text a) < CANONICAL_MAX - 1" "canonical_text a = canonical_text b"
  shows "a = b"
  using parse_canonical [OF assms(1-3), of True] parse_canonical [OF assms(4-6), of True] assms(7,8) by simp


lemma scope_parts:
  assumes "PCT \<notin> set h"
  shows "takeWhile (\<lambda>c. c \<noteq> PCT) (h @ PCT # s) = h" "dropWhile (\<lambda>c. c \<noteq> PCT) (h @ PCT # s) = PCT # s"
  using assms by (induction h) auto

lemma link_local_unscoped:
  assumes "PCT \<notin> set addr" "length addr < INET6_ADDRSTRLEN" "pton6 net addr = Some a" "linklocal a"
  shows "shr_ipv6_is_link_local net (Some addr)"
proof -
  have tw: "takeWhile (\<lambda>c. c \<noteq> PCT) addr = addr" using assms(1) by (induction addr) auto
  show ?thesis using assms(2-4) unfolding shr_ipv6_is_link_local_def Let_def option.case tw by simp
qed

text \<open>The scope survives the canonical spelling of the address.\<close>

lemma canon_ip_scoped:
  assumes "inet_ok net" "pton4 net addr = None" "pton6 net addr = Some a" "linklocal a" "PCT \<notin> set addr"
    "length addr < INET6_ADDRSTRLEN"
  obtains h where "canon_ip net True (addr @ PCT # s) = Inr (h @ PCT # s)" "PCT \<notin> set h" "pton6 net h = Some a"
    "length h < INET6_ADDRSTRLEN"
proof -
  obtain h where h: "ntop6 net a = Some h" "pton6 net h = Some a" "list_all addr_char h" "length h < INET6_ADDRSTRLEN"
    using inet_okD(4) [OF assms(1,3)] by blast
  have "PCT \<notin> set h" using h(3) addr_char_props by (auto simp: list_all_iff)
  moreover have "canon_ip net True (addr @ PCT # s) = Inr (h @ PCT # s)"
    using assms h(1) unfolding canon_ip_def Let_def scope_parts [OF assms(5)] by simp
  ultimately show ?thesis using that h by blast
qed

lemma link_local_scope_scoped:
  assumes "traddr t = Some (h @ PCT # s)" "PCT \<notin> set h" "pton6 net h = Some a" "linklocal a" "length h < INET6_ADDRSTRLEN"
  shows "tid_link_local_scope net t = Some s"
  using assms(3-5) unfolding tid_link_local_scope_def shr_ipv6_is_link_local_def assms(1) Let_def option.case
    scope_parts [OF assms(2)] by simp

section \<open>Properties\<close>

text \<open>C39: Two candidates built by \<open>tid_new\<close> from fields that are not empty, trimmed and without a
  semicolon are the same for \<open>tid_same\<close> exactly when all eight fields agree in their canonical form:
  no two different candidates are confused as long as the canonical string of one fits its buffer.\<close>

theorem tid_same_exact:
  assumes "inet_ok net" "tid_new_for net mok x dc = Some a" "tid_new_for net mok' y dc' = Some b"
    "tid_clean (x\<lparr>trsvcid := port_for x dc\<rparr>)" "tid_clean (y\<lparr>trsvcid := port_for y dc'\<rparr>)"
    "length (canonical_text a) < CANONICAL_MAX - 1"
  shows "tid_same a b \<longleftrightarrow> a = b"
proof
  note ga = tid_new_for_good [OF assms(1,2,4)] and gb = tid_new_for_good [OF assms(1,3,5)]
  assume "tid_same a b"
  then have "canonical_text a = canonical_text b"
    using ga(2) gb(2) by (simp add: tid_same_canon canon_no_cache no_cache_def)
  then show "a = b" using canonical_inj [OF ga gb assms(6)] by simp
qed (simp add: tid_same_canon)

definition demo_tid :: "string \<Rightarrow> tid" where
  "demo_tid port = tid_new\<lparr>transport := Some ''tcp'', trsvcid := Some port, subsysnqn := Some ''nqn.x''\<rparr>"

lemma demo_new: "tid_new_for v4_net (\<lambda>_. True) (tid_new\<lparr>transport := Some ''tcp'', subsysnqn := Some ''nqn.x''\<rparr>) dc =
  Some (demo_tid (if dc then ''8009'' else ''4420''))"
  by (simp add: tid_new_for_def tid_new_def libnvmf_get_default_trsvcid_def libnvmf_tid_from_fields_def copy_fields_def
    any_copy_failed_def copy_failed_def shr_xstrdup_def tid_sanitize_addr_def demo_tid_def NVME_DISC_IP_PORT_def
    NVME_RDMA_IP_PORT_def)

theorem tid_same_exact_witness: "\<not> tid_same (demo_tid ''8009'') (demo_tid ''4420'')"
proof -
  have "length (canonical_text (demo_tid ''8009'')) < CANONICAL_MAX - 1"
    by (simp add: canonical_text_def append_kv_def demo_tid_def tid_new_def CANONICAL_MAX_def)
  moreover have "tid_clean ((tid_new\<lparr>transport := Some ''tcp'', subsysnqn := Some ''nqn.x''\<rparr>)
      \<lparr>trsvcid := port_for (tid_new\<lparr>transport := Some ''tcp'', subsysnqn := Some ''nqn.x''\<rparr>) dc\<rparr>)" for dc
    using clean_ports by (simp add: tid_clean_iff port_for_def libnvmf_get_default_trsvcid_def tid_new_def clean_def ctype_defs)
  ultimately have "tid_same (demo_tid ''8009'') (demo_tid ''4420'') \<longleftrightarrow> demo_tid ''8009'' = demo_tid ''4420''"
    using tid_same_exact [OF v4_net_ok demo_new [of True, simplified] demo_new [of False, simplified]] by simp
  then show ?thesis by (simp add: demo_tid_def tid_new_def)
qed

text \<open>A link-local address from a log page or from mDNS gets the scope of the link it was learned on,
  and the scope stays with the candidate built from it, so that whatever this candidate reports in
  turn is scoped to the same link.\<close>

theorem tid_scope_inherited:
  assumes "inet_ok net" "pton4 net addr = None" "pton6 net addr = Some a" "linklocal a" "PCT \<notin> set addr"
    "length addr < INET6_ADDRSTRLEN" "transport args = Some ''tcp'' \<or> transport args = Some ''rdma''"
    "tid_scope_link_local net True addr (Some s) = Some r"
    "tid_new_for net (\<lambda>_. True) (args\<lparr>traddr := Some r\<rparr>) is_dc = Some t"
  shows "tid_link_local_scope net t = Some s"
proof -
  have r: "r = addr @ PCT # s" using link_local_unscoped [OF assms(5,6,3,4)] assms(5,8)
    by (auto simp: tid_scope_link_local_def split: if_splits)
  obtain h where h: "canon_ip net True (addr @ PCT # s) = Inr (h @ PCT # s)" "PCT \<notin> set h" "pton6 net h = Some a"
    "length h < INET6_ADDRSTRLEN" using canon_ip_scoped [OF assms(1-6)] by metis
  have "traddr t = Some (h @ PCT # s)"
    using tid_new_for_sanitized [OF assms(9)]
  proof (cases rule: sanitize_cases)
    case (ip x y)
    then show ?thesis using h(1) r by auto
  qed (use assms(7) in auto)
  then show ?thesis using link_local_scope_scoped h(2-4) assms(4) by blast
qed

text \<open>A C library that also knows one link-local address.\<close>

definition ll_addr :: bytes where "ll_addr = [0xfe, 0x80] @ replicate 13 0 @ [1]"

definition ll_net :: inet where
  "ll_net = v4_net\<lparr>pton6 := (\<lambda>s. if s = ''fe80::1'' \<or> s = ''FE80::1'' then Some ll_addr else None),
     ntop6 := (\<lambda>a. if a = ll_addr then Some ''fe80::1'' else None)\<rparr>"

lemma ll_not_v4: "pton4 ll_net ''fe80::1'' = None" "pton4 ll_net ''FE80::1'' = None"
  by (simp_all add: ll_net_def v4_net_def)

lemma ll_net_ok: "inet_ok ll_net"
proof -
  have "list_all addr_char ''fe80::1''" by (simp add: addr_char_def ctype_defs)
  moreover have "length ll_addr = 16" by (simp add: ll_addr_def)
  ultimately show ?thesis
    using v4_net_ok ll_not_v4 unfolding inet_ok_def by (auto simp: ll_net_def INET6_ADDRSTRLEN_def split: if_splits)
qed

theorem tid_scope_inherited_witness:
  "tid_link_local_scope ll_net (tid_new\<lparr>transport := Some ''tcp'', traddr := Some (''fe80::1'' @ PCT # ''eth0''),
     trsvcid := Some ''4420''\<rparr>) = Some ''eth0''"
proof -
  let ?args = "tid_new\<lparr>transport := Some ''tcp''\<rparr>" and ?r = "''FE80::1'' @ PCT # ''eth0''"
  have h: "PCT \<notin> set ''FE80::1''" "linklocal ll_addr" "pton6 ll_net ''FE80::1'' = Some ll_addr"
    "length ''FE80::1'' < INET6_ADDRSTRLEN" "ntop6 ll_net ll_addr = Some ''fe80::1''"
    by (simp_all add: PCT_def linklocal_def ll_addr_def ll_net_def INET6_ADDRSTRLEN_def)
  have r: "tid_scope_link_local ll_net True ''FE80::1'' (Some ''eth0'') = Some ?r"
    using h(1) link_local_unscoped [OF h(1,4,3,2)] by (simp add: tid_scope_link_local_def)
  have "canon_ip ll_net True ?r = Inr (''fe80::1'' @ PCT # ''eth0'')"
    using h(2-5) ll_not_v4(2) unfolding canon_ip_def Let_def scope_parts [OF h(1)] by simp
  then have t: "tid_new_for ll_net (\<lambda>_. True) (?args\<lparr>traddr := Some ?r\<rparr>) False =
      Some (tid_new\<lparr>transport := Some ''tcp'', traddr := Some (''fe80::1'' @ PCT # ''eth0''), trsvcid := Some ''4420''\<rparr>)"
    by (simp add: tid_new_for_def tid_new_def libnvmf_get_default_trsvcid_def libnvmf_tid_from_fields_def copy_fields_def
      any_copy_failed_def copy_failed_def shr_xstrdup_def tid_sanitize_addr_def NVME_RDMA_IP_PORT_def)
  show ?thesis
    using tid_scope_inherited [OF ll_net_ok ll_not_v4(2) h(3,2,1,4) _ r t] by (simp add: tid_new_def)
qed

text \<open>A connection over another link serves an RDMA candidate with a link-local address: the scope, which
  \<open>tid_scope_link_local\<close> added to select the link, takes no part in the comparison.\<close>

lemma tid_matches_other_link:
  assumes "pton6 net h = Some a" "PCT \<notin> set h" "pton4 net (h @ PCT # s) = None" "pton4 net (h @ PCT # s') = None"
    "transport t = Some ''rdma''" "host_traddr t = None" "host_iface t = None" "subsysnqn t \<noteq> Some NVME_DISC_SUBSYS_NAME"
  shows "tid_matches_existing net ifs (t\<lparr>traddr := Some (h @ PCT # s)\<rparr>) (t\<lparr>traddr := Some (h @ PCT # s')\<rparr>) is_dc live"
proof -
  have "shr_ipaddrs_eq net True False (Some (h @ PCT # s)) (Some (h @ PCT # s'))"
    using assms(1,3,4) by (simp add: shr_ipaddrs_eq_def parse_numeric_addr_def scope_parts [OF assms(2)] Let_def
      del: takeWhile_append2 dropWhile_append2)
  moreover have "hostid_matches x x" for x by (simp add: hostid_matches_def strcasecmp_eq_def split: option.split)
  ultimately show ?thesis using assms(5-8) by (simp add: tid_matches_existing_def tid_addr_eq_def Let_def)
qed

end
