(* ===== verification/Inventory.thy ===== *)
theory Inventory
  imports DiscTid
begin

text \<open>
  The inventory of the discovery daemon, \<open>discoverd/src/inventory.c\<close>: the sets of discovery
  controllers (DCs) and I/O controllers (IOCs) from the NBFT and the configuration, the DCs found
  through mDNS or FC, the cache of the log page of every DC, and the configured host names still
  being looked up.  The questions it answers are whether a controller is desired, through how many
  referrals, and where it comes from.

  The linked lists and the growable arrays are lists.  \<open>mok\<close> and \<open>aok\<close> give the outcomes of
  allocations; \<open>rok\<close> says whether \<open>dmn_resolve\<close> starts a lookup, \<open>tok\<close> whether the event loop takes a
  timer.  The counter of lookups has the width of \<open>unsigned int\<close>.  Reading the NBFT tables
  (\<open>inventory_load_nbft\<close>) and freeing (\<open>inventory_free\<close>) are left out.
\<close>

section \<open>State\<close>

record dlp_entry =
  dc_tid :: tid
  iocs :: "tid list"
  referrals :: "tid list"

text \<open>The fields of \<open>libnvmf_config_conn\<close> that the inventory reads: its role and the eight strings of a
  transport ID.\<close>

record config_conn =
  conn_is_dc :: bool
  conn_tid :: tid

record cfg_conn_entry =
  ce_tid :: tid
  ce_conn :: config_conn

record cfg_lookup =
  lconn :: config_conn
  query :: bool
  retry_timer :: "nat option"
  retry_sec :: nat
  lfirst :: bool

record inventory =
  nbft_dcs :: "tid list"
  nbft_iocs :: "tid list"
  cfg_dcs :: "tid list"
  cfg_iocs :: "tid list"
  discovered_dcs :: "tid list"
  dlp_cache :: "dlp_entry list"
  cfg_conns :: "cfg_conn_entry list"
  lookups :: "cfg_lookup list"
  nr_first_lookups :: u32

definition LOOKUP_RETRY_MIN_SEC :: nat where "LOOKUP_RETRY_MIN_SEC = 1"
definition LOOKUP_RETRY_MAX_SEC :: nat where "LOOKUP_RETRY_MAX_SEC = 300"
definition INVENTORY_MAX_REFERRAL_HOPS :: nat where "INVENTORY_MAX_REFERRAL_HOPS = 8"

lemmas retry_bounds = LOOKUP_RETRY_MIN_SEC_def LOOKUP_RETRY_MAX_SEC_def

definition inventory_new :: inventory where
  "inventory_new = \<lparr>nbft_dcs = [], nbft_iocs = [], cfg_dcs = [], cfg_iocs = [], discovered_dcs = [], dlp_cache = [],
     cfg_conns = [], lookups = [], nr_first_lookups = 0\<rparr>"

section \<open>Lists of transport IDs\<close>

text \<open>\<open>tid_list_take\<close>: an item that cannot be appended is freed.\<close>

fun tid_list_take :: "(nat \<Rightarrow> bool) \<Rightarrow> nat \<Rightarrow> tid list \<Rightarrow> tid list \<Rightarrow> tid list" where
  "tid_list_take aok i l [] = l"
| "tid_list_take aok i l (t # ts) = tid_list_take aok (i + 1) (if aok i then l @ [t] else l) ts"

fun tid_list_contains :: "tid list \<Rightarrow> tid \<Rightarrow> bool" where
  "tid_list_contains [] t = False"
| "tid_list_contains (x # l) t = (if tid_same x t then True else tid_list_contains l t)"

text \<open>The last item takes the place of the removed one.\<close>

definition tid_list_remove :: "tid list \<Rightarrow> tid \<Rightarrow> tid list" where
  "tid_list_remove l t =
     (let i = length (takeWhile (\<lambda>x. \<not> tid_same x t) l)
      in if i < length l then butlast (l[i := last l]) else l)"

section \<open>The cache of log pages\<close>

fun update_entry :: "tid \<Rightarrow> (dlp_entry \<Rightarrow> dlp_entry) \<Rightarrow> dlp_entry list \<Rightarrow> dlp_entry list" where
  "update_entry t f [] = []"
| "update_entry t f (e # es) = (if tid_same (dc_tid e) t then f e # es else e # update_entry t f es)"

definition inventory_update_dlp ::
  "(nat \<Rightarrow> bool) \<Rightarrow> (nat \<Rightarrow> bool) \<Rightarrow> (nat \<Rightarrow> bool) \<Rightarrow> inventory \<Rightarrow> tid \<Rightarrow> tid list \<Rightarrow> tid list \<Rightarrow> inventory" where
  "inventory_update_dlp mok aok aok' iv t xs ys =
     (if list_ex (\<lambda>e. tid_same (dc_tid e) t) (dlp_cache iv)
      then iv\<lparr>dlp_cache := update_entry t (\<lambda>e. e\<lparr>iocs := tid_list_take aok 0 [] xs,
                 referrals := tid_list_take aok' 0 [] ys\<rparr>) (dlp_cache iv)\<rparr>
      else if \<not> mok 0 then iv
      else (case libnvmf_tid_dup (\<lambda>k. mok (1 + k)) (Some t) of
              None \<Rightarrow> iv
            | Some u \<Rightarrow> iv\<lparr>dlp_cache := \<lparr>dc_tid = u, iocs = tid_list_take aok 0 [] xs,
                               referrals = tid_list_take aok' 0 [] ys\<rparr> # dlp_cache iv\<rparr>))"

definition inventory_add_discovered_dc :: "(nat \<Rightarrow> bool) \<Rightarrow> bool \<Rightarrow> inventory \<Rightarrow> tid \<Rightarrow> inventory" where
  "inventory_add_discovered_dc mok aok iv t =
     (if tid_list_contains (discovered_dcs iv) t then iv
      else (case libnvmf_tid_dup mok (Some t) of
              None \<Rightarrow> iv
            | Some u \<Rightarrow> if aok then iv\<lparr>discovered_dcs := discovered_dcs iv @ [u]\<rparr> else iv))"

fun remove_entry :: "tid \<Rightarrow> dlp_entry list \<Rightarrow> dlp_entry list" where
  "remove_entry t [] = []"
| "remove_entry t (e # es) = (if tid_same (dc_tid e) t then es else e # remove_entry t es)"

definition inventory_forget_dc :: "inventory \<Rightarrow> tid \<Rightarrow> inventory" where
  "inventory_forget_dc iv t =
     iv\<lparr>discovered_dcs := tid_list_remove (discovered_dcs iv) t, dlp_cache := remove_entry t (dlp_cache iv)\<rparr>"

section \<open>Queries\<close>

definition has_source :: "inventory \<Rightarrow> tid \<Rightarrow> bool" where
  "has_source iv t \<longleftrightarrow> tid_list_contains (nbft_dcs iv) t \<or> tid_list_contains (cfg_dcs iv) t \<or>
     tid_list_contains (discovered_dcs iv) t"

primrec hops :: "inventory \<Rightarrow> tid \<Rightarrow> nat \<Rightarrow> int" where
  "hops iv t 0 = (if has_source iv t then 0 else - 1)"
| "hops iv t (Suc budget) =
     (if has_source iv t then 0
      else foldl (\<lambda>best e.
             if \<not> tid_list_contains (referrals e) t then best
             else (let h = hops iv (dc_tid e) budget in if h \<ge> 0 \<and> (best < 0 \<or> h + 1 < best) then h + 1 else best))
           (- 1) (dlp_cache iv))"

definition inventory_referral_hops :: "inventory \<Rightarrow> tid \<Rightarrow> int" where
  "inventory_referral_hops iv t = hops iv t INVENTORY_MAX_REFERRAL_HOPS"

text \<open>The source and, for \<open>''dlp''\<close>, the parent.\<close>

fun source_loop :: "inventory \<Rightarrow> tid \<Rightarrow> dlp_entry list \<Rightarrow> (string \<times> tid option) option" where
  "source_loop iv t [] = None"
| "source_loop iv t (e # es) =
     (if (tid_list_contains (iocs e) t \<or> tid_list_contains (referrals e) t) \<and> inventory_referral_hops iv (dc_tid e) \<ge> 0
      then Some (''dlp'', Some (dc_tid e)) else source_loop iv t es)"

definition inventory_source :: "inventory \<Rightarrow> tid \<Rightarrow> (string \<times> tid option) option" where
  "inventory_source iv t =
     (if tid_list_contains (nbft_dcs iv) t \<or> tid_list_contains (nbft_iocs iv) t then Some (''nbft'', None)
      else if tid_list_contains (cfg_dcs iv) t \<or> tid_list_contains (cfg_iocs iv) t then Some (''config'', None)
      else if tid_list_contains (discovered_dcs iv) t then Some (''discovered'', None)
      else source_loop iv t (dlp_cache iv))"

definition inventory_is_desired :: "inventory \<Rightarrow> tid \<Rightarrow> bool" where
  "inventory_is_desired iv t \<longleftrightarrow>
     tid_list_contains (nbft_iocs iv) t \<or> tid_list_contains (cfg_iocs iv) t \<or> inventory_referral_hops iv t \<ge> 0 \<or>
     list_ex (\<lambda>e. tid_list_contains (iocs e) t \<and> inventory_referral_hops iv (dc_tid e) \<ge> 0) (dlp_cache iv)"

definition inventory_is_nbft :: "inventory \<Rightarrow> tid \<Rightarrow> bool" where
  "inventory_is_nbft iv t \<longleftrightarrow> tid_list_contains (nbft_dcs iv) t \<or> tid_list_contains (nbft_iocs iv) t"

text \<open>One loop of \<open>inventory_desired_dcs\<close>: the copy of an item is appended unless it is there already;
  the first loop takes every item.  \<open>dok i\<close> are the allocations for item \<open>i\<close>.\<close>

fun merge :: "(nat \<Rightarrow> nat \<Rightarrow> bool) \<Rightarrow> nat \<Rightarrow> bool \<Rightarrow> tid list \<Rightarrow> tid list \<Rightarrow> tid list" where
  "merge dok i all combined [] = combined"
| "merge dok i all combined (t # ts) =
     merge dok (i + 1) all
       (if \<not> all \<and> tid_list_contains combined t then combined
        else (case libnvmf_tid_dup (\<lambda>k. dok i (k + 1)) (Some t) of
                None \<Rightarrow> combined
              | Some u \<Rightarrow> if dok i 0 then combined @ [u] else combined)) ts"

definition inventory_desired_dcs ::
  "(nat \<Rightarrow> nat \<Rightarrow> bool) \<Rightarrow> (nat \<Rightarrow> nat \<Rightarrow> bool) \<Rightarrow> (nat \<Rightarrow> nat \<Rightarrow> bool) \<Rightarrow> bool \<Rightarrow> inventory \<Rightarrow> tid list option" where
  "inventory_desired_dcs d1 d2 d3 mem iv =
     (let combined = merge d3 0 False (merge d2 0 False (merge d1 0 True [] (nbft_dcs iv)) (cfg_dcs iv)) (discovered_dcs iv)
      in if mem then Some combined else None)"

definition inventory_desired_iocs ::
  "(nat \<Rightarrow> nat \<Rightarrow> bool) \<Rightarrow> (nat \<Rightarrow> nat \<Rightarrow> bool) \<Rightarrow> bool \<Rightarrow> inventory \<Rightarrow> tid list option" where
  "inventory_desired_iocs d1 d2 mem iv =
     (let combined = merge d2 0 False (merge d1 0 True [] (nbft_iocs iv)) (cfg_iocs iv)
      in if mem then Some combined else None)"

section \<open>The configuration\<close>

record discoverd_ctx =
  ctx_hostnqn :: "string option"
  ctx_hostid :: "string option"
  ctx_resolver :: bool

definition with_default_host :: "(nat \<Rightarrow> bool) \<Rightarrow> discoverd_ctx \<Rightarrow> tid option \<Rightarrow> tid option" where
  "with_default_host mok dctx t0 =
     (case t0 of
        None \<Rightarrow> None
      | Some t \<Rightarrow> (case tid_set_default_host_if_unset mok t (ctx_hostnqn dctx) (ctx_hostid dctx) of
                     (Inl _, _) \<Rightarrow> None
                   | (Inr _, u) \<Rightarrow> Some u))"

text \<open>The allocations of one connection: of \<open>tid_new\<close>, of the default host, of the copy, of the array and
  of the entry.\<close>

record conn_mem =
  m_new :: "nat \<Rightarrow> bool"
  m_host :: "nat \<Rightarrow> bool"
  m_dup :: "nat \<Rightarrow> bool"
  m_append :: bool
  m_entry :: bool

definition add_config_conn ::
  "inet \<Rightarrow> conn_mem \<Rightarrow> discoverd_ctx \<Rightarrow> config_conn \<Rightarrow> string option \<Rightarrow> inventory \<Rightarrow> bool \<times> inventory" where
  "add_config_conn net m dctx conn addr iv =
     (let is_dc = conn_is_dc conn
      in case with_default_host (m_host m) dctx (tid_new_for net (m_new m) ((conn_tid conn)\<lparr>traddr := addr\<rparr>) is_dc) of
           None \<Rightarrow> (False, iv)
         | Some t \<Rightarrow>
             (case libnvmf_tid_dup (m_dup m) (Some t) of
                None \<Rightarrow> (False, iv)
              | Some t2 \<Rightarrow>
                  if \<not> m_append m then (False, iv)
                  else (let iv1 = (if is_dc then iv\<lparr>cfg_dcs := cfg_dcs iv @ [t2]\<rparr> else iv\<lparr>cfg_iocs := cfg_iocs iv @ [t2]\<rparr>)
                        in if \<not> m_entry m then (False, iv1)
                           else (True, iv1\<lparr>cfg_conns := \<lparr>ce_tid = t, ce_conn = conn\<rparr> # cfg_conns iv1\<rparr>))))"

definition schedule_lookup_retry :: "bool \<Rightarrow> cfg_lookup \<Rightarrow> cfg_lookup" where
  "schedule_lookup_retry tok l =
     (if \<not> tok then l
      else (let n = (if retry_sec l < LOOKUP_RETRY_MAX_SEC then retry_sec l * 2 else retry_sec l)
            in l\<lparr>retry_timer := Some (retry_sec l),
                 retry_sec := (if n > LOOKUP_RETRY_MAX_SEC then LOOKUP_RETRY_MAX_SEC else n)\<rparr>))"

definition start_lookup :: "bool \<Rightarrow> bool \<Rightarrow> cfg_lookup \<Rightarrow> bool \<times> cfg_lookup" where
  "start_lookup rok tok l = (if rok then (True, l\<lparr>query := True\<rparr>) else (False, schedule_lookup_retry tok l))"

definition retry_lookup :: "bool \<Rightarrow> bool \<Rightarrow> cfg_lookup \<Rightarrow> cfg_lookup" where
  "retry_lookup rok tok l = snd (start_lookup rok tok (l\<lparr>retry_timer := None\<rparr>))"

text \<open>\<open>first_addr\<close> of the addresses \<open>getaddrinfo\<close> found.\<close>

fun first_addr :: "inet \<Rightarrow> sockaddr_any list \<Rightarrow> string option" where
  "first_addr net [] = None"
| "first_addr net (In4 a # res) = ntop4 net a"
| "first_addr net (In6 a _ # res) = ntop6 net a"
| "first_addr net (OtherFamily # res) = first_addr net res"

definition del_at :: "nat \<Rightarrow> 'a list \<Rightarrow> 'a list" where
  "del_at i xs = take i xs @ drop (Suc i) xs"

text \<open>\<open>on_lookup\<close> for lookup \<open>i\<close>; \<open>gai\<close> says that \<open>getaddrinfo\<close> failed.  The result is what the callback is
  told.\<close>

definition on_lookup ::
  "inet \<Rightarrow> conn_mem \<Rightarrow> bool \<Rightarrow> discoverd_ctx \<Rightarrow> bool \<Rightarrow> sockaddr_any list \<Rightarrow> nat \<Rightarrow> inventory \<Rightarrow> bool \<times> inventory" where
  "on_lookup net m tok dctx gai res i iv =
     (let l0 = lookups iv ! i; l = l0\<lparr>query := False, lfirst := False\<rparr>;
          iv1 = iv\<lparr>lookups := (lookups iv)[i := l],
                     nr_first_lookups := (if lfirst l0 then nr_first_lookups iv - 1 else nr_first_lookups iv)\<rparr>
      in case (if gai then None else first_addr net res) of
           Some addr \<Rightarrow>
             (let (added, iv2) = add_config_conn net m dctx (lconn l) (Some addr) iv1
              in (added, iv2\<lparr>lookups := del_at i (lookups iv2)\<rparr>))
         | None \<Rightarrow> (False, iv1\<lparr>lookups := (lookups iv1)[i := schedule_lookup_retry tok l]\<rparr>))"

text \<open>What happens for one connection of the configuration.\<close>

record conn_out =
  o_mem :: conn_mem
  o_calloc :: bool
  o_rok :: bool
  o_tok :: bool

definition add_lookup :: "conn_out \<Rightarrow> discoverd_ctx \<Rightarrow> config_conn \<Rightarrow> inventory \<Rightarrow> inventory" where
  "add_lookup out dctx conn iv =
     (if \<not> ctx_resolver dctx then iv
      else if \<not> o_calloc out then iv
      else (let l = \<lparr>lconn = conn, query = False, retry_timer = None, retry_sec = LOOKUP_RETRY_MIN_SEC, lfirst = False\<rparr>;
                (started, l1) = start_lookup (o_rok out) (o_tok out) l
            in if started then iv\<lparr>lookups := lookups iv @ [l1\<lparr>lfirst := True\<rparr>], nr_first_lookups := nr_first_lookups iv + 1\<rparr>
               else iv\<lparr>lookups := lookups iv @ [l1]\<rparr>))"

definition load_config_conn_callback ::
  "inet \<Rightarrow> conn_out \<Rightarrow> discoverd_ctx \<Rightarrow> config_conn \<Rightarrow> inventory \<Rightarrow> inventory" where
  "load_config_conn_callback net out dctx conn iv =
     (let tr = transport (conn_tid conn); addr = traddr (conn_tid conn)
      in if libnvmf_traddr_is_numeric net True addr \<or> tr \<noteq> Some ''tcp'' \<and> tr \<noteq> Some ''rdma''
         then snd (add_config_conn net (o_mem out) dctx conn addr iv)
         else add_lookup out dctx conn iv)"

fun load_conns :: "inet \<Rightarrow> (nat \<Rightarrow> conn_out) \<Rightarrow> discoverd_ctx \<Rightarrow> nat \<Rightarrow> config_conn list \<Rightarrow> inventory \<Rightarrow> inventory" where
  "load_conns net out dctx i [] iv = iv"
| "load_conns net out dctx i (conn # conns) iv =
     load_conns net out dctx (i + 1) conns (load_config_conn_callback net (out i) dctx conn iv)"

text \<open>\<open>lookups_free\<close> and the rest of \<open>inventory_load_config\<close>; no configuration is an empty one.\<close>

definition lookups_free :: "inventory \<Rightarrow> inventory" where
  "lookups_free iv = iv\<lparr>lookups := [], nr_first_lookups := 0\<rparr>"

definition inventory_load_config ::
  "inet \<Rightarrow> (nat \<Rightarrow> conn_out) \<Rightarrow> discoverd_ctx \<Rightarrow> config_conn list option \<Rightarrow> inventory \<Rightarrow> inventory" where
  "inventory_load_config net out dctx cfg iv =
     (let iv1 = (lookups_free iv)\<lparr>cfg_dcs := [], cfg_iocs := [], cfg_conns := []\<rparr>
      in case cfg of None \<Rightarrow> iv1 | Some conns \<Rightarrow> load_conns net out dctx 0 conns iv1)"

definition inventory_config_pending :: "inventory \<Rightarrow> bool" where
  "inventory_config_pending iv \<longleftrightarrow> nr_first_lookups iv > 0"

fun inventory_config_conn_for :: "cfg_conn_entry list \<Rightarrow> tid \<Rightarrow> config_conn option" where
  "inventory_config_conn_for [] t = None"
| "inventory_config_conn_for (ce # ces) t = (if tid_same (ce_tid ce) t then Some (ce_conn ce) else inventory_config_conn_for ces t)"


section \<open>Lists keyed by the canonical string\<close>

text \<open>What the inventory relies on: the comparison is that of a key.\<close>

locale keyed =
  fixes same :: "'a \<Rightarrow> 'a \<Rightarrow> bool" and key_of :: "'a \<Rightarrow> 'k"
  assumes same_iff: "same x y \<longleftrightarrow> key_of x = key_of y"
begin

lemma member_iff: "list_ex (\<lambda>x. same x t) l \<longleftrightarrow> key_of t \<in> key_of ` set l"
  by (auto simp: list_ex_iff same_iff image_iff) metis

lemma first_split:
  assumes "length (takeWhile (\<lambda>x. \<not> same x t) l) < length l"
  obtains xs x ys where "l = xs @ x # ys" "length xs = length (takeWhile (\<lambda>x. \<not> same x t) l)" "key_of x = key_of t"
proof -
  let ?d = "dropWhile (\<lambda>x. \<not> same x t) l"
  have l: "l = takeWhile (\<lambda>x. \<not> same x t) l @ ?d" by simp
  have "?d \<noteq> []" using assms by (metis append_Nil2 l less_irrefl)
  then obtain x ys where d: "?d = x # ys" by (cases ?d) auto
  then have "key_of x = key_of t" using hd_dropWhile [of "\<lambda>x. \<not> same x t" l] by (simp add: same_iff)
  then show ?thesis using that [of "takeWhile (\<lambda>x. \<not> same x t) l" x ys] l d by simp
qed

lemma swap_remove:
  assumes "distinct (map key_of l)" "length (takeWhile (\<lambda>x. \<not> same x t) l) < length l"
  shows "key_of ` set (butlast (l[length (takeWhile (\<lambda>x. \<not> same x t) l) := last l])) = key_of ` set l - {key_of t}"
    "distinct (map key_of (butlast (l[length (takeWhile (\<lambda>x. \<not> same x t) l) := last l])))"
proof -
  let ?i = "length (takeWhile (\<lambda>x. \<not> same x t) l)"
  obtain xs x ys where l: "l = xs @ x # ys" "length xs = ?i" "key_of x = key_of t" using first_split [OF assms(2)] .
  have "key_of ` set (butlast (l[?i := last l])) = key_of ` set l - {key_of t} \<and>
    distinct (map key_of (butlast (l[?i := last l])))"
  proof (cases ys rule: rev_cases)
    case Nil
    then have "butlast (l[?i := last l]) = xs" using l(1) unfolding l(2) [symmetric] by simp
    then show ?thesis using assms(1) l(3) unfolding l(1) Nil by auto
  next
    case (snoc zs z)
    then have "butlast (l[?i := last l]) = xs @ z # zs"
      using l(1) unfolding l(2) [symmetric] by (simp add: butlast_append)
    then show ?thesis using assms(1) l(3) unfolding l(1) snoc by (auto simp: l(3)) (metis imageI)+
  qed
  then show "key_of ` set (butlast (l[?i := last l])) = key_of ` set l - {key_of t}"
    "distinct (map key_of (butlast (l[?i := last l])))" by simp_all
qed

end

interpretation ts: keyed tid_same canon
  by unfold_locales (rule tid_same_canon)

lemma contains_iff [simp]: "tid_list_contains l t \<longleftrightarrow> canon t \<in> canon ` set l"
  unfolding ts.member_iff [symmetric] by (induction l) auto

lemma remove_keys:
  assumes "distinct (map canon l)"
  shows "canon ` set (tid_list_remove l t) = canon ` set l - {canon t}" "distinct (map canon (tid_list_remove l t))"
proof -
  have "canon t \<notin> canon ` set l" if "\<not> length (takeWhile (\<lambda>x. \<not> tid_same x t) l) < length l"
  proof -
    have "length (takeWhile (\<lambda>x. \<not> tid_same x t) l) = length l" using that length_takeWhile_le [of _ l] by (simp add: not_less le_antisym)
    then have "takeWhile (\<lambda>x. \<not> tid_same x t) l = l" by (metis append_eq_conv_conj take_all_iff takeWhile_dropWhile_id order_refl takeWhile_eq_take)
    then show ?thesis unfolding takeWhile_eq_all_conv by (auto simp: tid_same_canon)
  qed
  then show "canon ` set (tid_list_remove l t) = canon ` set l - {canon t}" "distinct (map canon (tid_list_remove l t))"
    using ts.swap_remove [OF assms, of t] assms by (auto simp: tid_list_remove_def Let_def)
qed

lemma take_all [simp]: "tid_list_take (\<lambda>_. True) i l ts = l @ ts"
  by (induction ts arbitrary: i l) auto

text \<open>The cache as a map from the key of a DC to its two lists.\<close>

definition dlp_map :: "dlp_entry list \<Rightarrow> string option \<rightharpoonup> (tid list \<times> tid list)" where
  "dlp_map es = map_of (map (\<lambda>e. (canon (dc_tid e), iocs e, referrals e)) es)"

definition keys :: "dlp_entry list \<Rightarrow> string option list" where
  "keys es = map (\<lambda>e. canon (dc_tid e)) es"

lemma keys_simps [simp]: "keys [] = []" "keys (e # es) = canon (dc_tid e) # keys es"
  by (simp_all add: keys_def)

lemma dlp_map_simps [simp]: "dlp_map [] = Map.empty"
  "dlp_map (e # es) = (dlp_map es)(canon (dc_tid e) \<mapsto> (iocs e, referrals e))"
  by (simp_all add: dlp_map_def)

lemma keys_update [simp]: "\<forall>e. dc_tid (f e) = dc_tid e \<Longrightarrow> keys (update_entry t f es) = keys es"
  by (induction es) auto

lemma has_key: "list_ex (\<lambda>e. tid_same (dc_tid e) t) es \<longleftrightarrow> canon t \<in> set (keys es)"
  by (auto simp: list_ex_iff keys_def tid_same_canon image_iff) metis

lemma dlp_map_update:
  assumes "canon t \<in> set (keys es)"
  shows "dlp_map (update_entry t (\<lambda>e. e\<lparr>iocs := xs, referrals := ys\<rparr>) es) = (dlp_map es)(canon t \<mapsto> (xs, ys))"
  using assms by (induction es) (auto simp: tid_same_canon fun_upd_twist)

lemma dlp_map_None: "dlp_map es k = None \<longleftrightarrow> k \<notin> set (keys es)"
  by (induction es) auto

lemma keys_remove: "set (keys (remove_entry t es)) \<subseteq> set (keys es)" "distinct (keys es) \<Longrightarrow> distinct (keys (remove_entry t es))"
proof -
  show sub: "set (keys (remove_entry t es)) \<subseteq> set (keys es)" for es by (induction es) auto
  show "distinct (keys es) \<Longrightarrow> distinct (keys (remove_entry t es))"
    using sub by (induction es) (auto split: if_splits)
qed

lemma dlp_map_remove: "distinct (keys es) \<Longrightarrow> dlp_map (remove_entry t es) = (dlp_map es)(canon t := None)"
proof (induction es)
  case (Cons e es)
  then have "dlp_map es (canon (dc_tid e)) = None" by (simp add: dlp_map_None)
  then show ?case using Cons by (auto simp: tid_same_canon fun_upd_twist fun_upd_idem)
qed simp

lemma dlp_map_member: "distinct (keys es) \<Longrightarrow> dlp_map es k = Some (xs, ys) \<longleftrightarrow>
  (\<exists>e \<in> set es. canon (dc_tid e) = k \<and> iocs e = xs \<and> referrals e = ys)"
proof (induction es)
  case (Cons e es)
  then have "dlp_map es (canon (dc_tid e)) = None" by (simp add: dlp_map_None)
  then show ?case using Cons by (auto simp: keys_def)
qed simp


section \<open>The specification\<close>

text \<open>The inventory without its representation: the keys of the configured and firmware DCs and IOCs, those
  of the discovered DCs, and for each DC with a known log page the keys of the IOCs and referrals in it.
  \<open>reaches a n k\<close>: the DC \<open>k\<close> is \<open>n\<close> referrals away from a DC with a source.\<close>

record desires =
  a_dcs :: "string option set"
  a_iocs :: "string option set"
  a_discovered :: "string option set"
  a_dlp :: "string option \<rightharpoonup> (string option set \<times> string option set)"

inductive reaches :: "desires \<Rightarrow> nat \<Rightarrow> string option \<Rightarrow> bool" for a where
  source: "k \<in> a_dcs a \<union> a_discovered a \<Longrightarrow> reaches a 0 k"
| referral: "reaches a n p \<Longrightarrow> a_dlp a p = Some (xs, ys) \<Longrightarrow> k \<in> ys \<Longrightarrow> reaches a (Suc n) k"

inductive_simps reaches_0: "reaches a 0 k"
inductive_simps reaches_Suc: "reaches a (Suc n) k"

definition desired :: "desires \<Rightarrow> string option \<Rightarrow> bool" where
  "desired a k \<longleftrightarrow> k \<in> a_iocs a \<or> (\<exists>n \<le> INVENTORY_MAX_REFERRAL_HOPS. reaches a n k) \<or>
     (\<exists>p xs ys. a_dlp a p = Some (xs, ys) \<and> k \<in> xs \<and> (\<exists>n \<le> INVENTORY_MAX_REFERRAL_HOPS. reaches a n p))"

definition desires_of :: "inventory \<Rightarrow> desires" where
  "desires_of iv = \<lparr>a_dcs = canon ` set (nbft_dcs iv @ cfg_dcs iv), a_iocs = canon ` set (nbft_iocs iv @ cfg_iocs iv),
     a_discovered = canon ` set (discovered_dcs iv),
     a_dlp = (\<lambda>k. map_option (\<lambda>(xs, ys). (canon ` set xs, canon ` set ys)) (dlp_map (dlp_cache iv) k))\<rparr>"

lemma desires_sel [simp]:
  "a_dcs (desires_of iv) = canon ` set (nbft_dcs iv) \<union> canon ` set (cfg_dcs iv)"
  "a_iocs (desires_of iv) = canon ` set (nbft_iocs iv) \<union> canon ` set (cfg_iocs iv)"
  "a_discovered (desires_of iv) = canon ` set (discovered_dcs iv)"
  "a_dlp (desires_of iv) k = map_option (\<lambda>(xs, ys). (canon ` set xs, canon ` set ys)) (dlp_map (dlp_cache iv) k)"
  by (simp_all add: desires_of_def image_Un)

lemma has_source_iff: "has_source iv t \<longleftrightarrow> reaches (desires_of iv) 0 (canon t)"
  by (auto simp: has_source_def reaches_0)

lemma reaches_Suc_iff:
  assumes "distinct (keys (dlp_cache iv))"
  shows "reaches (desires_of iv) (Suc n) k \<longleftrightarrow>
    (\<exists>e \<in> set (dlp_cache iv). reaches (desires_of iv) n (canon (dc_tid e)) \<and> k \<in> canon ` set (referrals e))"
proof -
  have m: "dlp_map (dlp_cache iv) p = Some (xs, ys) \<longleftrightarrow>
    (\<exists>e \<in> set (dlp_cache iv). canon (dc_tid e) = p \<and> iocs e = xs \<and> referrals e = ys)" for p xs ys
    by (rule dlp_map_member [OF assms])
  show ?thesis
  proof
    assume "reaches (desires_of iv) (Suc n) k"
    then obtain p xs ys where p: "reaches (desires_of iv) n p" "a_dlp (desires_of iv) p = Some (xs, ys)" "k \<in> ys"
      unfolding reaches_Suc by blast
    then obtain us vs where "dlp_map (dlp_cache iv) p = Some (us, vs)" "ys = canon ` set vs" by auto
    then obtain e where "e \<in> set (dlp_cache iv)" "canon (dc_tid e) = p" "referrals e = vs" unfolding m by blast
    then show "\<exists>e \<in> set (dlp_cache iv). reaches (desires_of iv) n (canon (dc_tid e)) \<and> k \<in> canon ` set (referrals e)"
      using p \<open>ys = canon ` set vs\<close> by blast
  next
    assume "\<exists>e \<in> set (dlp_cache iv). reaches (desires_of iv) n (canon (dc_tid e)) \<and> k \<in> canon ` set (referrals e)"
    then obtain e where e: "e \<in> set (dlp_cache iv)" "reaches (desires_of iv) n (canon (dc_tid e))"
      "k \<in> canon ` set (referrals e)" by blast
    then have "dlp_map (dlp_cache iv) (canon (dc_tid e)) = Some (iocs e, referrals e)" unfolding m by blast
    then show "reaches (desires_of iv) (Suc n) k" using e(2,3) by (intro referral [OF e(2)]) auto
  qed
qed

text \<open>The loop of \<open>hops\<close> computes a minimum.\<close>

lemma foldl_best:
  fixes h :: "'e \<Rightarrow> int"
  assumes "r = foldl (\<lambda>best e. if \<not> c e then best else (let x = h e in if x \<ge> 0 \<and> (best < 0 \<or> x + 1 < best) then x + 1 else best)) b es"
    "b \<ge> - 1"
  shows "r \<ge> - 1 \<and> (r \<ge> 0 \<longrightarrow> r = b \<or> (\<exists>e \<in> set es. c e \<and> h e \<ge> 0 \<and> r = h e + 1)) \<and>
    (b \<ge> 0 \<longrightarrow> 0 \<le> r \<and> r \<le> b) \<and> (\<forall>e \<in> set es. c e \<longrightarrow> h e \<ge> 0 \<longrightarrow> 0 \<le> r \<and> r \<le> h e + 1)"
  using assms
proof (induction es arbitrary: b)
  case (Cons e es)
  define b1 where "b1 = (if \<not> c e then b else (let x = h e in if x \<ge> 0 \<and> (b < 0 \<or> x + 1 < b) then x + 1 else b))"
  have "b1 \<ge> - 1" using Cons.prems(2) by (auto simp: b1_def Let_def)
  note IH = Cons.IH [of b1, OF _ this]
  have r: "r = foldl (\<lambda>best e. if \<not> c e then best else (let x = h e in if x \<ge> 0 \<and> (best < 0 \<or> x + 1 < best) then x + 1 else best)) b1 es"
    using Cons.prems(1) by (simp add: b1_def)
  have "b1 = b \<or> c e \<and> h e \<ge> 0 \<and> b1 = h e + 1" "b \<ge> 0 \<longrightarrow> 0 \<le> b1 \<and> b1 \<le> b" "c e \<longrightarrow> h e \<ge> 0 \<longrightarrow> 0 \<le> b1 \<and> b1 \<le> h e + 1"
    by (auto simp: b1_def Let_def)
  then show ?case using IH [OF r] by (auto; fastforce)
qed simp


lemma hops_reaches:
  assumes "distinct (keys (dlp_cache iv))"
  shows "hops iv t b \<ge> - 1 \<and> (hops iv t b \<ge> 0 \<longrightarrow> reaches (desires_of iv) (nat (hops iv t b)) (canon t) \<and> nat (hops iv t b) \<le> b) \<and>
    (\<forall>n \<le> b. reaches (desires_of iv) n (canon t) \<longrightarrow> 0 \<le> hops iv t b \<and> hops iv t b \<le> int n)"
proof (induction b arbitrary: t)
  case 0
  then show ?case by (simp add: has_source_iff)
next
  case (Suc b)
  note S = reaches_Suc_iff [OF assms]
  show ?case
  proof (cases "has_source iv t")
    case True
    then show ?thesis by (simp add: has_source_iff)
  next
    case False
    let ?es = "dlp_cache iv"
    define r where "r = hops iv t (Suc b)"
    have "r = foldl (\<lambda>best e. if \<not> tid_list_contains (referrals e) t then best
        else (let h = hops iv (dc_tid e) b in if h \<ge> 0 \<and> (best < 0 \<or> h + 1 < best) then h + 1 else best)) (- 1) ?es"
      using False by (simp add: r_def)
    from foldl_best [OF this] have best: "r \<ge> - 1"
      "r \<ge> 0 \<Longrightarrow> \<exists>e \<in> set ?es. tid_list_contains (referrals e) t \<and> hops iv (dc_tid e) b \<ge> 0 \<and> r = hops iv (dc_tid e) b + 1"
      "\<And>e. e \<in> set ?es \<Longrightarrow> tid_list_contains (referrals e) t \<Longrightarrow> hops iv (dc_tid e) b \<ge> 0 \<Longrightarrow> 0 \<le> r \<and> r \<le> hops iv (dc_tid e) b + 1"
      by auto
    have "reaches (desires_of iv) (nat r) (canon t) \<and> nat r \<le> Suc b" if r0: "r \<ge> 0"
    proof -
      obtain e where e: "e \<in> set ?es" "canon t \<in> canon ` set (referrals e)" "hops iv (dc_tid e) b \<ge> 0" "r = hops iv (dc_tid e) b + 1"
        using best(2) [OF r0] unfolding contains_iff by blast
      then have "nat r = Suc (nat (hops iv (dc_tid e) b))" by simp
      then show ?thesis using S [of "nat (hops iv (dc_tid e) b)" "canon t"] Suc.IH [of "dc_tid e"] e(1-3) by auto
    qed
    moreover have "0 \<le> r \<and> r \<le> int n" if n: "n \<le> Suc b" "reaches (desires_of iv) n (canon t)" for n
    proof (cases n)
      case 0
      then show ?thesis using False n(2) by (simp add: has_source_iff)
    next
      case (Suc m)
      then obtain e where e: "e \<in> set ?es" "reaches (desires_of iv) m (canon (dc_tid e))" "canon t \<in> canon ` set (referrals e)"
        using n(2) S by blast
      then have h: "0 \<le> hops iv (dc_tid e) b \<and> hops iv (dc_tid e) b \<le> int m"
        using Suc.IH [of "dc_tid e"] n(1) \<open>n = Suc m\<close> by simp
      have "0 \<le> r \<and> r \<le> hops iv (dc_tid e) b + 1" using best(3) [OF e(1)] e(3) h by simp
      then show ?thesis using h \<open>n = Suc m\<close> by simp
    qed
    ultimately show ?thesis using best(1) unfolding r_def [symmetric] by blast
  qed
qed


lemma hops_nonneg:
  assumes "distinct (keys (dlp_cache iv))"
  shows "hops iv t b \<ge> 0 \<longleftrightarrow> (\<exists>n \<le> b. reaches (desires_of iv) n (canon t))"
  using hops_reaches [OF assms, of t b] by blast

lemma is_desired_iff:
  assumes "distinct (keys (dlp_cache iv))"
  shows "inventory_is_desired iv t \<longleftrightarrow> desired (desires_of iv) (canon t)"
proof -
  have "list_ex (\<lambda>e. tid_list_contains (iocs e) t \<and> inventory_referral_hops iv (dc_tid e) \<ge> 0) (dlp_cache iv) \<longleftrightarrow>
    (\<exists>p xs ys. a_dlp (desires_of iv) p = Some (xs, ys) \<and> canon t \<in> xs \<and>
      (\<exists>n \<le> INVENTORY_MAX_REFERRAL_HOPS. reaches (desires_of iv) n p))"
    (is "?l \<longleftrightarrow> ?r")
  proof
    assume ?l
    then obtain e where e: "e \<in> set (dlp_cache iv)" "canon t \<in> canon ` set (iocs e)"
      "\<exists>n \<le> INVENTORY_MAX_REFERRAL_HOPS. reaches (desires_of iv) n (canon (dc_tid e))"
      unfolding list_ex_iff inventory_referral_hops_def contains_iff hops_nonneg [OF assms] by blast
    then have "dlp_map (dlp_cache iv) (canon (dc_tid e)) = Some (iocs e, referrals e)"
      using dlp_map_member [OF assms] by blast
    then show ?r using e(2,3)
      by (intro exI [of _ "canon (dc_tid e)"] exI [of _ "canon ` set (iocs e)"] exI [of _ "canon ` set (referrals e)"]) simp
  next
    assume ?r
    then obtain p xs ys where p: "a_dlp (desires_of iv) p = Some (xs, ys)" "canon t \<in> xs"
      "\<exists>n \<le> INVENTORY_MAX_REFERRAL_HOPS. reaches (desires_of iv) n p" by blast
    then obtain us vs where "dlp_map (dlp_cache iv) p = Some (us, vs)" "xs = canon ` set us" by auto
    then obtain e where "e \<in> set (dlp_cache iv)" "canon (dc_tid e) = p" "iocs e = us" using dlp_map_member [OF assms] by blast
    then show ?l unfolding list_ex_iff inventory_referral_hops_def contains_iff hops_nonneg [OF assms]
      using p(2,3) \<open>xs = canon ` set us\<close> by blast
  qed
  then show ?thesis
    unfolding inventory_is_desired_def desired_def inventory_referral_hops_def hops_nonneg [OF assms] contains_iff
      desires_sel by blast
qed

section \<open>Steps\<close>

text \<open>The operations as the daemon interleaves them: the configuration is loaded, a lookup ends, a timer
  fires, a log page arrives, a DC is discovered or forgotten.  A transport ID that is an argument has
  consistent cached strings.\<close>

inductive inv_step :: "inet \<Rightarrow> inventory \<Rightarrow> inventory \<Rightarrow> bool" for net where
  load: "inv_step net iv (inventory_load_config net out dctx cfg iv)"
| lookup: "i < length (lookups iv) \<Longrightarrow> query (lookups iv ! i) \<Longrightarrow>
    inv_step net iv (snd (on_lookup net m tok dctx gai res i iv))"
| timer: "i < length (lookups iv) \<Longrightarrow> retry_timer (lookups iv ! i) \<noteq> None \<Longrightarrow>
    inv_step net iv (iv\<lparr>lookups := (lookups iv)[i := retry_lookup rok tok (lookups iv ! i)]\<rparr>)"
| dlp: "cache_ok t \<Longrightarrow> inv_step net iv (inventory_update_dlp mok aok aok' iv t xs ys)"
| found: "cache_ok t \<Longrightarrow> inv_step net iv (inventory_add_discovered_dc mok' ok iv t)"
| forget: "inv_step net iv (inventory_forget_dc iv t)"

inductive inv_reach :: "inet \<Rightarrow> inventory \<Rightarrow> bool" for net where
  new: "inv_reach net (inventory_new\<lparr>nbft_dcs := ds, nbft_iocs := is\<rparr>)"
| step: "inv_reach net iv \<Longrightarrow> inv_step net iv iv' \<Longrightarrow> inv_reach net iv'"

definition lookup_ok :: "cfg_lookup \<Rightarrow> bool" where
  "lookup_ok l \<longleftrightarrow> LOOKUP_RETRY_MIN_SEC \<le> retry_sec l \<and> retry_sec l \<le> LOOKUP_RETRY_MAX_SEC \<and> (lfirst l \<longrightarrow> query l) \<and>
     \<not> (query l \<and> retry_timer l \<noteq> None) \<and>
     (\<forall>s. retry_timer l = Some s \<longrightarrow> LOOKUP_RETRY_MIN_SEC \<le> s \<and> s \<le> LOOKUP_RETRY_MAX_SEC)"

text \<open>The connection of a configured controller is known under a key of the set for its role.\<close>

definition conns_ok :: "cfg_conn_entry list \<Rightarrow> tid list \<Rightarrow> tid list \<Rightarrow> bool" where
  "conns_ok ces ds is \<longleftrightarrow> (\<forall>ce \<in> set ces. canon (ce_tid ce) \<in> canon ` set (if conn_is_dc (ce_conn ce) then ds else is))"

definition inventory_ok :: "inventory \<Rightarrow> bool" where
  "inventory_ok iv \<longleftrightarrow> distinct (keys (dlp_cache iv)) \<and> distinct (map canon (discovered_dcs iv)) \<and>
     list_all lookup_ok (lookups iv) \<and> nr_first_lookups iv = of_nat (length (filter lfirst (lookups iv))) \<and>
     conns_ok (cfg_conns iv) (cfg_dcs iv) (cfg_iocs iv)"


lemma new_tid_cache_ok: "with_default_host mh dctx (tid_new_for net mn args dc) = Some t \<Longrightarrow> cache_ok t"
proof -
  assume w: "with_default_host mh dctx (tid_new_for net mn args dc) = Some t"
  then obtain u where u: "tid_new_for net mn args dc = Some u" by (auto simp: with_default_host_def split: option.splits)
  have "no_cache u" using sanitize_no_cache [OF tid_new_for_sanitized [OF u]] by (simp add: no_cache_def)
  then have ok: "cache_ok u" by (simp add: cache_ok_def no_cache_def)
  show "cache_ok t"
  proof (cases "hostnqn u")
    case None
    let ?id = "if hostid u \<noteq> None then None else ctx_hostid dctx"
    obtain r v where v: "libnvmf_tid_set_identity mh (Some u) None (ctx_hostnqn dctx) ?id = (r, Some v)"
      using set_identity_Some by blast
    then have "t = v" using w None u by (auto simp: with_default_host_def tid_set_default_host_if_unset_def split: sum.splits)
    then show ?thesis using set_identity_abs(2) [OF v] ok by simp
  next
    case Some
    then show ?thesis using w u ok by (auto simp: with_default_host_def tid_set_default_host_if_unset_def)
  qed
qed

lemma add_config_conn_frame:
  assumes "add_config_conn net m dctx conn addr iv = (added, iv')"
  shows "dlp_cache iv' = dlp_cache iv" "discovered_dcs iv' = discovered_dcs iv" "lookups iv' = lookups iv"
    "nr_first_lookups iv' = nr_first_lookups iv" "nbft_dcs iv' = nbft_dcs iv" "nbft_iocs iv' = nbft_iocs iv"
  using assms by (auto simp: add_config_conn_def Let_def split: option.splits if_splits)

lemma add_config_conn_ok: "inventory_ok iv \<Longrightarrow> inventory_ok (snd (add_config_conn net m dctx conn addr iv))"
proof -
  assume ok: "inventory_ok iv"
  obtain added iv' where r: "add_config_conn net m dctx conn addr iv = (added, iv')" by fastforce
  show ?thesis
  proof (cases "iv' = iv")
    case False
    then obtain t u where t: "with_default_host (m_host m) dctx (tid_new_for net (m_new m) ((conn_tid conn)\<lparr>traddr := addr\<rparr>) (conn_is_dc conn)) = Some t"
      "libnvmf_tid_dup (m_dup m) (Some t) = Some u"
      using r by (auto simp: add_config_conn_def Let_def split: option.splits)
    have "canon u = canon t" using dup_same [OF t(2)] new_tid_cache_ok [OF t(1)] by (simp add: tid_same_canon)
    then show ?thesis using ok r t
      by (auto simp: inventory_ok_def conns_ok_def add_config_conn_def Let_def split: if_splits)
  qed (use ok r in simp)
qed

lemma schedule_ok: "lookup_ok l \<Longrightarrow> \<not> query l \<Longrightarrow> lookup_ok (schedule_lookup_retry tok l)"
  "lfirst (schedule_lookup_retry tok l) = lfirst l"
  by (auto simp: schedule_lookup_retry_def lookup_ok_def Let_def retry_bounds)

lemma start_ok:
  assumes "start_lookup rok tok l = (s, l1)" "lookup_ok l" "\<not> query l" "retry_timer l = None"
  shows "lookup_ok l1" "lfirst l1 = lfirst l" "s \<Longrightarrow> query l1"
  using assms by (auto simp: start_lookup_def schedule_ok split: if_splits) (simp add: lookup_ok_def)

lemma count_update:
  assumes "i < length ls"
  shows "length (filter P (ls[i := x])) + (if P (ls ! i) then 1 else 0) = length (filter P ls) + (if P x then 1 else 0)"
    "length (filter P (del_at i ls)) + (if P (ls ! i) then 1 else 0) = length (filter P ls)"
proof -
  have l: "ls = take i ls @ ls ! i # drop (Suc i) ls" using id_take_nth_drop [OF assms] .
  then have f: "filter P ls = filter P (take i ls) @ filter P [ls ! i] @ filter P (drop (Suc i) ls)"
    by (metis filter.simps(1) filter.simps(2) filter_append append_Cons append_Nil)
  show "length (filter P (ls[i := x])) + (if P (ls ! i) then 1 else 0) = length (filter P ls) + (if P x then 1 else 0)"
    unfolding f upd_conv_take_nth_drop [OF assms] by simp
  show "length (filter P (del_at i ls)) + (if P (ls ! i) then 1 else 0) = length (filter P ls)"
    unfolding f del_at_def by simp
qed


lemma replace_lookup_ok:
  assumes "inventory_ok iv" "i < length (lookups iv)" "lookup_ok l" "lfirst l = lfirst (lookups iv ! i)"
  shows "inventory_ok (iv\<lparr>lookups := (lookups iv)[i := l]\<rparr>)"
proof -
  have "length (filter lfirst ((lookups iv)[i := l])) = length (filter lfirst (lookups iv))"
    using count_update(1) [OF assms(2), of lfirst l] assms(4) by (simp split: if_splits)
  moreover have "list_all lookup_ok ((lookups iv)[i := l])"
    using assms(1,3) by (auto simp: inventory_ok_def list_all_iff dest!: set_update_subset_insert [THEN subsetD])
  ultimately show ?thesis using assms(1) by (simp add: inventory_ok_def)
qed

lemma end_query_ok:
  assumes "inventory_ok iv" "i < length (lookups iv)" "query (lookups iv ! i)"
  defines "l0 \<equiv> lookups iv ! i"
  defines "l \<equiv> l0\<lparr>query := False, lfirst := False\<rparr>"
  shows "inventory_ok (iv\<lparr>lookups := (lookups iv)[i := l],
    nr_first_lookups := (if lfirst l0 then nr_first_lookups iv - 1 else nr_first_lookups iv)\<rparr>)" "lookup_ok l" "retry_timer l = None"
proof -
  have l0: "lookup_ok l0" using assms(1,2) by (auto simp: inventory_ok_def list_all_iff l0_def)
  then show l: "lookup_ok l" "retry_timer l = None" using assms(3) by (auto simp: lookup_ok_def l_def l0_def)
  have "length (filter lfirst ((lookups iv)[i := l])) + (if lfirst l0 then 1 else 0) = length (filter lfirst (lookups iv))"
    using count_update(1) [OF assms(2), of lfirst l] by (simp add: l_def l0_def)
  then have "(if lfirst l0 then nr_first_lookups iv - 1 else nr_first_lookups iv) = of_nat (length (filter lfirst ((lookups iv)[i := l])))"
    using assms(1) by (cases "lfirst l0") (auto simp: inventory_ok_def dest: sym)
  moreover have "list_all lookup_ok ((lookups iv)[i := l])"
    using assms(1) l(1) by (auto simp: inventory_ok_def list_all_iff dest!: set_update_subset_insert [THEN subsetD])
  ultimately show "inventory_ok (iv\<lparr>lookups := (lookups iv)[i := l],
    nr_first_lookups := (if lfirst l0 then nr_first_lookups iv - 1 else nr_first_lookups iv)\<rparr>)"
    using assms(1) by (simp add: inventory_ok_def)
qed

lemma del_lookup_ok:
  assumes "inventory_ok iv" "i < length (lookups iv)" "\<not> lfirst (lookups iv ! i)"
  shows "inventory_ok (iv\<lparr>lookups := del_at i (lookups iv)\<rparr>)"
proof -
  have "length (filter lfirst (del_at i (lookups iv))) = length (filter lfirst (lookups iv))"
    using count_update(2) [OF assms(2), of lfirst] assms(3) by simp
  moreover have "set (del_at i (lookups iv)) \<subseteq> set (lookups iv)"
    by (auto simp: del_at_def dest: in_set_takeD in_set_dropD)
  ultimately show ?thesis using assms(1) by (auto simp: inventory_ok_def list_all_iff)
qed

lemma on_lookup_ok:
  assumes "inventory_ok iv" "i < length (lookups iv)" "query (lookups iv ! i)"
  shows "inventory_ok (snd (on_lookup net m tok dctx gai res i iv))"
proof -
  define l0 where "l0 = lookups iv ! i"
  define l where "l = l0\<lparr>query := False, lfirst := False\<rparr>"
  define iv1 where "iv1 = iv\<lparr>lookups := (lookups iv)[i := l],
    nr_first_lookups := (if lfirst l0 then nr_first_lookups iv - 1 else nr_first_lookups iv)\<rparr>"
  note q = end_query_ok [OF assms, folded l0_def, folded l_def, folded iv1_def]
  have i: "i < length (lookups iv1)" "lookups iv1 ! i = l" using assms(2) by (simp_all add: iv1_def)
  show ?thesis
  proof (cases "if gai then None else first_addr net res")
    case None
    then have r: "snd (on_lookup net m tok dctx gai res i iv) = iv1\<lparr>lookups := (lookups iv1)[i := schedule_lookup_retry tok l]\<rparr>"
      by (simp add: on_lookup_def iv1_def l_def l0_def Let_def)
    have "lookup_ok (schedule_lookup_retry tok l)" using schedule_ok(1) [OF q(2)] by (simp add: l_def)
    then show ?thesis using replace_lookup_ok [OF q(1) i(1)] i(2) schedule_ok(2) unfolding r by simp
  next
    case (Some addr)
    obtain added iv2 where a: "add_config_conn net m dctx (lconn l) (Some addr) iv1 = (added, iv2)" by fastforce
    have r: "snd (on_lookup net m tok dctx gai res i iv) = iv2\<lparr>lookups := del_at i (lookups iv2)\<rparr>"
      using Some a by (simp add: on_lookup_def iv1_def l_def l0_def Let_def)
    have "inventory_ok iv2" using add_config_conn_ok [OF q(1)] a by (metis snd_conv)
    then show ?thesis using del_lookup_ok [of iv2 i] add_config_conn_frame(3) [OF a] i unfolding r by (simp add: l_def)
  qed
qed

lemma retry_ok:
  assumes "inventory_ok iv" "i < length (lookups iv)" "retry_timer (lookups iv ! i) \<noteq> None"
  shows "inventory_ok (iv\<lparr>lookups := (lookups iv)[i := retry_lookup rok tok (lookups iv ! i)]\<rparr>)"
proof -
  let ?l = "(lookups iv ! i)\<lparr>retry_timer := None\<rparr>"
  have "lookup_ok (lookups iv ! i)" using assms(1,2) by (auto simp: inventory_ok_def list_all_iff)
  then have l: "lookup_ok ?l" "\<not> query ?l" "retry_timer ?l = None" using assms(3) by (auto simp: lookup_ok_def)
  obtain b l1 where s: "start_lookup rok tok ?l = (b, l1)" by fastforce
  show ?thesis using replace_lookup_ok [OF assms(1,2)] start_ok [OF s l] s by (simp add: retry_lookup_def)
qed

lemma add_lookup_ok: "inventory_ok iv \<Longrightarrow> inventory_ok (add_lookup out dctx conn iv)"
proof -
  assume ok: "inventory_ok iv"
  let ?l = "\<lparr>lconn = conn, query = False, retry_timer = None, retry_sec = LOOKUP_RETRY_MIN_SEC, lfirst = False\<rparr>"
  obtain b l1 where s: "start_lookup (o_rok out) (o_tok out) ?l = (b, l1)" by fastforce
  have "lookup_ok ?l" by (simp add: lookup_ok_def retry_bounds)
  then have l1: "lookup_ok l1" "\<not> lfirst l1" "b \<Longrightarrow> query l1" using start_ok [OF s] by auto
  then have "b \<Longrightarrow> lookup_ok (l1\<lparr>lfirst := True\<rparr>)" by (simp add: lookup_ok_def)
  then show ?thesis using ok l1 s by (simp add: add_lookup_def inventory_ok_def)
qed

lemma load_config_ok: "inventory_ok iv \<Longrightarrow> inventory_ok (inventory_load_config net out dctx cfg iv)"
proof -
  have conns: "inventory_ok iv \<Longrightarrow> inventory_ok (load_conns net out dctx i conns iv)" for i conns iv
    by (induction conns arbitrary: i iv) (auto simp: load_config_conn_callback_def Let_def add_lookup_ok add_config_conn_ok)
  assume "inventory_ok iv"
  then have "inventory_ok ((lookups_free iv)\<lparr>cfg_dcs := [], cfg_iocs := [], cfg_conns := []\<rparr>)"
    by (simp add: inventory_ok_def lookups_free_def conns_ok_def)
  then show ?thesis using conns by (simp add: inventory_load_config_def Let_def split: option.split)
qed


lemma dup_mem: "libnvmf_tid_dup (\<lambda>_. True) (Some t) = Some (tid_abs t)"
proof -
  have "\<not> copy_failed f f" for f by (auto simp: copy_failed_def)
  then have "\<not> any_copy_failed t (copy_fields (\<lambda>_. True) t)"
    by (simp add: any_copy_failed_def copy_fields_def shr_xstrdup_def)
  then show ?thesis by (simp add: libnvmf_tid_dup_def copied)
qed

lemma update_dlp_cases:
  assumes "cache_ok t"
  obtains (same) "inventory_update_dlp mok aok aok' iv t xs ys = iv" "\<exists>k. \<not> mok k"
  | (upd) es where "inventory_update_dlp mok aok aok' iv t xs ys = iv\<lparr>dlp_cache := es\<rparr>"
      "dlp_map es = (dlp_map (dlp_cache iv))(canon t \<mapsto> (tid_list_take aok 0 [] xs, tid_list_take aok' 0 [] ys))"
      "distinct (keys (dlp_cache iv)) \<Longrightarrow> distinct (keys es)"
proof (cases "canon t \<in> set (keys (dlp_cache iv))")
  case True
  let ?es = "update_entry t (\<lambda>e. e\<lparr>iocs := tid_list_take aok 0 [] xs, referrals := tid_list_take aok' 0 [] ys\<rparr>) (dlp_cache iv)"
  show thesis using upd [of ?es] True dlp_map_update [OF True] by (simp add: inventory_update_dlp_def has_key)
next
  case False
  show thesis
  proof (cases "mok 0 \<and> libnvmf_tid_dup (\<lambda>k. mok (1 + k)) (Some t) \<noteq> None")
    case True
    then obtain u where u: "mok 0" "libnvmf_tid_dup (\<lambda>k. mok (1 + k)) (Some t) = Some u" by blast
    have "canon u = canon t" using dup_same [OF u(2) assms] by (simp add: tid_same_canon)
    then show thesis using upd False u by (simp add: inventory_update_dlp_def has_key)
  next
    case none: False
    have "\<exists>k. \<not> mok k"
    proof (rule ccontr)
      assume "\<not> (\<exists>k. \<not> mok k)"
      then have "mok = (\<lambda>_. True)" by auto
      then show False using none by (simp add: dup_mem)
    qed
    then show thesis using same False none by (auto simp: inventory_update_dlp_def has_key split: option.splits)
  qed
qed

lemma found_ok: "inventory_ok iv \<Longrightarrow> cache_ok t \<Longrightarrow> inventory_ok (inventory_add_discovered_dc mok ok iv t)"
  using dup_same [of mok t] by (auto simp: inventory_ok_def inventory_add_discovered_dc_def tid_same_canon split: option.splits)

lemma forget_ok: "inventory_ok iv \<Longrightarrow> inventory_ok (inventory_forget_dc iv t)"
  by (auto simp: inventory_ok_def inventory_forget_dc_def remove_keys keys_remove)

lemma step_ok: "inv_step net iv iv' \<Longrightarrow> inventory_ok iv \<Longrightarrow> inventory_ok iv'"
proof (induction rule: inv_step.induct)
  case (dlp t iv mok aok aok' xs ys)
  then show ?case by (cases rule: update_dlp_cases [OF dlp.hyps, of mok aok aok' iv xs ys]) (auto simp: inventory_ok_def)
qed (auto simp: load_config_ok on_lookup_ok retry_ok found_ok forget_ok)

lemma inv_reach_ok: "inv_reach net iv \<Longrightarrow> inventory_ok iv"
proof (induction rule: inv_reach.induct)
  case (new ds "is")
  then show ?case by (simp add: inventory_ok_def inventory_new_def conns_ok_def)
qed (rule step_ok)

lemma reach_distinct: "inv_reach net iv \<Longrightarrow> distinct (keys (dlp_cache iv))"
  using inv_reach_ok by (auto simp: inventory_ok_def)

section \<open>Properties\<close>

text \<open>C11: Whatever order the configuration is loaded in, lookups end, timers fire, log pages arrive and DCs
  come and go, and whichever allocations fail: no DC has two log pages in the cache, no DC is
  recorded twice as discovered, every retry delay is between 1 and 300 seconds, a lookup never has a
  query and a timer at once, the counter behind \<open>inventory_config_pending\<close> is the number of first
  lookups that have not ended, and each remembered connection belongs to a configured controller of its role.\<close>

theorem inventory_invariant:
  assumes "inv_reach net iv"
  shows "distinct (map (\<lambda>e. canon (dc_tid e)) (dlp_cache iv)) \<and> distinct (map canon (discovered_dcs iv)) \<and>
    list_all lookup_ok (lookups iv) \<and> nr_first_lookups iv = of_nat (length (filter lfirst (lookups iv))) \<and>
    (length (lookups iv) < 2 ^ 32 \<longrightarrow> inventory_config_pending iv = list_ex lfirst (lookups iv)) \<and>
    conns_ok (cfg_conns iv) (cfg_dcs iv) (cfg_iocs iv)"
proof -
  have ok: "inventory_ok iv" using assms by (rule inv_reach_ok)
  then have n: "nr_first_lookups iv = of_nat (length (filter lfirst (lookups iv)))" by (simp add: inventory_ok_def)
  have "inventory_config_pending iv = list_ex lfirst (lookups iv)" if "length (lookups iv) < 2 ^ 32"
  proof -
    have "length (filter lfirst (lookups iv)) < 2 ^ 32"
      using that length_filter_le [of lfirst "lookups iv"] by linarith
    then have "unat (nr_first_lookups iv) = length (filter lfirst (lookups iv))" unfolding n by (simp add: unat_of_nat)
    then have "inventory_config_pending iv \<longleftrightarrow> length (filter lfirst (lookups iv)) \<noteq> 0"
      by (simp add: inventory_config_pending_def word_neq_0_conv [symmetric] unat_eq_0 [symmetric] del: length_0_conv)
    then show ?thesis by (auto simp: filter_empty_conv list_ex_iff)
  qed
  then show ?thesis using ok by (simp add: inventory_ok_def keys_def)
qed

text \<open>C10: \<open>inventory_referral_hops\<close> is the length of the shortest chain of referrals from a DC with a source
  to the given DC, if there is a chain of at most eight, and -1 otherwise; loops among the referrals
  do not matter.\<close>

theorem referral_hops_shortest:
  assumes "inv_reach net iv"
  shows "inventory_referral_hops iv t =
    (if \<exists>n \<le> INVENTORY_MAX_REFERRAL_HOPS. reaches (desires_of iv) n (canon t)
     then int (LEAST n. reaches (desires_of iv) n (canon t)) else - 1)"
proof -
  let ?B = INVENTORY_MAX_REFERRAL_HOPS and ?h = "hops iv t INVENTORY_MAX_REFERRAL_HOPS"
  note h = hops_reaches [OF reach_distinct [OF assms], of t ?B]
  show ?thesis
  proof (cases "\<exists>n \<le> ?B. reaches (desires_of iv) n (canon t)")
    case True
    then have h0: "?h \<ge> 0" using h by blast
    then have r: "reaches (desires_of iv) (nat ?h) (canon t)" "nat ?h \<le> ?B" using h by auto
    have "(LEAST n. reaches (desires_of iv) n (canon t)) = nat ?h"
    proof (rule Least_equality)
      show "reaches (desires_of iv) (nat ?h) (canon t)" by (rule r(1))
    next
      fix m assume "reaches (desires_of iv) m (canon t)"
      then show "nat ?h \<le> m" using h r(2) by (cases "m \<le> ?B") auto
    qed
    then show ?thesis using True h0 by (simp add: inventory_referral_hops_def)
  next
    case False
    then have "\<not> ?h \<ge> 0" using h by blast
    then show ?thesis using False h by (auto simp: inventory_referral_hops_def)
  qed
qed


text \<open>C1: The inventory implements its specification.  In every reachable state, with memory, receiving a
  log page replaces what is known of that DC and nothing else, recording a DC adds it to the
  discovered ones, forgetting a DC removes it there and drops its log page, and a controller is
  desired exactly if it is an IOC of the firmware or the configuration, a DC at most eight
  referrals from one with a source, or an IOC in the log page of such a DC.\<close>

theorem inventory_refines:
  assumes "inv_reach net iv" "cache_ok t"
  shows "desires_of (inventory_update_dlp (\<lambda>_. True) (\<lambda>_. True) (\<lambda>_. True) iv t xs ys) =
      (desires_of iv)\<lparr>a_dlp := (a_dlp (desires_of iv))(canon t \<mapsto> (canon ` set xs, canon ` set ys))\<rparr> \<and>
    desires_of (inventory_add_discovered_dc (\<lambda>_. True) True iv t) =
      (desires_of iv)\<lparr>a_discovered := insert (canon t) (a_discovered (desires_of iv))\<rparr> \<and>
    desires_of (inventory_forget_dc iv t) =
      (desires_of iv)\<lparr>a_discovered := a_discovered (desires_of iv) - {canon t}, a_dlp := (a_dlp (desires_of iv))(canon t := None)\<rparr> \<and>
    inventory_is_desired iv u = desired (desires_of iv) (canon u)"
proof -
  have ok: "distinct (keys (dlp_cache iv))" "distinct (map canon (discovered_dcs iv))"
    using inv_reach_ok [OF assms(1)] by (auto simp: inventory_ok_def)
  have "desires_of (inventory_update_dlp (\<lambda>_. True) (\<lambda>_. True) (\<lambda>_. True) iv t xs ys) =
      (desires_of iv)\<lparr>a_dlp := (a_dlp (desires_of iv))(canon t \<mapsto> (canon ` set xs, canon ` set ys))\<rparr>"
    by (rule update_dlp_cases [OF assms(2), of "\<lambda>_. True" "\<lambda>_. True" "\<lambda>_. True" iv xs ys])
      (auto simp: desires_of_def fun_eq_iff)
  moreover have "desires_of (inventory_add_discovered_dc (\<lambda>_. True) True iv t) =
      (desires_of iv)\<lparr>a_discovered := insert (canon t) (a_discovered (desires_of iv))\<rparr>"
    using canon_abs [OF assms(2)] by (auto simp: inventory_add_discovered_dc_def dup_mem desires_of_def)
  moreover have "desires_of (inventory_forget_dc iv t) =
      (desires_of iv)\<lparr>a_discovered := a_discovered (desires_of iv) - {canon t}, a_dlp := (a_dlp (desires_of iv))(canon t := None)\<rparr>"
    by (auto simp: inventory_forget_dc_def desires_of_def remove_keys [OF ok(2)] dlp_map_remove [OF ok(1)] fun_eq_iff)
  ultimately show ?thesis using is_desired_iff [OF ok(1)] by blast
qed


lemma merge_keys:
  assumes "list_all cache_ok ts"
  shows "canon ` set (merge (\<lambda>_ _. True) i all c ts) = canon ` set c \<union> canon ` set ts"
    "\<not> all \<Longrightarrow> distinct (map canon c) \<Longrightarrow> distinct (map canon (merge (\<lambda>_ _. True) i all c ts))"
  using assms by (induction ts arbitrary: i c) (auto simp: dup_mem canon_abs)

lemma merge_all: "list_all cache_ok ts \<Longrightarrow> map canon (merge (\<lambda>_ _. True) i True c ts) = map canon c @ map canon ts"
  by (induction ts arbitrary: i c) (auto simp: dup_mem canon_abs)

lemma source_desired: "has_source iv t \<Longrightarrow> inventory_is_desired iv t"
  by (simp add: inventory_is_desired_def inventory_referral_hops_def INVENTORY_MAX_REFERRAL_HOPS_def numeral_eq_Suc)

text \<open>With memory, the DCs to connect at startup are exactly those with a source, each of them is
  desired, and no DC is listed twice unless the firmware tables list it twice.\<close>

theorem desired_dcs_exact:
  assumes "list_all cache_ok (nbft_dcs iv @ cfg_dcs iv @ discovered_dcs iv)"
  shows "\<exists>r. inventory_desired_dcs (\<lambda>_ _. True) (\<lambda>_ _. True) (\<lambda>_ _. True) True iv = Some r \<and>
    (\<forall>t. tid_list_contains r t = has_source iv t) \<and> list_all (inventory_is_desired iv) r \<and>
    (distinct (map canon (nbft_dcs iv)) \<longrightarrow> distinct (map canon r))"
proof -
  define c1 where "c1 = merge (\<lambda>_ _. True) 0 True [] (nbft_dcs iv)"
  define c2 where "c2 = merge (\<lambda>_ _. True) 0 False c1 (cfg_dcs iv)"
  define r where "r = merge (\<lambda>_ _. True) 0 False c2 (discovered_dcs iv)"
  have ok: "list_all cache_ok (nbft_dcs iv)" "list_all cache_ok (cfg_dcs iv)" "list_all cache_ok (discovered_dcs iv)"
    using assms by auto
  have "inventory_desired_dcs (\<lambda>_ _. True) (\<lambda>_ _. True) (\<lambda>_ _. True) True iv = Some r"
    by (simp add: inventory_desired_dcs_def c1_def c2_def r_def)
  moreover have s: "tid_list_contains r t = has_source iv t" for t
    unfolding contains_iff r_def c2_def c1_def merge_keys(1) [OF ok(1)] merge_keys(1) [OF ok(2)] merge_keys(1) [OF ok(3)]
    by (auto simp: has_source_def)
  moreover have "list_all (inventory_is_desired iv) r"
    unfolding list_all_iff using s [unfolded contains_iff] source_desired by blast
  moreover have "distinct (map canon r)" if "distinct (map canon (nbft_dcs iv))"
  proof -
    have "distinct (map canon c1)" using that by (simp add: c1_def merge_all [OF ok(1)])
    then have "distinct (map canon c2)" unfolding c2_def by (intro merge_keys(2) [OF ok(2)]) simp_all
    then show ?thesis unfolding r_def by (intro merge_keys(2) [OF ok(3)]) simp_all
  qed
  ultimately show ?thesis by blast
qed

lemma callback_frame:
  "load_config_conn_callback net out dctx conn (iv\<lparr>nbft_dcs := a, nbft_iocs := b, discovered_dcs := c, dlp_cache := d\<rparr>) =
   (load_config_conn_callback net out dctx conn iv)\<lparr>nbft_dcs := a, nbft_iocs := b, discovered_dcs := c, dlp_cache := d\<rparr>"
  by (simp add: load_config_conn_callback_def add_config_conn_def add_lookup_def Let_def split: option.split prod.split)

lemma load_conns_frame:
  "load_conns net out dctx i conns (iv\<lparr>nbft_dcs := a, nbft_iocs := b, discovered_dcs := c, dlp_cache := d\<rparr>) =
   (load_conns net out dctx i conns iv)\<lparr>nbft_dcs := a, nbft_iocs := b, discovered_dcs := c, dlp_cache := d\<rparr>"
  by (induction conns arbitrary: i iv) (simp_all only: load_conns.simps callback_frame)

text \<open>Loading the configuration replaces what came from the configuration and touches nothing else:
  whatever the inventory held before, its configured sets, connections and lookups are those of a
  fresh inventory that loads the same configuration, and the firmware sets, the discovered DCs and
  the cached log pages stay.\<close>

theorem load_config_replaces:
  "inventory_load_config net out dctx cfg iv =
     (inventory_load_config net out dctx cfg inventory_new)\<lparr>nbft_dcs := nbft_dcs iv, nbft_iocs := nbft_iocs iv,
       discovered_dcs := discovered_dcs iv, dlp_cache := dlp_cache iv\<rparr>"
proof -
  have "(lookups_free iv)\<lparr>cfg_dcs := [], cfg_iocs := [], cfg_conns := []\<rparr> =
    ((lookups_free inventory_new)\<lparr>cfg_dcs := [], cfg_iocs := [], cfg_conns := []\<rparr>)\<lparr>nbft_dcs := nbft_dcs iv,
       nbft_iocs := nbft_iocs iv, discovered_dcs := discovered_dcs iv, dlp_cache := dlp_cache iv\<rparr>"
    by (simp add: lookups_free_def inventory_new_def)
  then show ?thesis unfolding inventory_load_config_def Let_def by (simp only: load_conns_frame split: option.split) simp
qed


section \<open>Configured connections\<close>

definition plenty_mem :: conn_mem where
  "plenty_mem = \<lparr>m_new = (\<lambda>_. True), m_host = (\<lambda>_. True), m_dup = (\<lambda>_. True), m_append = True, m_entry = True\<rparr>"

definition conn_ref :: "inventory \<Rightarrow> config_conn \<Rightarrow> tid \<Rightarrow> bool" where
  "conn_ref iv conn t \<longleftrightarrow> canon t \<in> canon ` set (if conn_is_dc conn then cfg_dcs iv else cfg_iocs iv) \<and>
     canon t \<in> (\<lambda>ce. canon (ce_tid ce)) ` set (cfg_conns iv)"

lemma add_config_conn_ref:
  assumes "with_default_host (m_host plenty_mem) dctx (tid_new_for net (m_new plenty_mem) ((conn_tid conn)\<lparr>traddr := addr\<rparr>) (conn_is_dc conn)) = Some t"
    "add_config_conn net plenty_mem dctx conn addr iv = (added, iv')"
  shows "added" "conn_ref iv' conn t" "lookups iv' = lookups iv"
proof -
  have "canon (tid_abs t) = canon t" by (rule canon_abs [OF new_tid_cache_ok [OF assms(1)]])
  then show "added" "conn_ref iv' conn t" "lookups iv' = lookups iv"
    using assms by (auto simp: add_config_conn_def Let_def plenty_mem_def dup_mem conn_ref_def)
qed

lemma add_config_conn_mono:
  assumes "conn_ref iv c t" "add_config_conn net m dctx conn addr iv = (added, iv')"
  shows "conn_ref iv' c t"
  using assms by (auto simp: add_config_conn_def Let_def conn_ref_def split: option.splits if_splits)

lemma callback_mono: "conn_ref iv c t \<Longrightarrow> conn_ref (load_config_conn_callback net out dctx conn iv) c t"
proof -
  assume r: "conn_ref iv c t"
  have "conn_ref (add_lookup out dctx conn iv) c t"
    using r by (auto simp: add_lookup_def conn_ref_def Let_def split: prod.split)
  moreover have "conn_ref (snd (add_config_conn net (o_mem out) dctx conn (traddr (conn_tid conn)) iv)) c t"
    using add_config_conn_mono [OF r] by (metis prod.collapse)
  ultimately show ?thesis by (simp add: load_config_conn_callback_def Let_def)
qed

lemma load_conns_mono: "conn_ref iv c t \<Longrightarrow> conn_ref (load_conns net out dctx i conns iv) c t"
  by (induction conns arbitrary: i iv) (auto simp: callback_mono)

lemma conn_for: "canon t \<in> (\<lambda>ce. canon (ce_tid ce)) ` set ces \<Longrightarrow>
  \<exists>ce \<in> set ces. inventory_config_conn_for ces t = Some (ce_conn ce) \<and> canon (ce_tid ce) = canon t"
  by (induction ces) (auto simp: tid_same_canon)

lemma conn_ref_desired:
  assumes "conn_ref iv conn t"
  shows "inventory_is_desired iv t" "inventory_config_conn_for (cfg_conns iv) t \<noteq> None"
  using assms conn_for [of t "cfg_conns iv"] source_desired [of iv t]
  by (auto simp: conn_ref_def has_source_def inventory_is_desired_def split: if_splits)

text \<open>With memory, every configured connection with a numeric address, or of a transport without host
  names, from which a transport ID can be built is desired once the configuration is loaded, and its
  parameters can be found.\<close>

theorem configured_conn_desired:
  assumes "\<And>i. o_mem (out i) = plenty_mem" "conn \<in> set conns"
    "with_default_host (\<lambda>_. True) dctx (tid_new_for net (\<lambda>_. True) (conn_tid conn) (conn_is_dc conn)) = Some t"
    "libnvmf_traddr_is_numeric net True (traddr (conn_tid conn)) \<or> transport (conn_tid conn) \<notin> {Some ''tcp'', Some ''rdma''}"
  shows "inventory_is_desired (inventory_load_config net out dctx (Some conns) iv) t \<and>
    inventory_config_conn_for (cfg_conns (inventory_load_config net out dctx (Some conns) iv)) t \<noteq> None"
proof -
  have mem: "m_host plenty_mem = (\<lambda>_. True)" "m_new plenty_mem = (\<lambda>_. True)" by (simp_all add: plenty_mem_def)
  have here: "conn_ref (load_config_conn_callback net (out j) dctx conn v) conn t" for j v
  proof -
    have "load_config_conn_callback net (out j) dctx conn v = snd (add_config_conn net plenty_mem dctx conn (traddr (conn_tid conn)) v)"
      using assms(1,4) by (auto simp: load_config_conn_callback_def Let_def)
    moreover have "(conn_tid conn)\<lparr>traddr := traddr (conn_tid conn)\<rparr> = conn_tid conn" by simp
    ultimately show ?thesis
      using add_config_conn_ref(2) [where conn = conn and addr = "traddr (conn_tid conn)" and t = t and iv = v] assms(3)
      unfolding mem by (metis prod.collapse)
  qed
  have "conn_ref (load_conns net out dctx j conns v) conn t" for j v
    using assms(2)
  proof (induction conns arbitrary: j v)
    case (Cons c cs)
    then show ?case using load_conns_mono here by (cases "c = conn") auto
  qed simp
  then have "conn_ref (inventory_load_config net out dctx (Some conns) iv) conn t"
    by (simp add: inventory_load_config_def Let_def)
  then show ?thesis using conn_ref_desired by blast
qed

text \<open>C36: With memory, a connection configured with a host name is desired once its lookup yields an address from
  which a transport ID can be built; what is then found for this transport ID is this connection
  with its parameters, the lookup is taken off the list, and the daemon is told so.\<close>

theorem lookup_conn_desired:
  assumes "lconn (lookups iv ! i) = conn" "first_addr net res = Some addr"
    "with_default_host (\<lambda>_. True) dctx (tid_new_for net (\<lambda>_. True) ((conn_tid conn)\<lparr>traddr := Some addr\<rparr>) (conn_is_dc conn)) = Some t"
    "on_lookup net plenty_mem tok dctx False res i iv = (added, iv')"
  shows "added \<and> inventory_is_desired iv' t \<and> inventory_config_conn_for (cfg_conns iv') t = Some conn \<and>
    map lconn (lookups iv') = del_at i (map lconn (lookups iv))"
proof -
  have mem: "m_host plenty_mem = (\<lambda>_. True)" "m_new plenty_mem = (\<lambda>_. True)" by (simp_all add: plenty_mem_def)
  let ?l = "(lookups iv ! i)\<lparr>query := False, lfirst := False\<rparr>"
  let ?v = "iv\<lparr>lookups := (lookups iv)[i := ?l],
    nr_first_lookups := (if lfirst (lookups iv ! i) then nr_first_lookups iv - 1 else nr_first_lookups iv)\<rparr>"
  obtain iv2 where a: "add_config_conn net plenty_mem dctx conn (Some addr) ?v = (added, iv2)"
    "iv' = iv2\<lparr>lookups := del_at i (lookups iv2)\<rparr>"
    using assms(1,2,4) by (auto simp: on_lookup_def Let_def split: prod.splits)
  have w: "with_default_host (m_host plenty_mem) dctx (tid_new_for net (m_new plenty_mem)
    ((conn_tid conn)\<lparr>traddr := Some addr\<rparr>) (conn_is_dc conn)) = Some t" unfolding mem by (rule assms(3))
  have c: "added" "conn_ref iv' conn t"
    using add_config_conn_ref(1,2) [OF w a(1)] by (auto simp: a(2) conn_ref_def split: if_splits)
  have "cfg_conns iv2 = \<lparr>ce_tid = t, ce_conn = conn\<rparr> # cfg_conns iv" "lookups iv2 = (lookups iv)[i := ?l]"
    using a(1) c(1) w by (auto simp: add_config_conn_def Let_def split: option.splits if_splits)
  moreover have "map lconn ((lookups iv)[i := ?l]) = map lconn (lookups iv)"
    by (simp add: map_update) (metis list_update_id map_update)
  ultimately show ?thesis using c(1) conn_ref_desired(1) [OF c(2)] a(2)
    by (simp add: tid_same_canon del_at_def take_map drop_map flip: map_append)
qed


section \<open>A chain of referrals\<close>

text \<open>DC \<open>i\<close> refers to DC \<open>i + 1\<close>; DC 0 was discovered.\<close>

definition hop :: "nat \<Rightarrow> tid" where
  "hop i = tid_new\<lparr>traddr := Some (replicate i (CHR ''x''))\<rparr>"

definition chain :: "nat \<Rightarrow> inventory" where
  "chain n = inventory_new\<lparr>discovered_dcs := [hop 0],
     dlp_cache := map (\<lambda>i. \<lparr>dc_tid = hop i, iocs = [], referrals = [hop (i + 1)]\<rparr>) (rev [0..<n])\<rparr>"

lemma canon_hop: "i < 100 \<Longrightarrow> canon (hop i) = Some (''traddr='' @ replicate i (CHR ''x''))"
  by (simp add: canon_no_cache hop_def tid_new_def canonical_text_def append_kv_def CANONICAL_MAX_def)

lemma hop_inj: "i < 100 \<Longrightarrow> j < 100 \<Longrightarrow> canon (hop i) = canon (hop j) \<longleftrightarrow> i = j"
  by (simp add: canon_hop replicate_eq_replicate)

lemma hop_cache: "cache_ok (hop i)" "tid_abs (hop i) = hop i"
  by (simp_all add: cache_ok_def hop_def tid_new_def tid_abs_def invalidate_cache_def)

lemma chain_reach: "n \<le> 50 \<Longrightarrow> inv_reach net (chain n)"
proof (induction n)
  case 0
  have "inv_step net inventory_new (inventory_add_discovered_dc (\<lambda>_. True) True inventory_new (hop 0))"
    by (rule found [OF hop_cache(1)])
  moreover have "inventory_add_discovered_dc (\<lambda>_. True) True inventory_new (hop 0) = chain 0"
    by (simp add: inventory_add_discovered_dc_def chain_def inventory_new_def dup_mem hop_cache)
  moreover have "inventory_new\<lparr>nbft_dcs := [], nbft_iocs := []\<rparr> = inventory_new" by (simp add: inventory_new_def)
  ultimately show ?case using inv_reach.step [OF inv_reach.new [of net "[]" "[]"]] by simp
next
  case (Suc n)
  have "inv_step net (chain n) (inventory_update_dlp (\<lambda>_. True) (\<lambda>_. True) (\<lambda>_. True) (chain n) (hop n) [] [hop (n + 1)])"
    by (rule dlp [OF hop_cache(1)])
  moreover have "\<not> list_ex (\<lambda>e. tid_same (dc_tid e) (hop n)) (dlp_cache (chain n))"
    using Suc.prems by (auto simp: chain_def list_ex_iff tid_same_canon hop_inj)
  then have "inventory_update_dlp (\<lambda>_. True) (\<lambda>_. True) (\<lambda>_. True) (chain n) (hop n) [] [hop (n + 1)] = chain (Suc n)"
    by (simp add: inventory_update_dlp_def dup_mem hop_cache) (simp add: chain_def)
  ultimately show ?case using Suc inv_reach.step by fastforce
qed

lemma reaches_chain:
  assumes "n \<le> 50"
  shows "reaches (desires_of (chain n)) m k \<Longrightarrow> m \<le> n \<and> k = canon (hop m)"
    "m \<le> n \<Longrightarrow> reaches (desires_of (chain n)) m (canon (hop m))"
proof -
  have d: "distinct (keys (dlp_cache (chain n)))" by (rule reach_distinct [OF chain_reach [OF assms]])
  have e: "dlp_cache (chain n) = map (\<lambda>i. \<lparr>dc_tid = hop i, iocs = [], referrals = [hop (i + 1)]\<rparr>) (rev [0..<n])"
    by (simp add: chain_def)
  have z: "reaches (desires_of (chain n)) 0 k \<longleftrightarrow> k = canon (hop 0)" for k
    by (simp add: reaches_0 chain_def inventory_new_def)
  show "reaches (desires_of (chain n)) m k \<Longrightarrow> m \<le> n \<and> k = canon (hop m)"
  proof (induction m arbitrary: k)
    case (Suc m)
    then obtain i where i: "i < n" "reaches (desires_of (chain n)) m (canon (hop i))" "k = canon (hop (i + 1))"
      unfolding reaches_Suc_iff [OF d] e by auto
    then have "i = m" using Suc.IH [OF i(2)] assms hop_inj [of i m] by simp
    then show ?case using i by simp
  qed (use z in simp)
  show "m \<le> n \<Longrightarrow> reaches (desires_of (chain n)) m (canon (hop m))"
  proof (induction m)
    case (Suc m)
    then show ?case unfolding reaches_Suc_iff [OF d] e by (auto intro!: bexI [of _ m])
  qed (use z in simp)
qed

lemma chain_hops:
  assumes "n \<le> 50" "j < 100"
  shows "inventory_referral_hops (chain n) (hop j) \<ge> 0 \<longleftrightarrow> j \<le> n \<and> j \<le> 8"
proof -
  have "reaches (desires_of (chain n)) m (canon (hop j)) \<longleftrightarrow> m = j \<and> m \<le> n" for m
  proof
    assume "reaches (desires_of (chain n)) m (canon (hop j))"
    from reaches_chain(1) [OF assms(1) this] have "m \<le> n" "canon (hop j) = canon (hop m)" by auto
    then show "m = j \<and> m \<le> n" using hop_inj [of j m] assms by auto
  next
    assume "m = j \<and> m \<le> n"
    then show "reaches (desires_of (chain n)) m (canon (hop j))" using reaches_chain(2) [OF assms(1)] by blast
  qed
  then show ?thesis
    unfolding inventory_referral_hops_def hops_nonneg [OF reach_distinct [OF chain_reach [OF assms(1)]]]
    by (auto simp: INVENTORY_MAX_REFERRAL_HOPS_def)
qed

text \<open>A DC nine referrals away is not desired, but the query for its source names the DC before it as
  its parent, although it is to report no source then.\<close>

lemma source_of_undesired:
  "\<not> inventory_is_desired (chain 9) (hop 9) \<and> inventory_source (chain 9) (hop 9) = Some (''dlp'', Some (hop 8))"
proof -
  have iocs: "iocs e = []" if "e \<in> set (dlp_cache (chain 9))" for e using that by (auto simp: chain_def)
  have "\<not> inventory_is_desired (chain 9) (hop 9)"
    using chain_hops [of 9 9] iocs
    by (auto simp: inventory_is_desired_def list_ex_iff) (simp add: chain_def inventory_new_def)+
  moreover have "rev [0..<9] = [8, 7, 6, 5, 4, 3, 2, 1, 0 :: nat]" by (simp add: upt_rec)
  then have "source_loop (chain 9) (hop 9) (dlp_cache (chain 9)) = Some (''dlp'', Some (hop 8))"
    using chain_hops [of 9 8] by (subst (2) chain_def) simp
  moreover have "tid_list_contains l (hop 9) = False" if "l \<in> {nbft_dcs (chain 9), nbft_iocs (chain 9), cfg_dcs (chain 9), cfg_iocs (chain 9), discovered_dcs (chain 9)}" for l
    using that hop_inj [of 9 0] by (auto simp: chain_def inventory_new_def)
  ultimately show ?thesis by (simp add: inventory_source_def del: contains_iff)
qed


text \<open>The list of DCs to connect at startup is not free of duplicates when the firmware tables hold
  two entries for one DC.\<close>

lemma desired_dcs_duplicate:
  "inventory_desired_dcs (\<lambda>_ _. True) (\<lambda>_ _. True) (\<lambda>_ _. True) True (inventory_new\<lparr>nbft_dcs := [hop 0, hop 0]\<rparr>) =
     Some [hop 0, hop 0]"
  by (simp add: inventory_desired_dcs_def inventory_new_def dup_mem hop_cache)

section \<open>Witnesses\<close>

theorem inventory_invariant_witness:
  "distinct (map (\<lambda>e. canon (dc_tid e)) (dlp_cache (chain 2))) \<and> \<not> inventory_config_pending (chain 2)"
proof -
  have "inv_reach v4_net (chain 2)" by (rule chain_reach) simp
  note i = inventory_invariant [OF this]
  have "lookups (chain 2) = []" by (simp add: chain_def inventory_new_def)
  then show ?thesis using i by simp
qed

theorem referral_hops_shortest_witness: "inventory_referral_hops (chain 3) (hop 2) = 2"
proof -
  have r: "m = 2" if "reaches (desires_of (chain 3)) m (canon (hop 2))" for m
  proof -
    have "m \<le> 3" "canon (hop 2) = canon (hop m)" using reaches_chain(1) [OF _ that] by auto
    then show ?thesis using hop_inj [of 2 m] by auto
  qed
  have r2: "reaches (desires_of (chain 3)) 2 (canon (hop 2))" using reaches_chain(2) [of 3 2] by simp
  then have "(LEAST m. reaches (desires_of (chain 3)) m (canon (hop 2))) = 2"
    using r by (intro Least_equality) auto
  moreover have "\<exists>n \<le> INVENTORY_MAX_REFERRAL_HOPS. reaches (desires_of (chain 3)) n (canon (hop 2))"
    using r2 by (intro exI [of _ 2]) (simp add: INVENTORY_MAX_REFERRAL_HOPS_def)
  ultimately show ?thesis using referral_hops_shortest [OF chain_reach [of 3 v4_net], of "hop 2"] by simp
qed

theorem inventory_refines_witness:
  "a_discovered (desires_of (inventory_forget_dc (chain 1) (hop 0))) = {} \<and>
   a_dlp (desires_of (inventory_update_dlp (\<lambda>_. True) (\<lambda>_. True) (\<lambda>_. True) (chain 1) (hop 0) [hop 5] [])) (canon (hop 0)) =
     Some ({canon (hop 5)}, {})"
proof -
  have "inv_reach v4_net (chain 1)" by (rule chain_reach) simp
  note r = inventory_refines [OF this hop_cache(1) [of 0], of "[hop 5]" "[]" "hop 0"]
  have "a_discovered (desires_of (chain 1)) = {canon (hop 0)}" by (simp add: chain_def)
  then show ?thesis using r by (simp del: desires_sel)
qed

theorem desired_dcs_exact_witness:
  "\<exists>r. inventory_desired_dcs (\<lambda>_ _. True) (\<lambda>_ _. True) (\<lambda>_ _. True) True (chain 1) = Some r \<and> tid_list_contains r (hop 0) \<and>
     distinct (map canon r)"
proof -
  have "list_all cache_ok (nbft_dcs (chain 1) @ cfg_dcs (chain 1) @ discovered_dcs (chain 1))"
    by (simp add: chain_def inventory_new_def hop_cache)
  from desired_dcs_exact [OF this] obtain r where
    r: "inventory_desired_dcs (\<lambda>_ _. True) (\<lambda>_ _. True) (\<lambda>_ _. True) True (chain 1) = Some r"
    "tid_list_contains r (hop 0) = has_source (chain 1) (hop 0)" "distinct (map canon (nbft_dcs (chain 1))) \<longrightarrow> distinct (map canon r)"
    by blast
  moreover have "has_source (chain 1) (hop 0)" "nbft_dcs (chain 1) = []"
    by (simp_all add: has_source_def chain_def inventory_new_def)
  ultimately show ?thesis by auto
qed

definition demo_conn :: "string \<Rightarrow> config_conn" where
  "demo_conn addr = \<lparr>conn_is_dc = True, conn_tid = tid_new\<lparr>transport := Some ''tcp'', traddr := Some addr, hostnqn := Some ''h''\<rparr>\<rparr>"

definition demo_ctx :: discoverd_ctx where
  "demo_ctx = \<lparr>ctx_hostnqn = Some ''d'', ctx_hostid = None, ctx_resolver = True\<rparr>"

definition demo_dc :: tid where
  "demo_dc = tid_new\<lparr>transport := Some ''tcp'', traddr := Some ''10.0.0.1'', trsvcid := Some ''8009'', hostnqn := Some ''h''\<rparr>"

lemma demo_addr: "canon_ip v4_net True ''10.0.0.1'' = Inr ''10.0.0.1''" "ntop4 v4_net [10, 0, 0, 1] = Some ''10.0.0.1''"
  by code_simp+

lemma demo_built: "with_default_host (\<lambda>_. True) demo_ctx (tid_new_for v4_net (\<lambda>_. True) (conn_tid (demo_conn ''10.0.0.1'')) True) = Some demo_dc"
  by (simp add: with_default_host_def tid_set_default_host_if_unset_def tid_new_for_def demo_conn_def tid_new_def
    libnvmf_get_default_trsvcid_def libnvmf_tid_from_fields_def copy_fields_def any_copy_failed_def copy_failed_def
    shr_xstrdup_def tid_sanitize_addr_def demo_addr demo_dc_def NVME_DISC_IP_PORT_def)

theorem configured_conn_desired_witness:
  "inventory_is_desired (inventory_load_config v4_net (\<lambda>_. \<lparr>o_mem = plenty_mem, o_calloc = True, o_rok = True, o_tok = True\<rparr>)
     demo_ctx (Some [demo_conn ''host.example'', demo_conn ''10.0.0.1'']) inventory_new) demo_dc"
proof -
  let ?out = "\<lambda>_ :: nat. \<lparr>o_mem = plenty_mem, o_calloc = True, o_rok = True, o_tok = True\<rparr>"
  have "libnvmf_traddr_is_numeric v4_net True (traddr (conn_tid (demo_conn ''10.0.0.1'')))"
    by (simp add: demo_conn_def libnvmf_traddr_is_numeric_def demo_addr)
  moreover have "conn_is_dc (demo_conn ''10.0.0.1'')" by (simp add: demo_conn_def)
  ultimately show ?thesis
    using configured_conn_desired [of ?out "demo_conn ''10.0.0.1''" "[demo_conn ''host.example'', demo_conn ''10.0.0.1'']" demo_ctx v4_net
      demo_dc inventory_new] demo_built by simp
qed

definition demo_lookup :: cfg_lookup where
  "demo_lookup = \<lparr>lconn = demo_conn ''host.example'', query = True, retry_timer = None, retry_sec = 1, lfirst = True\<rparr>"

theorem lookup_conn_desired_witness:
  "case on_lookup v4_net plenty_mem True demo_ctx False [OtherFamily, In4 [10, 0, 0, 1]] 0
     (inventory_new\<lparr>lookups := [demo_lookup], nr_first_lookups := 1\<rparr>) of (added, iv) \<Rightarrow>
     inventory_is_desired iv demo_dc \<and> inventory_config_conn_for (cfg_conns iv) demo_dc = Some (demo_conn ''host.example'')"
proof -
  let ?iv = "inventory_new\<lparr>lookups := [demo_lookup], nr_first_lookups := 1\<rparr>" and ?res = "[OtherFamily, In4 [10, 0, 0, 1]]"
  obtain added iv' where r: "on_lookup v4_net plenty_mem True demo_ctx False ?res 0 ?iv = (added, iv')" by fastforce
  have "(conn_tid (demo_conn ''host.example''))\<lparr>traddr := Some ''10.0.0.1''\<rparr> = conn_tid (demo_conn ''10.0.0.1'')"
    "conn_is_dc (demo_conn ''host.example'')" by (simp_all add: demo_conn_def)
  then have "with_default_host (\<lambda>_. True) demo_ctx (tid_new_for v4_net (\<lambda>_. True)
      ((conn_tid (demo_conn ''host.example''))\<lparr>traddr := Some ''10.0.0.1''\<rparr>) (conn_is_dc (demo_conn ''host.example''))) = Some demo_dc"
    using demo_built by simp
  from lookup_conn_desired [OF _ _ this r] have "inventory_is_desired iv' demo_dc \<and> inventory_config_conn_for (cfg_conns iv') demo_dc = Some (demo_conn ''host.example'')"
    by (simp add: demo_lookup_def demo_addr)
  then show ?thesis unfolding r by simp
qed

end
