(* ===== verification/Dlp.thy ===== *)
theory Dlp
  imports Inventory
begin

text \<open>
  Discovery log pages (DLPs): the clean-up of an entry in \<open>sanitize_discovery_log_entry\<close>
  (\<open>libnvme/src/nvme/fabrics.c\<close>), the transport ID and the callback for an entry
  (\<open>discoverd/src/dlp.c\<close>), and what the daemon does with a log page, \<open>process_dlp\<close> of
  \<open>discoverd/src/main.c\<close>.

  The character arrays of an entry are lists of bytes, of the sizes the structure gives them; after the
  clean-up they are the strings they hold.  \<open>mok i\<close> are the allocations for entry \<open>i\<close>.  The requests
  to systemd - start a unit, park the discovery controller - are the output of \<open>process_dlp\<close>, and
  \<open>should_connect\<close>, which asks the exclusion list and the registry of connections, is an argument.
\<close>

section \<open>Entries\<close>

definition NVMF_TRTYPE_RDMA :: u8 where "NVMF_TRTYPE_RDMA = 1"
definition NVMF_TRTYPE_FC :: u8 where "NVMF_TRTYPE_FC = 2"
definition NVMF_TRTYPE_TCP :: u8 where "NVMF_TRTYPE_TCP = 3"
definition NVMF_TRTYPE_LOOP :: u8 where "NVMF_TRTYPE_LOOP = 254"
definition NVME_NQN_DISC :: u8 where "NVME_NQN_DISC = 1"
definition NVME_NQN_NVME :: u8 where "NVME_NQN_NVME = 2"
definition NVME_NQN_CURR :: u8 where "NVME_NQN_CURR = 3"
definition NVMF_DISC_EFLAGS_EPCSD :: u16 where "NVMF_DISC_EFLAGS_EPCSD = 2"
definition NVMF_TRSVCID_SIZE :: nat where "NVMF_TRSVCID_SIZE = 32"
definition NVMF_TRADDR_SIZE :: nat where "NVMF_TRADDR_SIZE = 256"
definition NVME_NQN_LENGTH :: nat where "NVME_NQN_LENGTH = 256"

lemmas dlp_consts = NVMF_TRTYPE_RDMA_def NVMF_TRTYPE_FC_def NVMF_TRTYPE_TCP_def NVMF_TRTYPE_LOOP_def NVME_NQN_DISC_def
  NVME_NQN_NVME_def NVME_NQN_CURR_def NVMF_DISC_EFLAGS_EPCSD_def NVMF_TRSVCID_SIZE_def NVMF_TRADDR_SIZE_def
  NVME_NQN_LENGTH_def

record nvmf_disc_log_entry =
  r_trtype :: u8
  r_subtype :: u8
  r_eflags :: u16
  r_trsvcid :: bytes
  r_subnqn :: bytes
  r_traddr :: bytes

record dlpe =
  trtype :: u8
  subtype :: u8
  eflags :: u16
  e_trsvcid :: string
  e_subnqn :: string
  e_traddr :: string

text \<open>The string in an array whose last byte is set to NUL.\<close>

definition terminated :: "nat \<Rightarrow> bytes \<Rightarrow> string" where
  "terminated n a = map (\<lambda>b. char_of (unat b)) (takeWhile (\<lambda>b. b \<noteq> 0) (a[n - 1 := 0]))"

definition sanitize_discovery_log_entry :: "nvmf_disc_log_entry \<Rightarrow> dlpe" where
  "sanitize_discovery_log_entry e =
     (let addr = shr_rtrim (terminated NVMF_TRADDR_SIZE (r_traddr e))
      in \<lparr>trtype = r_trtype e, subtype = r_subtype e, eflags = r_eflags e,
          e_trsvcid = shr_rtrim (terminated NVMF_TRSVCID_SIZE (r_trsvcid e)),
          e_subnqn = shr_rtrim (terminated NVME_NQN_LENGTH (r_subnqn e)),
          e_traddr = (if r_trtype e = NVMF_TRTYPE_FC then fc_wwn_normalize addr else addr)\<rparr>)"

definition libnvmf_trtype_str :: "u8 \<Rightarrow> string" where
  "libnvmf_trtype_str t =
     (if t = NVMF_TRTYPE_RDMA then ''rdma'' else if t = NVMF_TRTYPE_FC then ''fc''
      else if t = NVMF_TRTYPE_TCP then ''tcp'' else if t = NVMF_TRTYPE_LOOP then ''loop''
      else ''unrecognized'')"

definition tid_from_dlpe :: "inet \<Rightarrow> (nat \<Rightarrow> bool) \<Rightarrow> dlpe \<Rightarrow> tid option \<Rightarrow> tid option" where
  "tid_from_dlpe net mok e dc =
     (let scope = (case dc of None \<Rightarrow> None | Some d \<Rightarrow> tid_link_local_scope net d)
      in case tid_scope_link_local net (mok 0) (e_traddr e) scope of
           None \<Rightarrow> None
         | Some addr \<Rightarrow>
             tid_new_for net (\<lambda>k. mok (1 + k))
               \<lparr>transport = Some (libnvmf_trtype_str (trtype e)), traddr = Some addr,
                trsvcid = (if e_trsvcid e \<noteq> [] then Some (e_trsvcid e) else None), subsysnqn = Some (e_subnqn e),
                host_traddr = Option.bind dc host_traddr, host_iface = Option.bind dc host_iface,
                hostnqn = Option.bind dc hostnqn, hostid = Option.bind dc hostid, canon_cache = None, str_cache = None\<rparr>
               (subtype e = NVME_NQN_DISC))"

section \<open>Log pages\<close>

datatype dlp_event = IocCallback tid | DcCallback tid bool | SelfCallback bool

definition epcsd_of :: "dlpe \<Rightarrow> bool" where
  "epcsd_of e \<longleftrightarrow> eflags e AND NVMF_DISC_EFLAGS_EPCSD \<noteq> 0"

text \<open>The callbacks for one entry; the three callbacks are not NULL.\<close>

definition dlp_entry_events :: "inet \<Rightarrow> (nat \<Rightarrow> bool) \<Rightarrow> tid option \<Rightarrow> dlpe \<Rightarrow> dlp_event list" where
  "dlp_entry_events net mok dc e =
     (case tid_from_dlpe net mok e dc of
        None \<Rightarrow> []
      | Some t \<Rightarrow>
          if (case dc of
                None \<Rightarrow> False
              | Some d \<Rightarrow> if subtype e = NVME_NQN_CURR then \<not> tid_target_same d t else transport d \<noteq> transport t)
          then []
          else if subtype e = NVME_NQN_NVME then [IocCallback t]
          else if subtype e = NVME_NQN_DISC then [DcCallback t (epcsd_of e)]
          else if subtype e = NVME_NQN_CURR then [SelfCallback (epcsd_of e)]
          else [])"

fun dlp_process_log :: "inet \<Rightarrow> (nat \<Rightarrow> nat \<Rightarrow> bool) \<Rightarrow> tid option \<Rightarrow> nat \<Rightarrow> dlpe list \<Rightarrow> dlp_event list" where
  "dlp_process_log net mok dc i [] = []"
| "dlp_process_log net mok dc i (e # es) = dlp_entry_events net (mok i) dc e @ dlp_process_log net mok dc (i + 1) es"

section \<open>What the daemon does with a log page\<close>

datatype request = StartCtrl tid bool | RecordParentEpcsd tid bool | EpcsdPark

record dlp_fetch_ctx =
  f_iocs :: "tid list"
  f_referrals :: "tid list"
  f_hops :: int
  self_seen :: bool
  f_epcsd :: bool
  requests :: "request list"

text \<open>The two callbacks; \<open>dok\<close> are the allocations for the copy, \<open>aok\<close> that of the array.\<close>

definition dlp_ioc_callback :: "(tid \<Rightarrow> bool) \<Rightarrow> (nat \<Rightarrow> bool) \<Rightarrow> bool \<Rightarrow> tid \<Rightarrow> dlp_fetch_ctx \<Rightarrow> dlp_fetch_ctx" where
  "dlp_ioc_callback should_connect dok aok t f =
     (case libnvmf_tid_dup dok (Some t) of
        None \<Rightarrow> f
      | Some u \<Rightarrow>
          if \<not> aok then f
          else (let f1 = f\<lparr>f_iocs := f_iocs f @ [u]\<rparr>
                in if should_connect t then f1\<lparr>requests := requests f1 @ [StartCtrl t False]\<rparr> else f1))"

definition dlp_dc_callback ::
  "(tid \<Rightarrow> bool) \<Rightarrow> (nat \<Rightarrow> bool) \<Rightarrow> bool \<Rightarrow> tid \<Rightarrow> bool \<Rightarrow> dlp_fetch_ctx \<Rightarrow> dlp_fetch_ctx" where
  "dlp_dc_callback should_connect dok aok t epcsd f =
     (let f1 = (case libnvmf_tid_dup dok (Some t) of
                  None \<Rightarrow> f
                | Some u \<Rightarrow> if aok then f\<lparr>f_referrals := f_referrals f @ [u]\<rparr> else f)
      in if f_hops f1 < 0 then f1
         else if f_hops f1 \<ge> int INVENTORY_MAX_REFERRAL_HOPS then f1
         else if should_connect t then f1\<lparr>requests := requests f1 @ [StartCtrl t True, RecordParentEpcsd t epcsd]\<rparr>
         else f1)"

definition dlp_self_callback :: "bool \<Rightarrow> dlp_fetch_ctx \<Rightarrow> dlp_fetch_ctx" where
  "dlp_self_callback epcsd f = f\<lparr>self_seen := True, f_epcsd := epcsd\<rparr>"

text \<open>The callbacks in the order of the entries; \<open>dok i\<close> and \<open>aok i\<close> are the allocations of callback \<open>i\<close>.\<close>

fun run_callbacks ::
  "(tid \<Rightarrow> bool) \<Rightarrow> (nat \<Rightarrow> nat \<Rightarrow> bool) \<Rightarrow> (nat \<Rightarrow> bool) \<Rightarrow> nat \<Rightarrow> dlp_event list \<Rightarrow> dlp_fetch_ctx \<Rightarrow> dlp_fetch_ctx" where
  "run_callbacks should dok aok i [] f = f"
| "run_callbacks should dok aok i (IocCallback t # evs) f =
     run_callbacks should dok aok (i + 1) evs (dlp_ioc_callback should (dok i) (aok i) t f)"
| "run_callbacks should dok aok i (DcCallback t b # evs) f =
     run_callbacks should dok aok (i + 1) evs (dlp_dc_callback should (dok i) (aok i) t b f)"
| "run_callbacks should dok aok i (SelfCallback b # evs) f =
     run_callbacks should dok aok (i + 1) evs (dlp_self_callback b f)"

text \<open>The fields of an \<open>active_ctrl\<close> that \<open>process_dlp\<close> reads or writes.\<close>

record active_ctrl =
  c_tid :: tid
  c_is_dc :: bool
  parent_epcsd_known :: bool
  parent_epcsd :: bool
  force_persistent :: bool
  dlp_fetched :: bool

definition dc_effective_epcsd :: "dlp_fetch_ctx \<Rightarrow> active_ctrl \<Rightarrow> bool" where
  "dc_effective_epcsd f e =
     (if self_seen f then f_epcsd f else if parent_epcsd_known e then parent_epcsd e else False)"

record dlp_mem =
  d_entry :: "nat \<Rightarrow> nat \<Rightarrow> bool"
  d_dup :: "nat \<Rightarrow> nat \<Rightarrow> bool"
  d_append :: "nat \<Rightarrow> bool"
  d_end :: bool
  d_update :: "nat \<Rightarrow> bool"
  d_iocs :: "nat \<Rightarrow> bool"
  d_referrals :: "nat \<Rightarrow> bool"

definition process_dlp ::
  "inet \<Rightarrow> dlp_mem \<Rightarrow> (tid \<Rightarrow> bool) \<Rightarrow> inventory \<Rightarrow> active_ctrl \<Rightarrow> dlpe list \<Rightarrow> inventory \<times> active_ctrl \<times> request list" where
  "process_dlp net m should iv e log =
     (let dc = c_tid e;
          f0 = \<lparr>f_iocs = [], f_referrals = [], f_hops = inventory_referral_hops iv dc, self_seen = False, f_epcsd = False,
                requests = []\<rparr>;
          f = run_callbacks should (d_dup m) (d_append m) 0 (dlp_process_log net (d_entry m) (Some dc) 0 log) f0;
          reqs = (if c_is_dc e \<and> \<not> dc_effective_epcsd f e \<and> \<not> force_persistent e then requests f @ [EpcsdPark] else requests f)
      in if d_end m
         then (inventory_update_dlp (d_update m) (d_iocs m) (d_referrals m) iv dc (f_iocs f) (f_referrals f),
               e\<lparr>dlp_fetched := True\<rparr>, reqs)
         else (iv, e, reqs))"


section \<open>Lemmas\<close>

lemma canon_ip_mem: "canon_ip net mem s = Inr c \<Longrightarrow> canon_ip net True s = Inr c"
  by (auto simp: canon_ip_def Let_def split: if_splits option.splits)

lemma tid_new_for_cache_ok: "tid_new_for net mok args dc = Some t \<Longrightarrow> cache_ok t"
  using sanitize_no_cache [OF tid_new_for_sanitized] by (force simp: no_cache_def cache_ok_def)

lemma tid_from_dlpe_new:
  assumes "tid_from_dlpe net mok e dc = Some t"
  obtains args m where "tid_new_for net m args (subtype e = NVME_NQN_DISC) = Some t"
    "transport args = Some (libnvmf_trtype_str (trtype e))" "subsysnqn args = Some (e_subnqn e)"
    "host_traddr args = Option.bind dc host_traddr" "host_iface args = Option.bind dc host_iface"
    "hostnqn args = Option.bind dc hostnqn" "hostid args = Option.bind dc hostid"
  using assms by (fastforce simp: tid_from_dlpe_def Let_def split: option.splits)

lemma sanitize_keeps:
  assumes "tid_sanitize_addr net mok t = Inr t'"
  shows "transport t' = transport t" "subsysnqn t' = subsysnqn t" "host_iface t' = host_iface t" "hostnqn t' = hostnqn t"
    "hostid t' = hostid t" "trsvcid t' = trsvcid t"
  using assms by (cases rule: sanitize_cases; simp)+

lemma sanitize_host_traddr:
  assumes "tid_sanitize_addr net mok t = Inr t'" "sanitized net d" "transport d = transport t" "host_traddr d = host_traddr t"
  shows "host_traddr t' = host_traddr d"
  using assms(1)
proof (cases rule: sanitize_cases)
  case fc
  from assms(2) have "map_option fc_wwn_normalize (host_traddr d) = host_traddr d" unfolding sanitized_def
    by (cases rule: sanitize_cases) (use fc(1) assms(3) in \<open>auto dest: arg_cong [of _ _ host_traddr]\<close>)
  then show ?thesis using fc assms(4) by simp
next
  case (ip a h)
  have "canon_ip net True x = Inr x" if "host_traddr d = Some x" for x
    using assms(2) unfolding sanitized_def
    by (cases rule: sanitize_cases) (use ip(1) assms(3) that in \<open>auto dest: arg_cong [of _ _ host_traddr]\<close>)
  then show ?thesis using ip(2,4) assms(4) by (auto dest: canon_ip_mem)
qed (use assms(4) in simp)

text \<open>Where an event comes from.\<close>

lemma process_log_events:
  assumes "ev \<in> set (dlp_process_log net mok dc i log)"
  shows "\<exists>e \<in> set log. \<exists>m. ev \<in> set (dlp_entry_events net m dc e)"
  using assms by (induction log arbitrary: i) auto

definition ev_tid :: "dlp_event \<Rightarrow> tid option" where
  "ev_tid ev = (case ev of IocCallback t \<Rightarrow> Some t | DcCallback t _ \<Rightarrow> Some t | SelfCallback _ \<Rightarrow> None)"

lemma entry_event:
  assumes "ev \<in> set (dlp_entry_events net m (Some d) e)" "ev_tid ev = Some t"
  shows "tid_from_dlpe net m e (Some d) = Some t" "transport d = transport t" "subtype e \<noteq> NVME_NQN_CURR"
  using assms by (auto simp: dlp_entry_events_def ev_tid_def dlp_consts split: option.splits if_splits)

lemma event_cache_ok:
  assumes "ev \<in> set (dlp_process_log net mok (Some d) i log)" "ev_tid ev = Some t"
  shows "cache_ok t"
proof -
  obtain e m where "ev \<in> set (dlp_entry_events net m (Some d) e)" using process_log_events [OF assms(1)] by blast
  from entry_event(1) [OF this assms(2)] show ?thesis by (rule tid_from_dlpe_new) (rule tid_new_for_cache_ok)
qed

text \<open>The callbacks, with memory.\<close>

lemma callback_sel:
  "f_iocs (dlp_ioc_callback should (\<lambda>_. True) True t f) = f_iocs f @ [tid_abs t]"
  "f_referrals (dlp_ioc_callback should (\<lambda>_. True) True t f) = f_referrals f"
  "f_hops (dlp_ioc_callback should (\<lambda>_. True) True t f) = f_hops f"
  "f_iocs (dlp_dc_callback should (\<lambda>_. True) True t b f) = f_iocs f"
  "f_referrals (dlp_dc_callback should (\<lambda>_. True) True t b f) = f_referrals f @ [tid_abs t]"
  "f_hops (dlp_dc_callback should (\<lambda>_. True) True t b f) = f_hops f"
  "f_iocs (dlp_self_callback b f) = f_iocs f" "f_referrals (dlp_self_callback b f) = f_referrals f"
  "f_hops (dlp_self_callback b f) = f_hops f" "requests (dlp_self_callback b f) = requests f"
  "StartCtrl u x \<in> set (requests (dlp_ioc_callback should (\<lambda>_. True) True t f)) \<longleftrightarrow>
     StartCtrl u x \<in> set (requests f) \<or> u = t \<and> \<not> x \<and> should t"
  "StartCtrl u x \<in> set (requests (dlp_dc_callback should (\<lambda>_. True) True t b f)) \<longleftrightarrow>
     StartCtrl u x \<in> set (requests f) \<or> u = t \<and> x \<and> should t \<and> 0 \<le> f_hops f \<and> f_hops f < int INVENTORY_MAX_REFERRAL_HOPS"
  "RecordParentEpcsd u x \<in> set (requests (dlp_ioc_callback should (\<lambda>_. True) True t f)) \<longleftrightarrow> RecordParentEpcsd u x \<in> set (requests f)"
  "RecordParentEpcsd u x \<in> set (requests (dlp_dc_callback should (\<lambda>_. True) True t b f)) \<longleftrightarrow>
     RecordParentEpcsd u x \<in> set (requests f) \<or> u = t \<and> x = b \<and> should t \<and> 0 \<le> f_hops f \<and> f_hops f < int INVENTORY_MAX_REFERRAL_HOPS"
  by (auto simp: dlp_ioc_callback_def dlp_dc_callback_def dlp_self_callback_def dup_mem Let_def)

lemma run_iocs: "f_iocs (run_callbacks should (\<lambda>_ _. True) (\<lambda>_. True) i evs f) =
  f_iocs f @ concat (map (\<lambda>ev. case ev of IocCallback t \<Rightarrow> [tid_abs t] | _ \<Rightarrow> []) evs)"
proof (induction evs arbitrary: i f)
  case (Cons ev evs)
  then show ?case by (cases ev) (simp_all add: callback_sel)
qed simp

lemma run_referrals: "f_referrals (run_callbacks should (\<lambda>_ _. True) (\<lambda>_. True) i evs f) =
  f_referrals f @ concat (map (\<lambda>ev. case ev of DcCallback t b \<Rightarrow> [tid_abs t] | _ \<Rightarrow> []) evs)"
proof (induction evs arbitrary: i f)
  case (Cons ev evs)
  then show ?case by (cases ev) (simp_all add: callback_sel)
qed simp

lemma run_starts: "StartCtrl u x \<in> set (requests (run_callbacks should (\<lambda>_ _. True) (\<lambda>_. True) i evs f)) \<longleftrightarrow>
  StartCtrl u x \<in> set (requests f) \<or> should u \<and> (if x then 0 \<le> f_hops f \<and> f_hops f < int INVENTORY_MAX_REFERRAL_HOPS \<and>
    (\<exists>b. DcCallback u b \<in> set evs) else IocCallback u \<in> set evs)"
proof (induction evs arbitrary: i f)
  case (Cons ev evs)
  show ?case using Cons.IH by (cases ev) (auto simp: callback_sel)
qed simp

lemma run_records: "RecordParentEpcsd u x \<in> set (requests (run_callbacks should (\<lambda>_ _. True) (\<lambda>_. True) i evs f)) \<longleftrightarrow>
  RecordParentEpcsd u x \<in> set (requests f) \<or> should u \<and> 0 \<le> f_hops f \<and> f_hops f < int INVENTORY_MAX_REFERRAL_HOPS \<and>
    DcCallback u x \<in> set evs"
proof (induction evs arbitrary: i f)
  case (Cons ev evs)
  show ?case using Cons.IH by (cases ev) (auto simp: callback_sel)
qed simp

lemma run_iocs_keys:
  assumes "\<forall>ev \<in> set evs. \<forall>t. ev_tid ev = Some t \<longrightarrow> cache_ok t"
  shows "IocCallback t \<in> set evs \<Longrightarrow> canon t \<in> canon ` set (f_iocs (run_callbacks should (\<lambda>_ _. True) (\<lambda>_. True) i evs f))"
    "DcCallback t b \<in> set evs \<Longrightarrow> canon t \<in> canon ` set (f_referrals (run_callbacks should (\<lambda>_ _. True) (\<lambda>_. True) i evs f))"
proof -
  have c: "canon (tid_abs t) = canon t" if "ev \<in> set evs" "ev_tid ev = Some t" for ev t using assms that canon_abs by blast
  show "canon t \<in> canon ` set (f_iocs (run_callbacks should (\<lambda>_ _. True) (\<lambda>_. True) i evs f))" if "IocCallback t \<in> set evs"
    using c [OF that] that by (force simp: run_iocs ev_tid_def intro: image_eqI [of _ _ "tid_abs t"])
  show "canon t \<in> canon ` set (f_referrals (run_callbacks should (\<lambda>_ _. True) (\<lambda>_. True) i evs f))" if "DcCallback t b \<in> set evs"
    using c [OF that] that by (force simp: run_referrals ev_tid_def intro: image_eqI [of _ _ "tid_abs t"])
qed

text \<open>A new log page of a DC does not move that DC further away.\<close>

lemma reaches_update:
  assumes "reaches a n j" "a' = a\<lparr>a_dlp := (a_dlp a)(k \<mapsto> v)\<rparr>"
  shows "reaches a' n j \<or> (\<exists>m \<le> n. reaches a' m k)"
  using assms(1)
proof (induction rule: reaches.induct)
  case (source j)
  then show ?case using assms(2) by (auto intro: reaches.source)
next
  case (referral n p xs ys j)
  show ?case
  proof (cases "\<exists>m \<le> n. reaches a' m k")
    case False
    then have p: "reaches a' n p" "p \<noteq> k" using referral.IH by auto
    then have "a_dlp a' p = Some (xs, ys)" using referral.hyps(2) assms(2) by simp
    then show ?thesis using reaches.referral [OF p(1)] referral.hyps(3) by blast
  qed (use le_SucI in blast)
qed


lemma terminated_bounds:
  assumes "length a = n" "0 < n"
  shows "length (terminated n a) < n" "NUL \<notin> set (terminated n a)"
proof -
  have "takeWhile (\<lambda>b. b \<noteq> 0) (a[n - 1 := 0]) = takeWhile (\<lambda>b. b \<noteq> 0) (take (n - 1) a)"
    using assms by (simp add: upd_conv_take_nth_drop) (metis (mono_tags) takeWhile.simps(2) takeWhile_tail append_self_conv)
  then show "length (terminated n a) < n"
    using assms length_takeWhile_le [of "\<lambda>b. b \<noteq> 0" "take (n - 1) a"] by (simp add: terminated_def)
  have nz: "char_of (unat b) \<noteq> NUL" if "b \<noteq> 0" for b :: u8
  proof -
    have "unat b < 256" using unsigned_less [of b] by simp
    then have c: "(of_char (char_of (unat b) :: char) :: nat) = unat b" by (simp add: of_char_of)
    show ?thesis
    proof
      assume "char_of (unat b) = NUL"
      then have "unat b = 0" using c by simp
      then show False using that by (simp add: unat_eq_0)
    qed
  qed
  show "NUL \<notin> set (terminated n a)"
  proof
    assume "NUL \<in> set (terminated n a)"
    then obtain b where b: "b \<in> set (takeWhile (\<lambda>b. b \<noteq> 0) (a[n - 1 := 0]))" "NUL = char_of (unat b)"
      unfolding terminated_def set_map by (rule imageE)
    have "b \<noteq> 0" using set_takeWhileD [OF b(1)] by simp
    from nz [OF this] show False unfolding b(2) by simp
  qed
qed


section \<open>Properties\<close>

text \<open>C38: Whatever bytes a discovery controller sends in an entry, after the clean-up its three strings end
  within their arrays, hold no NUL and do not end in white space.\<close>

theorem dlp_entry_sanitized:
  assumes "length (r_trsvcid e) = NVMF_TRSVCID_SIZE" "length (r_subnqn e) = NVME_NQN_LENGTH"
    "length (r_traddr e) = NVMF_TRADDR_SIZE" "s = sanitize_discovery_log_entry e"
  shows "length (e_trsvcid s) < NVMF_TRSVCID_SIZE \<and> length (e_subnqn s) < NVME_NQN_LENGTH \<and>
    length (e_traddr s) < NVMF_TRADDR_SIZE \<and> NUL \<notin> set (e_trsvcid s @ e_subnqn s @ e_traddr s) \<and>
    (e_trsvcid s = [] \<or> \<not> isspace (last (e_trsvcid s))) \<and> (e_subnqn s = [] \<or> \<not> isspace (last (e_subnqn s))) \<and>
    (e_traddr s = [] \<or> \<not> isspace (last (e_traddr s)))"
proof -
  have rt: "length (shr_rtrim x) \<le> length x" "set (shr_rtrim x) \<subseteq> set x" for x
    using shr_rtrim_prefix [of x] by (metis length_append le_add1, metis set_append Un_upper1)
  note b1 = terminated_bounds [OF assms(1)] and b2 = terminated_bounds [OF assms(2)] and b3 = terminated_bounds [OF assms(3)]
  have fc: "length (fc_wwn_normalize x) = length x" "NUL \<notin> set x \<Longrightarrow> NUL \<notin> set (fc_wwn_normalize x)"
    "x \<noteq> [] \<Longrightarrow> \<not> isspace (last x) \<Longrightarrow> \<not> isspace (last (fc_wwn_normalize x))" for x
    by (induction x rule: fc_wwn_normalize.induct) (auto simp: ctype_defs split: if_splits)
  have pos: "0 < NVMF_TRSVCID_SIZE" "0 < NVME_NQN_LENGTH" "0 < NVMF_TRADDR_SIZE" by (simp_all add: dlp_consts)
  let ?a = "shr_rtrim (terminated NVMF_TRADDR_SIZE (r_traddr e))"
  have a: "e_traddr s = ?a \<or> e_traddr s = fc_wwn_normalize ?a"
    and t: "e_trsvcid s = shr_rtrim (terminated NVMF_TRSVCID_SIZE (r_trsvcid e))"
      "e_subnqn s = shr_rtrim (terminated NVME_NQN_LENGTH (r_subnqn e))"
    using assms(4) by (auto simp: sanitize_discovery_log_entry_def Let_def)
  have "length ?a < NVMF_TRADDR_SIZE" "NUL \<notin> set ?a" "?a = [] \<or> \<not> isspace (last ?a)"
    using rt [of "terminated NVMF_TRADDR_SIZE (r_traddr e)"] b3 pos shr_rtrim_last by (auto intro: le_less_trans)
  then have "length (e_traddr s) < NVMF_TRADDR_SIZE" "NUL \<notin> set (e_traddr s)" "e_traddr s = [] \<or> \<not> isspace (last (e_traddr s))"
    using a fc [of ?a] by (cases "?a = []"; auto)+
  moreover have "length (e_trsvcid s) < NVMF_TRSVCID_SIZE" "NUL \<notin> set (e_trsvcid s)" "e_trsvcid s = [] \<or> \<not> isspace (last (e_trsvcid s))"
    unfolding t using rt [of "terminated NVMF_TRSVCID_SIZE (r_trsvcid e)"] b1 pos shr_rtrim_last by (auto intro: le_less_trans)
  moreover have "length (e_subnqn s) < NVME_NQN_LENGTH" "NUL \<notin> set (e_subnqn s)" "e_subnqn s = [] \<or> \<not> isspace (last (e_subnqn s))"
    unfolding t using rt [of "terminated NVME_NQN_LENGTH (r_subnqn e)"] b2 pos shr_rtrim_last by (auto intro: le_less_trans)
  ultimately show ?thesis by simp
qed

text \<open>C37: What is learned from a log page is reached the way its discovery controller is: every I/O
  controller and every referral reported to the daemon has the transport of the discovery
  controller and its host address, interface, host name and host identifier; entries of another
  transport, also of one the library does not know, are left out.\<close>

theorem dlp_entries_follow_dc:
  assumes "sanitized net d" "ev \<in> set (dlp_process_log net mok (Some d) i log)" "ev = IocCallback t \<or> ev = DcCallback t b"
  shows "transport t = transport d \<and> host_traddr t = host_traddr d \<and> host_iface t = host_iface d \<and> hostnqn t = hostnqn d \<and>
    hostid t = hostid d"
proof -
  have ev: "ev_tid ev = Some t" using assms(3) by (auto simp: ev_tid_def)
  obtain e m where e: "ev \<in> set (dlp_entry_events net m (Some d) e)" using process_log_events [OF assms(2)] by blast
  note t = entry_event [OF e ev]
  obtain args m' where n: "tid_new_for net m' args (subtype e = NVME_NQN_DISC) = Some t" "host_traddr args = host_traddr d"
    "host_iface args = host_iface d" "hostnqn args = hostnqn d" "hostid args = hostid d"
    using t(1) by (rule tid_from_dlpe_new) auto
  note s = tid_new_for_sanitized [OF n(1)]
  have "transport args = transport d" using sanitize_keeps(1) [OF s] t(2) by simp
  then have "host_traddr t = host_traddr d" using sanitize_host_traddr [OF s assms(1)] n(2) by simp
  then show ?thesis using sanitize_keeps [OF s] n t(2) by simp
qed

text \<open>C3: A log page of a desired discovery controller takes effect at once and consistently.  In every inventory
  that can be reached, for a discovery controller whose cached strings are current, and with memory for the lists:
  every I/O controller reported from it is desired afterwards, and so is every referral unless
  the discovery controller is already eight referrals away.  The daemon is asked to start exactly these: as an
  I/O controller each I/O controller reported that \<open>should_connect\<close> allows, and as a discovery controller
  each referral reported that \<open>should_connect\<close> allows if the discovery controller is fewer than eight referrals
  away; the parent's EPCSD bit is recorded for just these referrals.  So whatever is started is
  desired.\<close>

theorem dlp_takes_effect:
  assumes "inv_reach net iv" "cache_ok (c_tid c)" "inventory_referral_hops iv (c_tid c) \<ge> 0"
    "m = \<lparr>d_entry = mok, d_dup = (\<lambda>_ _. True), d_append = (\<lambda>_. True), d_end = True, d_update = (\<lambda>_. True), d_iocs = (\<lambda>_. True),
          d_referrals = (\<lambda>_. True)\<rparr>"
    "process_dlp net m should iv c log = (iv', c', reqs)" "evs = dlp_process_log net mok (Some (c_tid c)) 0 log"
  shows "(\<forall>t. IocCallback t \<in> set evs \<longrightarrow> inventory_is_desired iv' t) \<and>
    (\<forall>t b. DcCallback t b \<in> set evs \<longrightarrow> inventory_referral_hops iv (c_tid c) < 8 \<longrightarrow> inventory_is_desired iv' t) \<and>
    (\<forall>t x. StartCtrl t x \<in> set reqs \<longrightarrow> inventory_is_desired iv' t \<and> should t) \<and>
    (\<forall>t. StartCtrl t False \<in> set reqs \<longleftrightarrow> IocCallback t \<in> set evs \<and> should t) \<and>
    (\<forall>t. StartCtrl t True \<in> set reqs \<longleftrightarrow>
       (\<exists>b. DcCallback t b \<in> set evs) \<and> inventory_referral_hops iv (c_tid c) < 8 \<and> should t) \<and>
    (\<forall>t b. RecordParentEpcsd t b \<in> set reqs \<longleftrightarrow>
       DcCallback t b \<in> set evs \<and> inventory_referral_hops iv (c_tid c) < 8 \<and> should t)"
proof -
  let ?dc = "c_tid c" and ?h = "inventory_referral_hops iv (c_tid c)"
  define f0 where "f0 = \<lparr>f_iocs = [], f_referrals = [], f_hops = ?h, self_seen = False, f_epcsd = False, requests = []\<rparr>"
  define f where "f = run_callbacks should (\<lambda>_ _. True) (\<lambda>_. True) 0 evs f0"
  have iv': "iv' = inventory_update_dlp (\<lambda>_. True) (\<lambda>_. True) (\<lambda>_. True) iv ?dc (f_iocs f) (f_referrals f)"
    and reqs: "StartCtrl t x \<in> set reqs \<longleftrightarrow> StartCtrl t x \<in> set (requests f)"
      "RecordParentEpcsd t x \<in> set reqs \<longleftrightarrow> RecordParentEpcsd t x \<in> set (requests f)" for t x
    using assms(4,5) by (auto simp: process_dlp_def Let_def f_def f0_def assms(6) split: if_splits)
  have ok: "\<forall>ev \<in> set evs. \<forall>t. ev_tid ev = Some t \<longrightarrow> cache_ok t" unfolding assms(6) using event_cache_ok by blast
  note d = reach_distinct [OF assms(1)]
  have "inv_reach net iv'" unfolding iv' by (rule inv_reach.step [OF assms(1) inv_step.dlp [OF assms(2)]])
  note des = is_desired_iff [OF reach_distinct [OF this]]
  define a where "a = desires_of iv"
  define a' where "a' = a\<lparr>a_dlp := (a_dlp a)(canon ?dc \<mapsto> (canon ` set (f_iocs f), canon ` set (f_referrals f)))\<rparr>"
  have a': "desires_of iv' = a'" unfolding iv' a'_def a_def
    by (rule update_dlp_cases [OF assms(2), of "\<lambda>_. True" "\<lambda>_. True" "\<lambda>_. True" iv "f_iocs f" "f_referrals f"])
      (auto simp: desires_of_def fun_eq_iff)
  have "reaches a (nat ?h) (canon ?dc) \<and> nat ?h \<le> INVENTORY_MAX_REFERRAL_HOPS"
    using hops_reaches [OF d, of ?dc INVENTORY_MAX_REFERRAL_HOPS] assms(3) by (simp add: inventory_referral_hops_def a_def)
  then obtain n where n: "reaches a' n (canon ?dc)" "n \<le> nat ?h" "n \<le> INVENTORY_MAX_REFERRAL_HOPS"
    using reaches_update [of a "nat ?h" "canon ?dc" a' "canon ?dc", OF _ a'_def] by auto
  have dlp: "a_dlp a' (canon ?dc) = Some (canon ` set (f_iocs f), canon ` set (f_referrals f))" by (simp add: a'_def)
  have ioc: "inventory_is_desired iv' t" if "IocCallback t \<in> set evs" for t
  proof -
    have "canon t \<in> canon ` set (f_iocs f)" unfolding f_def by (rule run_iocs_keys(1) [OF ok that])
    then show ?thesis unfolding des a' desired_def using dlp n(1,3) by blast
  qed
  have dc: "inventory_is_desired iv' t" if "DcCallback t b \<in> set evs" "?h < 8" for t b
  proof -
    have "reaches a' (Suc n) (canon t)"
      by (rule reaches.referral [OF n(1) dlp]) (use run_iocs_keys(2) [OF ok that(1)] in \<open>simp add: f_def\<close>)
    moreover have "Suc n \<le> INVENTORY_MAX_REFERRAL_HOPS" using n(2) that(2) assms(3) by (simp add: INVENTORY_MAX_REFERRAL_HOPS_def)
    ultimately show ?thesis unfolding des a' desired_def by blast
  qed
  have "StartCtrl t x \<in> set reqs \<longleftrightarrow> should t \<and> (if x then 0 \<le> ?h \<and> ?h < int INVENTORY_MAX_REFERRAL_HOPS \<and>
    (\<exists>b. DcCallback t b \<in> set evs) else IocCallback t \<in> set evs)" for t x
    unfolding reqs f_def run_starts by (simp only: f0_def dlp_fetch_ctx.select_convs list.set empty_iff simp_thms)
  note starts = this
  have "inventory_is_desired iv' t \<and> should t" if "StartCtrl t x \<in> set reqs" for t x
    using that ioc dc unfolding starts by (cases x) (auto simp: INVENTORY_MAX_REFERRAL_HOPS_def)
  moreover have "RecordParentEpcsd t b \<in> set reqs \<longleftrightarrow> DcCallback t b \<in> set evs \<and> ?h < 8 \<and> should t" for t b
    unfolding reqs f_def run_records using assms(3)
    by (auto simp only: f0_def dlp_fetch_ctx.select_convs list.set empty_iff simp_thms INVENTORY_MAX_REFERRAL_HOPS_def of_nat_numeral)
  moreover have "StartCtrl t True \<in> set reqs \<longleftrightarrow> (\<exists>b. DcCallback t b \<in> set evs) \<and> ?h < 8 \<and> should t"
    "StartCtrl t False \<in> set reqs \<longleftrightarrow> IocCallback t \<in> set evs \<and> should t" for t
    unfolding starts using assms(3) by (auto simp: INVENTORY_MAX_REFERRAL_HOPS_def)
  ultimately show ?thesis using ioc dc by blast
qed

section \<open>Witnesses and a default port\<close>

theorem dlp_entry_sanitized_witness:
  "length (e_subnqn (sanitize_discovery_log_entry \<lparr>r_trtype = 3, r_subtype = 2, r_eflags = 0, r_trsvcid = replicate 32 0xff,
     r_subnqn = replicate 256 0x61, r_traddr = replicate 256 0x20\<rparr>)) < 256"
  using dlp_entry_sanitized [of "\<lparr>r_trtype = 3, r_subtype = 2, r_eflags = 0, r_trsvcid = replicate 32 0xff,
     r_subnqn = replicate 256 0x61, r_traddr = replicate 256 0x20\<rparr>"] by (simp add: dlp_consts)

definition loop_dc :: tid where
  "loop_dc = tid_new\<lparr>transport := Some ''loop'', host_iface := Some ''eth0'', hostnqn := Some ''h''\<rparr>"

definition loop_entry :: dlpe where
  "loop_entry = \<lparr>trtype = 254, subtype = 2, eflags = 0, e_trsvcid = [], e_subnqn = ''nqn.x'', e_traddr = ''a''\<rparr>"

definition loop_ioc :: tid where
  "loop_ioc = loop_dc\<lparr>traddr := Some ''a'', subsysnqn := Some ''nqn.x''\<rparr>"

definition loop_inv :: inventory where
  "loop_inv = inventory_add_discovered_dc (\<lambda>_. True) True inventory_new loop_dc"

lemma loop_events: "dlp_process_log v4_net (\<lambda>_ _. True) (Some loop_dc) 0 [loop_entry] = [IocCallback loop_ioc]"
  by (simp add: dlp_entry_events_def tid_from_dlpe_def tid_link_local_scope_def tid_scope_link_local_def loop_dc_def loop_entry_def
    loop_ioc_def libnvmf_trtype_str_def tid_new_def dlp_consts tid_new_for_def libnvmf_get_default_trsvcid_def
    libnvmf_tid_from_fields_def copy_fields_def any_copy_failed_def copy_failed_def shr_xstrdup_def tid_sanitize_addr_def)

theorem dlp_entries_follow_dc_witness: "host_iface loop_ioc = Some ''eth0'' \<and> hostnqn loop_ioc = Some ''h''"
proof -
  have "sanitized v4_net loop_dc" by (simp add: sanitized_def tid_sanitize_addr_def loop_dc_def tid_new_def)
  from dlp_entries_follow_dc [OF this, of "IocCallback loop_ioc" "\<lambda>_ _. True" 0 "[loop_entry]" loop_ioc] loop_events
  show ?thesis by (simp add: loop_dc_def)
qed

theorem dlp_takes_effect_witness:
  "case process_dlp v4_net \<lparr>d_entry = (\<lambda>_ _. True), d_dup = (\<lambda>_ _. True), d_append = (\<lambda>_. True), d_end = True,
     d_update = (\<lambda>_. True), d_iocs = (\<lambda>_. True), d_referrals = (\<lambda>_. True)\<rparr> (\<lambda>_. True) loop_inv
     \<lparr>c_tid = loop_dc, c_is_dc = True, parent_epcsd_known = False, parent_epcsd = False, force_persistent = False, dlp_fetched = False\<rparr>
     [loop_entry] of (iv, c, reqs) \<Rightarrow> inventory_is_desired iv loop_ioc \<and> StartCtrl loop_ioc False \<in> set reqs"
proof -
  let ?m = "\<lparr>d_entry = (\<lambda>_ _. True), d_dup = (\<lambda>_ _. True), d_append = (\<lambda>_. True), d_end = True,
     d_update = (\<lambda>_. True), d_iocs = (\<lambda>_. True), d_referrals = (\<lambda>_. True)\<rparr>"
  let ?c = "\<lparr>c_tid = loop_dc, c_is_dc = True, parent_epcsd_known = False, parent_epcsd = False, force_persistent = False, dlp_fetched = False\<rparr>"
  have c: "cache_ok loop_dc" by (simp add: cache_ok_def loop_dc_def tid_new_def)
  have "inv_reach v4_net inventory_new" using inv_reach.new [of v4_net "[]" "[]"] by (simp add: inventory_new_def)
  then have r: "inv_reach v4_net loop_inv" unfolding loop_inv_def by (rule inv_reach.step) (rule inv_step.found [OF c])
  have "has_source loop_inv loop_dc"
    using canon_abs [OF c] by (simp add: loop_inv_def inventory_add_discovered_dc_def dup_mem has_source_def inventory_new_def)
  then have h: "inventory_referral_hops loop_inv loop_dc \<ge> 0"
    by (simp add: inventory_referral_hops_def INVENTORY_MAX_REFERRAL_HOPS_def numeral_eq_Suc)
  obtain iv' c' reqs where p: "process_dlp v4_net ?m (\<lambda>_. True) loop_inv ?c [loop_entry] = (iv', c', reqs)" by (metis prod_cases3)
  have "IocCallback loop_ioc \<in> set (dlp_process_log v4_net (\<lambda>_ _. True) (Some (c_tid ?c)) 0 [loop_entry])"
    unfolding active_ctrl.select_convs loop_events by simp
  then have "inventory_is_desired iv' loop_ioc \<and> StartCtrl loop_ioc False \<in> set reqs"
    using dlp_takes_effect [OF r, of ?c ?m "\<lambda>_ _. True" "\<lambda>_. True" "[loop_entry]", OF _ _ refl p refl] c h
    unfolding active_ctrl.select_convs by blast
  then show ?thesis unfolding p by simp
qed

text \<open>The self entry of a TCP discovery controller that leaves out its port is given the port of an I/O
  controller, because its subtype is not that of a referral; it no longer matches the discovery
  controller at port 8009, and its EPCSD bit is not seen.\<close>

definition self_entry :: "string \<Rightarrow> dlpe" where
  "self_entry svc = \<lparr>trtype = NVMF_TRTYPE_TCP, subtype = NVME_NQN_CURR, eflags = NVMF_DISC_EFLAGS_EPCSD, e_trsvcid = svc,
     e_subnqn = NVME_DISC_SUBSYS_NAME, e_traddr = ''10.0.0.1''\<rparr>"

lemma self_entry_default_port:
  "dlp_process_log v4_net (\<lambda>_ _. True) (Some demo_dc) 0 [self_entry []] = []"
  "dlp_process_log v4_net (\<lambda>_ _. True) (Some demo_dc) 0 [self_entry ''8009''] = [SelfCallback True]"
proof -
  have "tid_link_local_scope v4_net demo_dc = None"
    by (simp add: tid_link_local_scope_def demo_dc_def tid_new_def PCT_def)
  then have t: "tid_from_dlpe v4_net (\<lambda>_. True) (self_entry svc) (Some demo_dc) =
    Some (demo_dc\<lparr>trsvcid := Some (if svc = [] then ''4420'' else svc), subsysnqn := Some NVME_DISC_SUBSYS_NAME\<rparr>)" for svc
    by (simp add: tid_from_dlpe_def self_entry_def tid_scope_link_local_def libnvmf_trtype_str_def dlp_consts tid_new_for_def tid_new_def
      libnvmf_get_default_trsvcid_def libnvmf_tid_from_fields_def copy_fields_def any_copy_failed_def copy_failed_def
      shr_xstrdup_def tid_sanitize_addr_def demo_addr demo_dc_def NVME_RDMA_IP_PORT_def)
  have s: "subtype (self_entry svc) = NVME_NQN_CURR" for svc by (simp add: self_entry_def)
  show "dlp_process_log v4_net (\<lambda>_ _. True) (Some demo_dc) 0 [self_entry []] = []"
    by (simp add: dlp_entry_events_def t s) (simp add: tid_target_same_def demo_dc_def)
  show "dlp_process_log v4_net (\<lambda>_ _. True) (Some demo_dc) 0 [self_entry ''8009''] = [SelfCallback True]"
    by (simp add: dlp_entry_events_def t s) (simp add: tid_target_same_def demo_dc_def dlp_consts epcsd_of_def self_entry_def)
qed

end
