(* ===== verification/DiscLog.thy ===== *)
theory DiscLog
  imports GetLog Dlp
begin

text \<open>
  Reading the Discovery Log Page of a discovery controller: \<open>nvme_discovery_log\<close> and
  \<open>libnvmf_get_discovery_log\<close> of \<open>libnvme/src/nvme/fabrics.c\<close>, on top of \<open>libnvme_get_log\<close> and
  \<open>libnvme_alloc\<close> (\<open>mem-linux.c\<close>).

  The log page changes while it is read: \<open>dv_page d k\<close> is the page when command \<open>k\<close> is executed, a
  function from offsets to bytes, \<open>dv_rc d k\<close> the result of the command and \<open>dv_wait d k\<close> that of the
  wait of a read whose first command was \<open>k\<close>.  A command copies the bytes at its offset to its address;
  the result of a read is \<open>None\<close> if that leaves the buffer.  \<open>heap i n\<close> is the address of the \<open>i\<close>-th block of
  memory, of \<open>n\<close> bytes, or \<open>None\<close>.
\<close>

section \<open>Memory and transfers\<close>

type_synonym log_page = "nat \<Rightarrow> u8"

record device =
  dv_page :: "nat \<Rightarrow> log_page"
  dv_rc :: "nat \<Rightarrow> rc"
  dv_wait :: "nat \<Rightarrow> rc"

definition SIZE_MAX :: nat where "SIZE_MAX = 2 ^ 64 - 1"

definition round_up_checked :: "nat \<Rightarrow> nat \<Rightarrow> nat option" where
  "round_up_checked n s =
     (if s = 0 then None
      else (let r = n mod s in if r = 0 then Some n else if n > SIZE_MAX - (s - r) then None else Some (n + (s - r))))"

definition libnvme_alloc :: "(nat \<Rightarrow> u64 option) \<Rightarrow> nat \<Rightarrow> (u64 \<times> bytes) option" where
  "libnvme_alloc heap n =
     (case round_up_checked (if n = 0 then 1 else n) 0x1000 of
        None \<Rightarrow> None
      | Some m \<Rightarrow> (case heap m of None \<Rightarrow> None | Some a \<Rightarrow> Some (a, replicate m 0)))"

definition transfer :: "log_page \<Rightarrow> u64 \<Rightarrow> passthru_cmd \<Rightarrow> bytes \<Rightarrow> bytes option" where
  "transfer page base c buf =
     (let off = unat (addr c - base); n = unat (data_len c)
      in if off + n \<le> length buf then Some (blit off (map page [cmd_lpo c..<cmd_lpo c + n]) buf) else None)"

fun transfers :: "device \<Rightarrow> nat \<Rightarrow> u64 \<Rightarrow> passthru_cmd list \<Rightarrow> bytes \<Rightarrow> bytes option" where
  "transfers d k base [] buf = Some buf"
| "transfers d k base (c # cs) buf =
     (case transfer (dv_page d k) base c buf of None \<Rightarrow> None | Some buf' \<Rightarrow> transfers d (k + 1) base cs buf')"

text \<open>\<open>libnvme_get_log\<close> without Retain Asynchronous Event, from command \<open>k\<close> on: the result, the buffer and the number of
  the next command.\<close>

definition get_log_into :: "bool \<Rightarrow> device \<Rightarrow> nat \<Rightarrow> u64 \<Rightarrow> bytes \<Rightarrow> passthru_cmd \<Rightarrow> u32 \<Rightarrow> (rc \<times> bytes \<times> nat) option" where
  "get_log_into force_4k d k base buf cmd xfer_len =
     (case libnvme_get_log force_4k (\<lambda>j _. dv_rc d (k + j)) (dv_wait d k) cmd False xfer_len of
        None \<Rightarrow> None
      | Some (ret, cs) \<Rightarrow> map_option (\<lambda>buf'. (ret, buf', k + length cs)) (transfers d k base cs buf))"

section \<open>The log page\<close>

text \<open>The size of the header, which is also the size of an entry.\<close>

definition DISC_LOG_SIZE :: nat where "DISC_LOG_SIZE = 1024"
definition DISCOVERY_HEADER_LEN :: u32 where "DISCOVERY_HEADER_LEN = 20"
definition NVME_LOG_LID_DISCOVERY :: u32 where "NVME_LOG_LID_DISCOVERY = 0x70"

definition nvme_init_get_log_discovery :: "u64 \<Rightarrow> u64 \<Rightarrow> u32 \<Rightarrow> passthru_cmd" where
  "nvme_init_get_log_discovery lpo log n = nvme_init_get_log_lpo (nvme_init_get_log 0 NVME_LOG_LID_DISCOVERY 0 log n) lpo"

fun le_nat :: "bytes \<Rightarrow> nat" where
  "le_nat [] = 0"
| "le_nat (b # bs) = unat b + 256 * le_nat bs"

definition genctr :: "bytes \<Rightarrow> u64" where "genctr log = of_nat (le_nat (take 8 log))"
definition numrec :: "bytes \<Rightarrow> u64" where "numrec log = of_nat (le_nat (take 8 (drop 8 log)))"

text \<open>The checks after the loop.\<close>

definition discovery_check :: "u64 \<Rightarrow> u64 \<Rightarrow> bytes \<Rightarrow> rc + bytes" where
  "discovery_check g n log =
     (if g \<noteq> genctr log then Inl (RcErrno EAGAIN) else if n \<noteq> numrec log then Inl (RcErrno EBADSLT) else Inr log)"

definition entries_cmd :: "u64 \<Rightarrow> u8 \<Rightarrow> nat \<Rightarrow> passthru_cmd" where
  "entries_cmd a lsp n =
     (let cmd = nvme_init_get_log_discovery (of_nat DISC_LOG_SIZE) (a + of_nat DISC_LOG_SIZE) (of_nat n)
      in cmd\<lparr>cdw10 := cdw10 cmd OR field_encode (ucast lsp) 8 0x7f\<rparr>)"

text \<open>The loop: \<open>retries\<close> is the variable of the code, the block of the next try is number \<open>retries + 1\<close>.\<close>

function discovery_loop ::
  "bool \<Rightarrow> (nat \<Rightarrow> nat \<Rightarrow> u64 option) \<Rightarrow> device \<Rightarrow> u8 \<Rightarrow> int \<Rightarrow> nat \<Rightarrow> nat \<Rightarrow> bytes \<Rightarrow> (rc + bytes) option" where
  "discovery_loop force_4k heap d lsp max_retries retries k log =
     (let n = unat (numrec log); g = genctr log
      in if n = 0 then Some (discovery_check g (numrec log) log)
         else if n > (SIZE_MAX - DISC_LOG_SIZE) div DISC_LOG_SIZE then Some (Inl (RcErrno EINVAL))
         else (case libnvme_alloc (heap (retries + 1)) (DISC_LOG_SIZE + DISC_LOG_SIZE * n) of
                 None \<Rightarrow> Some (Inl (RcErrno ENOMEM))
               | Some (a, buf) \<Rightarrow>
                   (case get_log_into force_4k d k a buf (entries_cmd a lsp (DISC_LOG_SIZE * n)) NVME_LOG_PAGE_PDU_SIZE of
                      None \<Rightarrow> None
                    | Some (ret, buf1, k1) \<Rightarrow>
                        if ret \<noteq> RcOk then Some (Inl ret)
                        else (case get_log_into force_4k d k1 a buf1 (nvme_init_get_log_discovery 0 a DISCOVERY_HEADER_LEN)
                                     DISCOVERY_HEADER_LEN of
                                None \<Rightarrow> None
                              | Some (ret, buf2, k2) \<Rightarrow>
                                  if ret \<noteq> RcOk then Some (Inl ret)
                                  else if g \<noteq> genctr buf2 \<and> int retries + 1 < max_retries
                                  then discovery_loop force_4k heap d lsp max_retries (retries + 1) k2 buf2
                                  else Some (discovery_check g (numrec log) buf2)))))"
  by pat_completeness auto
termination by (relation "measure (\<lambda>(f, h, d, l, m, r, k, b). nat (m - int r))") auto

declare discovery_loop.simps [simp del]

definition nvme_discovery_log ::
  "bool \<Rightarrow> (nat \<Rightarrow> nat \<Rightarrow> u64 option) \<Rightarrow> device \<Rightarrow> bool \<Rightarrow> int \<Rightarrow> u8 \<Rightarrow> (rc + bytes) option" where
  "nvme_discovery_log force_4k heap d hdl max_retries lsp =
     (if \<not> hdl then Some (Inl (RcErrno ENODEV))
      else (case libnvme_alloc (heap 0) DISC_LOG_SIZE of
              None \<Rightarrow> Some (Inl (RcErrno ENOMEM))
            | Some (a, log) \<Rightarrow>
                (case get_log_into force_4k d 0 a log (nvme_init_get_log_discovery 0 a DISCOVERY_HEADER_LEN) DISCOVERY_HEADER_LEN of
                   None \<Rightarrow> None
                 | Some (ret, log1, k) \<Rightarrow>
                     if ret \<noteq> RcOk then Some (Inl ret) else discovery_loop force_4k heap d lsp max_retries 0 k log1)))"

text \<open>The fields of an entry that the clean-up and the daemon use.\<close>

definition disc_log_entry :: "bytes \<Rightarrow> nvmf_disc_log_entry" where
  "disc_log_entry b =
     \<lparr>r_trtype = b ! 0, r_subtype = b ! 2, r_eflags = of_nat (le_nat (take 2 (drop 10 b))),
      r_trsvcid = take NVMF_TRSVCID_SIZE (drop 32 b), r_subnqn = take NVME_NQN_LENGTH (drop 256 b),
      r_traddr = take NVMF_TRADDR_SIZE (drop 512 b)\<rparr>"

definition log_entry :: "bytes \<Rightarrow> nat \<Rightarrow> bytes" where
  "log_entry log i = take DISC_LOG_SIZE (drop (DISC_LOG_SIZE + DISC_LOG_SIZE * i) log)"

definition libnvmf_get_discovery_log ::
  "bool \<Rightarrow> (nat \<Rightarrow> nat \<Rightarrow> u64 option) \<Rightarrow> device \<Rightarrow> bool \<Rightarrow> (int \<times> u8) option \<Rightarrow> (rc + u64 \<times> dlpe list) option" where
  "libnvmf_get_discovery_log force_4k heap d hdl args =
     (case nvme_discovery_log force_4k heap d hdl (case args of None \<Rightarrow> 6 | Some (m, _) \<Rightarrow> m) (case args of None \<Rightarrow> 0 | Some (_, l) \<Rightarrow> l) of
        None \<Rightarrow> None
      | Some (Inl e) \<Rightarrow> Some (Inl e)
      | Some (Inr log) \<Rightarrow>
          Some (Inr (genctr log, map (\<lambda>i. sanitize_discovery_log_entry (disc_log_entry (log_entry log i))) [0..<unat (numrec log)])))"

section \<open>What a read leaves in the buffer\<close>

text \<open>Blocks of memory do not wrap around.\<close>

definition heap_ok :: "(nat \<Rightarrow> nat \<Rightarrow> u64 option) \<Rightarrow> bool" where
  "heap_ok heap \<longleftrightarrow> (\<forall>i n a. heap i n = Some a \<longrightarrow> unat a + n \<le> 2 ^ 64)"

lemma alloc_ok:
  assumes "libnvme_alloc (heap i) n = Some (a, buf)" "heap_ok heap"
  shows "n \<le> length buf" "unat a + length buf \<le> 2 ^ 64"
proof -
  obtain m where m: "round_up_checked (if n = 0 then 1 else n) 0x1000 = Some m" "heap i m = Some a" "buf = replicate m 0"
    using assms(1) by (auto simp: libnvme_alloc_def split: option.splits)
  then show "n \<le> length buf" by (auto simp: round_up_checked_def Let_def split: if_splits)
  show "unat a + length buf \<le> 2 ^ 64" using assms(2) m(2,3) unfolding heap_ok_def by simp
qed

lemma alloc_some:
  assumes "n \<le> 2 ^ 32" "\<And>m. m \<le> 2 ^ 33 \<Longrightarrow> heap m \<noteq> None"
  shows "\<exists>a buf. libnvme_alloc heap n = Some (a, buf)"
proof -
  have "\<exists>m \<le> 2 ^ 33. round_up_checked (if n = 0 then 1 else n) 0x1000 = Some m"
    using assms(1) by (auto simp: round_up_checked_def Let_def SIZE_MAX_def)
  then obtain m where m: "round_up_checked (if n = 0 then 1 else n) 0x1000 = Some m" "m \<le> 2 ^ 33" by blast
  moreover obtain a where "heap m = Some a" using assms(2) [OF m(2)] by auto
  ultimately show ?thesis by (simp add: libnvme_alloc_def)
qed

lemma nth_blit:
  "off + length xs \<le> length buf \<Longrightarrow> i < length buf \<Longrightarrow>
   blit off xs buf ! i = (if off \<le> i \<and> i < off + length xs then xs ! (i - off) else buf ! i)"
  by (auto simp: blit_def nth_append)

text \<open>Byte \<open>off + i\<close> of the buffer is byte \<open>p + i\<close> of the page at some time from \<open>k\<close> on and before \<open>k'\<close>.\<close>

definition filled :: "device \<Rightarrow> nat \<Rightarrow> nat \<Rightarrow> nat \<Rightarrow> nat \<Rightarrow> nat \<Rightarrow> bytes \<Rightarrow> bool" where
  "filled d k k' off p n buf \<longleftrightarrow> (\<forall>i < n. \<exists>j. k \<le> j \<and> j < k' \<and> buf ! (off + i) = dv_page d j (p + i))"

definition unchanged :: "nat \<Rightarrow> nat \<Rightarrow> bytes \<Rightarrow> bytes \<Rightarrow> bool" where
  "unchanged off n buf buf' \<longleftrightarrow> length buf' = length buf \<and> (\<forall>i < length buf. i < off \<or> off + n \<le> i \<longrightarrow> buf' ! i = buf ! i)"

lemma transfers_reads:
  assumes "reads rae p (unat base + off) n cs = Some rest" "off + n \<le> length buf"
  shows "rest \<le> n \<and> (\<exists>buf'. transfers d k base cs buf = Some buf' \<and> unchanged off (n - rest) buf buf' \<and>
    filled d k (k + length cs) off p (n - rest) buf')"
  using assms
proof (induction cs arbitrary: k p off n buf)
  case Nil
  then show ?case by (simp add: unchanged_def filled_def)
next
  case (Cons c cs)
  define b where "b = cmd_bytes c"
  have c: "cmd_lpo c = p" "unat (addr c) = unat base + off" "unat (data_len c) = b" "b \<le> n"
    and rest: "reads rae (p + b) (unat base + (off + b)) (n - b) cs = Some rest"
    using Cons.prems(1) by (auto simp: b_def Let_def add.assoc split: if_splits)
  have "unat (addr c - base) = off" using c(2) by (simp add: unat_sub word_le_nat_alt)
  then have t: "transfer (dv_page d k) base c buf = Some (blit off (map (dv_page d k) [p..<p + b]) buf)" (is "_ = Some ?buf")
    using c Cons.prems(2) by (simp add: transfer_def Let_def)
  have l: "length ?buf = length buf" using c(4) Cons.prems(2) by (simp add: length_blit)
  then obtain buf' where r: "rest \<le> n - b" "transfers d (k + 1) base cs ?buf = Some buf'" "unchanged (off + b) (n - b - rest) ?buf buf'"
    "filled d (k + 1) (k + 1 + length cs) (off + b) (p + b) (n - b - rest) buf'"
    using Cons.IH [OF rest, of ?buf "k + 1"] c(4) Cons.prems(2) by auto
  have "unchanged off (n - rest) buf buf'"
    using r(1,3) c(4) Cons.prems(2) l by (auto simp: unchanged_def nth_blit)
  moreover have "filled d k (k + length (c # cs)) off p (n - rest) buf'"
    unfolding filled_def
  proof (intro allI impI)
    fix i assume i: "i < n - rest"
    show "\<exists>j. k \<le> j \<and> j < k + length (c # cs) \<and> buf' ! (off + i) = dv_page d j (p + i)"
    proof (cases "i < b")
      case True
      then have "buf' ! (off + i) = dv_page d k (p + i)"
        using r(3) c(4) Cons.prems(2) l by (auto simp: unchanged_def nth_blit)
      then show ?thesis by (intro exI [of _ k]) simp
    next
      case False
      then have "i - b < n - b - rest" using i r(1) by linarith
      then obtain j where "k + 1 \<le> j" "j < k + 1 + length cs" "buf' ! (off + b + (i - b)) = dv_page d j (p + b + (i - b))"
        using r(4) unfolding filled_def by blast
      then show ?thesis using False by (intro exI [of _ j]) simp
    qed
  qed
  ultimately show ?case using r(1,2) t c(4) by auto
qed


text \<open>No command fails.\<close>

definition all_ok :: "device \<Rightarrow> bool" where
  "all_ok d \<longleftrightarrow> (\<forall>k. dv_rc d k = RcOk \<and> dv_wait d k = RcOk)"

lemma send_prefix: "\<exists>more. cs = snd (send submit wait k cs) @ more \<and> (fst (send submit wait k cs) = RcOk \<longrightarrow> more = [])"
  by (induction cs arbitrary: k) (auto simp: Let_def)

lemma reads_prefix: "reads rae p a n (xs @ ys) = Some r \<Longrightarrow> \<exists>r'. reads rae p a n xs = Some r'"
  by (induction xs arbitrary: p a n) (auto simp: Let_def split: if_splits)

lemma send_not_empty: "cs \<noteq> [] \<Longrightarrow> snd (send submit wait k cs) \<noteq> []"
  by (cases cs) (auto simp: Let_def)

lemma get_log_into_ok:
  assumes "4 dvd unat (data_len cmd)" "0 < unat (data_len cmd)" "4 dvd unat xl" "4 \<le> xl" "cmd_lpo cmd + unat (data_len cmd) \<le> 2 ^ 64"
    "unat (addr cmd) = unat base + off" "off + unat (data_len cmd) \<le> length buf" "unat base + length buf \<le> 2 ^ 64"
  obtains ret buf' k' where "get_log_into False d k base buf cmd xl = Some (ret, buf', k')" "k < k'"
    "unchanged off (unat (data_len cmd)) buf buf'" "ret = RcOk \<Longrightarrow> filled d k k' off (cmd_lpo cmd) (unat (data_len cmd)) buf'"
    "unat (data_len cmd) \<le> unat xl \<Longrightarrow> k' = Suc k" "all_ok d \<Longrightarrow> ret = RcOk"
proof -
  let ?n = "unat (data_len cmd)" and ?submit = "\<lambda>j _ :: passthru_cmd. dv_rc d (k + j)"
  have "unat (addr cmd) + ?n \<le> 2 ^ 64" using assms(6-8) by simp
  then obtain cs where cs: "reads False (cmd_lpo cmd) (unat base + off) ?n cs = Some 0" "length cs = (?n + unat xl - 1) div unat xl"
    "\<And>submit wait. libnvme_get_log False submit wait cmd False xl = Some (send submit wait 0 cs)"
    using get_log_sends [OF assms(1-5), of False] assms(6) by auto
  obtain ret sent where s: "send ?submit (dv_wait d k) 0 cs = (ret, sent)" by fastforce
  obtain more where more: "cs = sent @ more" "ret = RcOk \<Longrightarrow> more = []"
    using send_prefix [of cs ?submit "dv_wait d k" 0] s by auto
  obtain rest where rest: "reads False (cmd_lpo cmd) (unat base + off) ?n sent = Some rest" using reads_prefix cs(1) more(1) by blast
  obtain buf' where b: "rest \<le> ?n" "transfers d k base sent buf = Some buf'" "unchanged off (?n - rest) buf buf'"
    "filled d k (k + length sent) off (cmd_lpo cmd) (?n - rest) buf'"
    using transfers_reads [OF rest assms(7)] by blast
  have "cs \<noteq> []" using cs(1) assms(2) by auto
  then have ne: "sent \<noteq> []" using send_not_empty [of cs ?submit "dv_wait d k" 0] s by simp
  show ?thesis
  proof (rule that)
    show "get_log_into False d k base buf cmd xl = Some (ret, buf', k + length sent)"
      by (simp add: get_log_into_def cs(3) s b(2))
    show "k < k + length sent" using ne by simp
    show "unchanged off ?n buf buf'" using b(3) by (auto simp: unchanged_def)
    show "filled d k (k + length sent) off (cmd_lpo cmd) ?n buf'" if "ret = RcOk"
      using b(4) rest cs(1) more that by simp
    show "k + length sent = Suc k" if "?n \<le> unat xl"
    proof -
      have "length cs = 1" unfolding cs(2) using pieces_last [OF assms(2) that] by simp
      then show ?thesis using more(1) ne by (cases sent) auto
    qed
    show "ret = RcOk" if "all_ok d" using that s send_ok [of RcOk 0 cs] by (simp add: all_ok_def)
  qed
qed


lemma get_log_into_empty:
  assumes "data_len cmd = 0" "4 \<le> xl" "unat (addr cmd - base) \<le> length buf"
  obtains ret where "get_log_into False d k base buf cmd xl = Some (ret, buf, Suc k)" "all_ok d \<Longrightarrow> ret = RcOk"
proof -
  let ?submit = "\<lambda>j _ :: passthru_cmd. dv_rc d (k + j)"
  define c where "c = piece cmd (push_bit 32 (ucast (cdw13 cmd)) OR ucast (cdw12 cmd)) 0 (cdw10 cmd AND keep10)
    (cdw11 cmd AND LOG_CDW11_LSI) False 0 0 (addr cmd)"
  define ret where "ret = (if dv_rc d k \<noteq> RcOk then dv_rc d k else dv_wait d k)"
  have "libnvme_get_log False ?submit (dv_wait d k) cmd False xl = Some (ret, [c])"
    unfolding libnvme_get_log_def using assms(1,2) by (subst get_log_loop.simps) (simp add: Let_def c_def ret_def not_less)
  moreover have "addr c = addr cmd" "data_len c = 0" by (simp_all add: c_def piece_def Let_def)
  ultimately have "get_log_into False d k base buf cmd xl = Some (ret, buf, Suc k)"
    using assms(3) by (simp add: get_log_into_def transfer_def Let_def blit_def)
  then show ?thesis by (rule that) (simp add: ret_def all_ok_def)
qed

lemma discovery_cmd_simps:
  "data_len (nvme_init_get_log_discovery lpo a n) = n" "addr (nvme_init_get_log_discovery lpo a n) = a"
  "cmd_lpo (nvme_init_get_log_discovery lpo a n) = unat lpo"
  "data_len (entries_cmd a lsp m) = of_nat m" "addr (entries_cmd a lsp m) = a + 1024" "cmd_lpo (entries_cmd a lsp m) = 1024"
  using lpo_split [of lpo] lpo_split [of 1024]
  by (simp_all add: nvme_init_get_log_discovery_def nvme_init_get_log_def nvme_init_get_log_lpo_def entries_cmd_def Let_def
      cmd_lpo_def DISC_LOG_SIZE_def)

text \<open>Reading the header and the entries.\<close>

definition header_at :: "log_page \<Rightarrow> bytes \<Rightarrow> bool" where
  "header_at page log \<longleftrightarrow> DISC_LOG_SIZE \<le> length log \<and> (\<forall>i < 20. log ! i = page i)"

lemma read_header:
  assumes "DISC_LOG_SIZE \<le> length buf" "unat a + length buf \<le> 2 ^ 64"
  obtains ret buf' where "get_log_into False d k a buf (nvme_init_get_log_discovery 0 a DISCOVERY_HEADER_LEN) DISCOVERY_HEADER_LEN =
      Some (ret, buf', Suc k)" "unchanged 0 20 buf buf'" "ret = RcOk \<Longrightarrow> header_at (dv_page d k) buf'"
    "all_ok d \<Longrightarrow> ret = RcOk"
proof (rule get_log_into_ok [of "nvme_init_get_log_discovery 0 a DISCOVERY_HEADER_LEN" DISCOVERY_HEADER_LEN a 0 buf d k])
  fix ret buf' k'
  assume r: "get_log_into False d k a buf (nvme_init_get_log_discovery 0 a DISCOVERY_HEADER_LEN) DISCOVERY_HEADER_LEN = Some (ret, buf', k')"
    "unchanged 0 (unat (data_len (nvme_init_get_log_discovery 0 a DISCOVERY_HEADER_LEN))) buf buf'"
    "ret = RcOk \<Longrightarrow> filled d k k' 0 (cmd_lpo (nvme_init_get_log_discovery 0 a DISCOVERY_HEADER_LEN))
       (unat (data_len (nvme_init_get_log_discovery 0 a DISCOVERY_HEADER_LEN))) buf'"
    "unat (data_len (nvme_init_get_log_discovery 0 a DISCOVERY_HEADER_LEN)) \<le> unat DISCOVERY_HEADER_LEN \<Longrightarrow> k' = Suc k"
    "all_ok d \<Longrightarrow> ret = RcOk"
  have k: "k' = Suc k" by (rule r(4)) (simp add: discovery_cmd_simps)
  have u: "unchanged 0 20 buf buf'" using r(2) by (simp add: discovery_cmd_simps DISCOVERY_HEADER_LEN_def)
  have "header_at (dv_page d k) buf'" if "ret = RcOk"
    using r(3) [OF that] u assms(1) unfolding header_at_def filled_def unchanged_def k
    by (simp add: discovery_cmd_simps DISCOVERY_HEADER_LEN_def le_antisym less_Suc_eq_le) (metis le_antisym)
  then show ?thesis using that r(1,5) u k by blast
qed (use assms in \<open>simp_all add: discovery_cmd_simps DISCOVERY_HEADER_LEN_def DISC_LOG_SIZE_def\<close>)

lemma read_entries:
  assumes "libnvme_alloc (heap i) (DISC_LOG_SIZE + DISC_LOG_SIZE * n) = Some (a, buf)" "heap_ok heap"
  obtains ret buf' k' where "get_log_into False d k a buf (entries_cmd a lsp (DISC_LOG_SIZE * n)) NVME_LOG_PAGE_PDU_SIZE = Some (ret, buf', k')"
    "k < k'" "length buf' = length buf"
    "ret = RcOk \<Longrightarrow> n < 2 ^ 22 \<Longrightarrow> filled d k k' 1024 1024 (DISC_LOG_SIZE * n) buf'" "all_ok d \<Longrightarrow> ret = RcOk"
proof -
  note l = alloc_ok [OF assms]
  define m where "m = unat (of_nat (DISC_LOG_SIZE * n) :: u32)"
  have m: "m = 1024 * n mod 2 ^ 32" "m \<le> 1024 * n" "n < 2 ^ 22 \<Longrightarrow> m = 1024 * n"
    by (simp_all only: m_def DISC_LOG_SIZE_def unat_of_nat) simp_all
  have len: "1024 + 1024 * n \<le> length buf" using l(1) by (simp add: DISC_LOG_SIZE_def)
  have u: "unat (a + 1024) = unat a + 1024" if "n \<noteq> 0"
    by (rule unat_add_lem [THEN iffD1, of a 1024, simplified]) (use l(2) len that in simp)
  let ?cmd = "entries_cmd a lsp (DISC_LOG_SIZE * n)"
  show ?thesis
  proof (cases "m = 0")
    case True
    then have "data_len ?cmd = 0" using m_def by (simp add: discovery_cmd_simps unat_eq_0)
    moreover have "unat (addr ?cmd - a) \<le> length buf" using len by (simp add: discovery_cmd_simps)
    ultimately obtain ret where "get_log_into False d k a buf ?cmd NVME_LOG_PAGE_PDU_SIZE = Some (ret, buf, Suc k)" and ok: "all_ok d \<Longrightarrow> ret = RcOk"
      using get_log_into_empty [of ?cmd NVME_LOG_PAGE_PDU_SIZE a buf d k] by (auto simp: NVME_LOG_PAGE_PDU_SIZE_def)
    from this(1) show ?thesis by (rule that) (use True m(3) ok in \<open>auto simp: filled_def DISC_LOG_SIZE_def\<close>)
  next
    case False
    then have n: "n \<noteq> 0" using m(2) by auto
    have d: "unat (data_len ?cmd) = m" "addr ?cmd = a + 1024" "cmd_lpo ?cmd = 1024" by (simp_all only: discovery_cmd_simps m_def)
    have "4 dvd m" unfolding m(1) by (rule dvd_mod) simp_all
    then have c: "4 dvd unat (data_len ?cmd)" "0 < unat (data_len ?cmd)" "4 dvd unat NVME_LOG_PAGE_PDU_SIZE" "4 \<le> NVME_LOG_PAGE_PDU_SIZE"
      "cmd_lpo ?cmd + unat (data_len ?cmd) \<le> 2 ^ 64" "unat (addr ?cmd) = unat a + 1024" "1024 + unat (data_len ?cmd) \<le> length buf"
      "unat a + length buf \<le> 2 ^ 64"
      using False m(1,2) len l(2) u [OF n] unfolding d by (simp_all add: NVME_LOG_PAGE_PDU_SIZE_def)
    obtain ret buf' k' where r: "get_log_into False d k a buf ?cmd NVME_LOG_PAGE_PDU_SIZE = Some (ret, buf', k')" "k < k'"
      "unchanged 1024 m buf buf'" "ret = RcOk \<Longrightarrow> filled d k k' 1024 1024 m buf'" "all_ok d \<Longrightarrow> ret = RcOk"
      using get_log_into_ok [OF c, of d k] unfolding d by metis
    show ?thesis by (rule that [OF r(1,2)]) (use r(3-5) m(3) in \<open>auto simp: unchanged_def DISC_LOG_SIZE_def\<close>)
  qed
qed


section \<open>Snapshots\<close>

text \<open>The buffer holds the header and all entries of one state of the page.\<close>

definition snapshot :: "log_page \<Rightarrow> bytes \<Rightarrow> bool" where
  "snapshot page log \<longleftrightarrow> header_at page log \<and> DISC_LOG_SIZE + DISC_LOG_SIZE * unat (numrec log) \<le> length log \<and>
     (\<forall>i < DISC_LOG_SIZE * unat (numrec log). log ! (DISC_LOG_SIZE + i) = page (DISC_LOG_SIZE + i))"

definition page_genctr :: "log_page \<Rightarrow> u64" where
  "page_genctr page = genctr (map page [0..<8])"

text \<open>What the NVMe over Fabrics specification promises of the generation counter: as long as it does not change, the
  page does not.\<close>

definition genctr_stable :: "device \<Rightarrow> bool" where
  "genctr_stable d \<longleftrightarrow>
     (\<forall>i j k. i \<le> j \<longrightarrow> j \<le> k \<longrightarrow> page_genctr (dv_page d i) = page_genctr (dv_page d k) \<longrightarrow> dv_page d j = dv_page d i)"

lemma header_genctr: "header_at page log \<Longrightarrow> genctr log = page_genctr page"
proof -
  assume "header_at page log"
  then have "take 8 log = map page [0..<8]"
    by (intro nth_equalityI) (auto simp: header_at_def DISC_LOG_SIZE_def)
  then show ?thesis by (simp add: genctr_def page_genctr_def)
qed

lemma header_numrec:
  assumes "header_at page log" "header_at page log'"
  shows "numrec log = numrec log'"
proof -
  have "take 8 (drop 8 log) = take 8 (drop 8 log')"
    by (intro nth_equalityI) (use assms in \<open>auto simp: header_at_def DISC_LOG_SIZE_def\<close>)
  then show ?thesis by (simp add: numrec_def)
qed

text \<open>One round of the loop that ends with an unchanged counter.\<close>

lemma round_snapshot:
  assumes "genctr_stable d" "header_at (dv_page d j) log" "j < k" "k < k1" "header_at (dv_page d k1) buf2" "unchanged 0 20 buf1 buf2"
    "filled d k k1 1024 1024 (DISC_LOG_SIZE * unat (numrec log)) buf1" "genctr log = genctr buf2" "numrec log = numrec buf2"
    "DISC_LOG_SIZE + DISC_LOG_SIZE * unat (numrec log) \<le> length buf1"
  shows "snapshot (dv_page d k1) buf2"
proof -
  have "page_genctr (dv_page d j) = page_genctr (dv_page d k1)" using header_genctr assms(2,5,8) by metis
  then have same: "dv_page d i = dv_page d k1" if "j \<le> i" "i \<le> k1" for i
    using assms(1,3,4) that unfolding genctr_stable_def by (metis le_trans less_imp_le order_refl)
  have "buf2 ! (DISC_LOG_SIZE + i) = dv_page d k1 (DISC_LOG_SIZE + i)" if "i < DISC_LOG_SIZE * unat (numrec buf2)" for i
  proof -
    have "i < DISC_LOG_SIZE * unat (numrec log)" using that assms(9) by simp
    then obtain t where "k \<le> t" "t < k1" "buf1 ! (1024 + i) = dv_page d t (1024 + i)"
      using assms(7) [unfolded filled_def, rule_format] by meson
    then show ?thesis using same [of t] assms(3,6,9,10) that by (auto simp: unchanged_def DISC_LOG_SIZE_def)
  qed
  then show ?thesis using assms(5,6,9,10) by (simp add: snapshot_def unchanged_def)
qed

lemma discovery_loop_result:
  assumes "heap_ok heap" "header_at (dv_page d j) log" "j < k"
  shows "\<exists>r. discovery_loop False heap d lsp max_retries retries k log = Some r \<and>
    (\<forall>log'. r = Inr log' \<longrightarrow> genctr_stable d \<longrightarrow> unat (numrec log') < 2 ^ 22 \<longrightarrow> (\<exists>t. snapshot (dv_page d t) log'))"
  using assms(2,3)
proof (induction "nat (max_retries - int retries)" arbitrary: retries k j log rule: less_induct)
  case less
  let ?n = "unat (numrec log)" and ?P = "\<lambda>log'. genctr_stable d \<longrightarrow> unat (numrec log') < 2 ^ 22 \<longrightarrow> (\<exists>t. snapshot (dv_page d t) log')"
  note step = discovery_loop.simps [of False heap d lsp max_retries retries k log]
  consider "?n = 0" | "?n \<noteq> 0" "?n > (SIZE_MAX - DISC_LOG_SIZE) div DISC_LOG_SIZE \<or>
      libnvme_alloc (heap (retries + 1)) (DISC_LOG_SIZE + DISC_LOG_SIZE * ?n) = None"
    | a buf where "?n \<noteq> 0" "\<not> ?n > (SIZE_MAX - DISC_LOG_SIZE) div DISC_LOG_SIZE"
      "libnvme_alloc (heap (retries + 1)) (DISC_LOG_SIZE + DISC_LOG_SIZE * ?n) = Some (a, buf)" by fastforce
  then show ?case
  proof cases
    case 1
    then have "snapshot (dv_page d j) log" using less.prems(1) by (simp add: snapshot_def header_at_def)
    then show ?thesis using 1 by (auto simp: step Let_def discovery_check_def)
  next
    case 2
    then show ?thesis by (auto simp: step Let_def)
  next
    case (3 a buf)
    note l = alloc_ok [OF 3(3) assms(1)]
    obtain ret buf1 k1 where e: "get_log_into False d k a buf (entries_cmd a lsp (DISC_LOG_SIZE * ?n)) NVME_LOG_PAGE_PDU_SIZE = Some (ret, buf1, k1)"
      "k < k1" "length buf1 = length buf" "ret = RcOk \<Longrightarrow> ?n < 2 ^ 22 \<Longrightarrow> filled d k k1 1024 1024 (DISC_LOG_SIZE * ?n) buf1"
      using read_entries [OF 3(3) assms(1)] by metis
    obtain ret' buf2 where h: "get_log_into False d k1 a buf1 (nvme_init_get_log_discovery 0 a DISCOVERY_HEADER_LEN) DISCOVERY_HEADER_LEN =
      Some (ret', buf2, Suc k1)" "unchanged 0 20 buf1 buf2" "ret' = RcOk \<Longrightarrow> header_at (dv_page d k1) buf2"
      using read_header [of buf1 a d k1] l e(3) by (metis add_leD1)
    show ?thesis
    proof (cases "ret = RcOk \<and> ret' = RcOk")
      case False
      then show ?thesis using 3 e(1) h(1) by (auto simp: step Let_def)
    next
      case ok: True
      show ?thesis
      proof (cases "genctr log \<noteq> genctr buf2 \<and> int retries + 1 < max_retries")
        case True
        then have "discovery_loop False heap d lsp max_retries retries k log =
            discovery_loop False heap d lsp max_retries (retries + 1) (Suc k1) buf2"
          using 3 e(1) h(1) ok by (auto simp: step Let_def)
        then show ?thesis using less.hyps [of "retries + 1" k1 buf2 "Suc k1"] True h(3) ok by simp
      next
        case False
        then have r: "discovery_loop False heap d lsp max_retries retries k log = Some (discovery_check (genctr log) (numrec log) buf2)"
          using 3 e(1) h(1) ok by (auto simp: step Let_def)
        have "?P buf2" if "genctr log = genctr buf2" "numrec log = numrec buf2"
          using round_snapshot [OF _ less.prems e(2) h(3) h(2) e(4) that] that ok l(1) e(3) by (metis (no_types, lifting))
        then show ?thesis unfolding r by (auto simp: discovery_check_def)
      qed
    qed
  qed
qed


text \<open>A controller that does not change its page and answers every command.\<close>

lemma discovery_loop_quiet:
  assumes "heap_ok heap" "\<And>i n. n \<le> 2 ^ 33 \<Longrightarrow> heap i n \<noteq> None" "all_ok d" "\<And>k. dv_page d k = page" "header_at page log" "unat (numrec log) < 2 ^ 22"
  shows "\<exists>log'. discovery_loop False heap d lsp max_retries retries k log = Some (Inr log') \<and> snapshot page log'"
proof (cases "unat (numrec log) = 0")
  case True
  then show ?thesis using assms(5)
    by (intro exI [of _ log]) (simp add: discovery_loop.simps [of _ _ _ _ _ _ _ log] discovery_check_def snapshot_def header_at_def)
next
  case n: False
  let ?n = "unat (numrec log)"
  have "\<not> ?n > (SIZE_MAX - DISC_LOG_SIZE) div DISC_LOG_SIZE" using assms(6) by (simp add: SIZE_MAX_def DISC_LOG_SIZE_def)
  moreover obtain a buf where al: "libnvme_alloc (heap (retries + 1)) (DISC_LOG_SIZE + DISC_LOG_SIZE * ?n) = Some (a, buf)"
    using alloc_some [of "DISC_LOG_SIZE + DISC_LOG_SIZE * ?n" "heap (retries + 1)"] assms(2,6) by (auto simp: DISC_LOG_SIZE_def)
  moreover note l = alloc_ok [OF al assms(1)]
  obtain buf1 k1 where e: "get_log_into False d k a buf (entries_cmd a lsp (DISC_LOG_SIZE * ?n)) NVME_LOG_PAGE_PDU_SIZE = Some (RcOk, buf1, k1)"
    "length buf1 = length buf" "filled d k k1 1024 1024 (DISC_LOG_SIZE * ?n) buf1" "k < k1"
    using read_entries [OF al assms(1)] assms(3,6) by metis
  obtain buf2 where h: "get_log_into False d k1 a buf1 (nvme_init_get_log_discovery 0 a DISCOVERY_HEADER_LEN) DISCOVERY_HEADER_LEN =
      Some (RcOk, buf2, Suc k1)" "unchanged 0 20 buf1 buf2" "header_at (dv_page d k1) buf2"
    using read_header [of buf1 a d k1] l e(2) assms(3) by (metis add_leD1)
  have same: "genctr log = genctr buf2" "numrec log = numrec buf2"
    using header_genctr header_numrec assms(4,5) h(3) by metis+
  ultimately have "discovery_loop False heap d lsp max_retries retries k log = Some (Inr buf2)"
    using n e(1) h(1) by (simp add: discovery_loop.simps [of _ _ _ _ _ _ _ log] discovery_check_def Let_def)
  moreover have "snapshot page buf2"
  proof -
    have "buf2 ! (DISC_LOG_SIZE + i) = page (DISC_LOG_SIZE + i)" if "i < DISC_LOG_SIZE * ?n" for i
      using e(3) [unfolded filled_def, rule_format, OF that] h(2) l(1) e(2) that assms(4) by (auto simp: unchanged_def DISC_LOG_SIZE_def)
    then show ?thesis using h(2,3) l(1) e(2) assms(4) same by (simp add: snapshot_def unchanged_def)
  qed
  ultimately show ?thesis by blast
qed


lemma discovery_log_result:
  assumes "heap_ok heap"
  shows "\<exists>r. nvme_discovery_log False heap d hdl max_retries lsp = Some r \<and>
    (\<forall>log'. r = Inr log' \<longrightarrow> genctr_stable d \<longrightarrow> unat (numrec log') < 2 ^ 22 \<longrightarrow> (\<exists>t. snapshot (dv_page d t) log'))"
proof (cases "hdl \<and> libnvme_alloc (heap 0) DISC_LOG_SIZE \<noteq> None")
  case False
  then show ?thesis by (cases "libnvme_alloc (heap 0) DISC_LOG_SIZE") (auto simp: nvme_discovery_log_def)
next
  case True
  then obtain a log where a: "hdl" "libnvme_alloc (heap 0) DISC_LOG_SIZE = Some (a, log)" by fastforce
  obtain ret log1 where h: "get_log_into False d 0 a log (nvme_init_get_log_discovery 0 a DISCOVERY_HEADER_LEN) DISCOVERY_HEADER_LEN =
      Some (ret, log1, Suc 0)" "ret = RcOk \<Longrightarrow> header_at (dv_page d 0) log1"
    using read_header [of log a d 0] alloc_ok [OF a(2) assms] by metis
  show ?thesis
    using a h(1) discovery_loop_result [OF assms h(2), of "Suc 0"] by (cases "ret = RcOk") (auto simp: nvme_discovery_log_def)
qed

text \<open>The entries of a page, cleaned up.\<close>

definition page_numrec :: "log_page \<Rightarrow> nat" where
  "page_numrec page = unat (numrec (map page [0..<16]))"

definition page_entries :: "log_page \<Rightarrow> dlpe list" where
  "page_entries page = map (\<lambda>i. sanitize_discovery_log_entry (disc_log_entry
     (map page [DISC_LOG_SIZE + DISC_LOG_SIZE * i..<DISC_LOG_SIZE + DISC_LOG_SIZE * i + DISC_LOG_SIZE]))) [0..<page_numrec page]"

lemma snapshot_entries:
  assumes "snapshot page log"
  shows "genctr log = page_genctr page" "unat (numrec log) = page_numrec page"
    "map (\<lambda>i. sanitize_discovery_log_entry (disc_log_entry (log_entry log i))) [0..<unat (numrec log)] = page_entries page"
proof -
  note s = assms [unfolded snapshot_def]
  show "genctr log = page_genctr page" using s header_genctr by blast
  have "take 8 (drop 8 log) = take 8 (drop 8 (map page [0..<16]))"
    by (intro nth_equalityI) (use s in \<open>auto simp: header_at_def DISC_LOG_SIZE_def\<close>)
  then show n: "unat (numrec log) = page_numrec page" by (simp add: numrec_def page_numrec_def)
  have "log_entry log i = map page [DISC_LOG_SIZE + DISC_LOG_SIZE * i..<DISC_LOG_SIZE + DISC_LOG_SIZE * i + DISC_LOG_SIZE]"
    if "i < unat (numrec log)" for i
  proof (intro nth_equalityI)
    have e: "DISC_LOG_SIZE * i + DISC_LOG_SIZE \<le> DISC_LOG_SIZE * unat (numrec log)" using that by (simp add: DISC_LOG_SIZE_def)
    then show l: "length (log_entry log i) = length (map page [DISC_LOG_SIZE + DISC_LOG_SIZE * i..<DISC_LOG_SIZE + DISC_LOG_SIZE * i + DISC_LOG_SIZE])"
      using s by (auto simp: log_entry_def min_def)
    fix j assume "j < length (log_entry log i)"
    then have "j < DISC_LOG_SIZE" using l by simp
    then show "log_entry log i ! j = map page [DISC_LOG_SIZE + DISC_LOG_SIZE * i..<DISC_LOG_SIZE + DISC_LOG_SIZE * i + DISC_LOG_SIZE] ! j"
      using s e by (simp add: log_entry_def add.assoc)
  qed
  then show "map (\<lambda>i. sanitize_discovery_log_entry (disc_log_entry (log_entry log i))) [0..<unat (numrec log)] = page_entries page"
    by (simp add: page_entries_def n)
qed

text \<open>With memory, the log of a controller that answers every command and whose page does not change is
  returned as it is, after a single round.\<close>

lemma discovery_log_quiet:
  assumes "heap_ok heap" "\<And>i n. n \<le> 2 ^ 33 \<Longrightarrow> heap i n \<noteq> None" "all_ok d" "\<And>k. dv_page d k = page" "page_numrec page < 2 ^ 22"
  shows "libnvmf_get_discovery_log False heap d True args = Some (Inr (page_genctr page, page_entries page))"
proof -
  obtain a log where a: "libnvme_alloc (heap 0) DISC_LOG_SIZE = Some (a, log)"
    using alloc_some [of DISC_LOG_SIZE "heap 0"] assms(2) by (auto simp: DISC_LOG_SIZE_def)
  obtain log1 where h: "get_log_into False d 0 a log (nvme_init_get_log_discovery 0 a DISCOVERY_HEADER_LEN) DISCOVERY_HEADER_LEN =
      Some (RcOk, log1, Suc 0)" "header_at page log1"
    using read_header [of log a d 0] alloc_ok [OF a assms(1)] assms(3,4) by metis
  have "take 8 (drop 8 log1) = take 8 (drop 8 (map page [0..<16]))"
    by (intro nth_equalityI) (use h(2) in \<open>auto simp: header_at_def DISC_LOG_SIZE_def\<close>)
  then have n: "unat (numrec log1) < 2 ^ 22" using assms(5) by (simp add: numrec_def page_numrec_def)
  have "\<exists>log'. nvme_discovery_log False heap d True m lsp = Some (Inr log') \<and> snapshot page log'" for m lsp
    using discovery_loop_quiet [OF assms(1-4) h(2) n] a h(1) by (simp add: nvme_discovery_log_def)
  then obtain log' where "nvme_discovery_log False heap d True (case args of None \<Rightarrow> 6 | Some (m, _) \<Rightarrow> m)
      (case args of None \<Rightarrow> 0 | Some (_, l) \<Rightarrow> l) = Some (Inr log')" "snapshot page log'" by blast
  then show ?thesis using snapshot_entries by (simp add: libnvmf_get_discovery_log_def)
qed

section \<open>Properties\<close>

text \<open>C4: A discovery log is a snapshot.  With the flag \<open>force_4k\<close> off and blocks of memory that do not wrap, if the
  controller keeps its page as long as the generation counter does not change, and the page has less than 4194304 records, then the records \<open>libnvmf_get_discovery_log\<close>
  returns with the generation counter are all the records of one single state of the page, cleaned up,
  although it was read with many commands while the page was changing.\<close>

theorem discovery_log_snapshot:
  assumes "heap_ok heap" "genctr_stable d" "libnvmf_get_discovery_log False heap d hdl args = Some (Inr (g, es))" "length es < 2 ^ 22"
  shows "\<exists>t. g = page_genctr (dv_page d t) \<and> es = page_entries (dv_page d t)"
proof -
  obtain m lsp log where log: "nvme_discovery_log False heap d hdl m lsp = Some (Inr log)" "g = genctr log"
    "es = map (\<lambda>i. sanitize_discovery_log_entry (disc_log_entry (log_entry log i))) [0..<unat (numrec log)]"
    using assms(3) by (auto simp: libnvmf_get_discovery_log_def split: option.splits sum.splits)
  then obtain t where "snapshot (dv_page d t) log"
    using discovery_log_result [OF assms(1), of d hdl m lsp] assms(2,4) by auto
  then show ?thesis using snapshot_entries log(2,3) by metis
qed

text \<open>C13: With the flag \<open>force_4k\<close> off, which is the default, and blocks of memory that do not wrap: whatever the
  controller answers and however its page changes, the read returns after finitely many tries and no
  transfer leaves its buffer.  With the flag set a transfer may leave the buffer, as
  \<open>discovery_log_force_4k_overrun\<close> below shows.\<close>

theorem discovery_log_safe:
  assumes "heap_ok heap"
  shows "\<exists>r. libnvmf_get_discovery_log False heap d hdl args = Some r"
  using discovery_log_result [OF assms] by (fastforce simp: libnvmf_get_discovery_log_def split: option.splits sum.splits)

section \<open>Witnesses and limits\<close>

definition demo_heap :: "nat \<Rightarrow> nat \<Rightarrow> u64 option" where
  "demo_heap i n = (if n \<le> 2 ^ 33 then Some 0x10000 else None)"

definition demo_page :: log_page where
  "demo_page i = (if i = 0 then 7 else if i = 8 then 1 else if i = 1024 then 3 else if i = 1026 then 2 else 0)"

definition demo_device :: device where
  "demo_device = \<lparr>dv_page = (\<lambda>_. demo_page), dv_rc = (\<lambda>_. RcOk), dv_wait = (\<lambda>_. RcOk)\<rparr>"

lemma demo_heap_ok: "heap_ok demo_heap"
  by (auto simp: heap_ok_def demo_heap_def)

lemma demo_page_fields: "page_numrec demo_page = 1" "page_genctr demo_page = 7"
  by (simp_all add: page_numrec_def page_genctr_def numrec_def genctr_def demo_page_def upt_rec)

theorem discovery_log_snapshot_witness:
  "libnvmf_get_discovery_log False demo_heap demo_device True None = Some (Inr (7, page_entries demo_page)) \<and>
   (\<exists>t. (7 :: u64) = page_genctr (dv_page demo_device t) \<and> page_entries demo_page = page_entries (dv_page demo_device t))"
proof -
  have r: "libnvmf_get_discovery_log False demo_heap demo_device True None = Some (Inr (7, page_entries demo_page))"
    using discovery_log_quiet [OF demo_heap_ok, of demo_device demo_page None] demo_page_fields
    by (simp add: demo_heap_def demo_device_def all_ok_def)
  moreover have "genctr_stable demo_device" by (simp add: genctr_stable_def demo_device_def)
  moreover have "length (page_entries demo_page) < 2 ^ 22" by (simp add: page_entries_def demo_page_fields)
  ultimately show ?thesis using discovery_log_snapshot [OF demo_heap_ok _ r] by simp
qed

theorem discovery_log_safe_witness: "\<exists>r. libnvmf_get_discovery_log False demo_heap demo_device True None = Some r"
  by (rule discovery_log_safe [OF demo_heap_ok])

text \<open>With \<open>force_4k\<close> a read of at most 4096 bytes is one transfer of 4096.  The entries of a page with one record
  are read past the end of their buffer, which \<open>libnvme_alloc\<close> makes 4096 bytes large.\<close>

lemma get_log_into_force:
  assumes "all_ok d" "unat (data_len cmd) \<le> 4096" "4 \<le> xl"
  shows "get_log_into True d k base buf cmd xl =
    (let off = unat (addr cmd - base)
     in if off + 4096 \<le> length buf then Some (RcOk, blit off (map (dv_page d k) [cmd_lpo cmd..<cmd_lpo cmd + 4096]) buf, Suc k) else None)"
proof -
  define c where "c = piece cmd (push_bit 32 (ucast (cdw13 cmd)) OR ucast (cdw12 cmd)) (ucast (data_len cmd)) (cdw10 cmd AND keep10)
    (cdw11 cmd AND LOG_CDW11_LSI) False 0 4096 (addr cmd)"
  have "\<not> (4096 :: u64) < ucast (data_len cmd)" using assms(2) by (simp add: word_less_nat_alt unat_u32_u64)
  moreover have "\<not> xl < 4" using assms(3) by simp
  ultimately have "libnvme_get_log True (\<lambda>j _. dv_rc d (k + j)) (dv_wait d k) cmd False xl = Some (RcOk, [c])"
    unfolding libnvme_get_log_def using assms(1)
    by (subst get_log_loop.simps) (simp del: not_less add: Let_def c_def all_ok_def NVME_LOG_PAGE_PDU_SIZE_def)
  moreover have "unat (data_len c) = 4096" "addr c = addr cmd" "cmd_lpo c = cmd_lpo cmd"
    using piece_fields(2-4) [OF _ _ _ c_def] by (simp_all add: start_lpo)
  ultimately show ?thesis by (simp add: get_log_into_def transfer_def Let_def)
qed

lemma discovery_log_force_4k_overrun: "libnvmf_get_discovery_log True demo_heap demo_device True None = None"
proof -
  have d: "all_ok demo_device" "dv_page demo_device k = demo_page" for k by (simp_all add: demo_device_def all_ok_def)
  have al: "libnvme_alloc (demo_heap i) n = Some (0x10000, replicate 4096 0)" if "n = 1024 \<or> n = 2048" for i n
    using that by (auto simp: libnvme_alloc_def round_up_checked_def demo_heap_def SIZE_MAX_def)
  define log where "log = map demo_page [0..<4096]"
  have h: "get_log_into True demo_device 0 0x10000 (replicate 4096 0) (nvme_init_get_log_discovery 0 0x10000 DISCOVERY_HEADER_LEN)
      DISCOVERY_HEADER_LEN = Some (RcOk, log, Suc 0)"
    by (subst get_log_into_force) (simp_all add: d discovery_cmd_simps DISCOVERY_HEADER_LEN_def Let_def blit_def log_def)
  have e: "get_log_into True demo_device (Suc 0) 0x10000 (replicate 4096 0) (entries_cmd 0x10000 0 1024) NVME_LOG_PAGE_PDU_SIZE = None"
    by (subst get_log_into_force) (simp_all add: d discovery_cmd_simps NVME_LOG_PAGE_PDU_SIZE_def Let_def)
  have "take 8 (drop 8 log) = take 8 (drop 8 (map demo_page [0..<16]))"
    unfolding log_def by (simp add: drop_map take_map)
  then have n: "unat (numrec log) = 1" using demo_page_fields(1) by (simp add: numrec_def page_numrec_def)
  have "discovery_loop True demo_heap demo_device 0 6 0 (Suc 0) log = None"
    unfolding discovery_loop.simps [of _ _ _ _ _ _ _ log] n using al e by (simp add: Let_def SIZE_MAX_def DISC_LOG_SIZE_def)
  then show ?thesis using al h by (simp add: libnvmf_get_discovery_log_def nvme_discovery_log_def DISC_LOG_SIZE_def)
qed

text \<open>The size of the entries is cut to 32 bits: of 4194305 records one is read.\<close>

lemma discovery_log_size_truncated: "unat (data_len (entries_cmd a lsp (DISC_LOG_SIZE * 4194305))) = DISC_LOG_SIZE"
  by (simp add: discovery_cmd_simps DISC_LOG_SIZE_def)

end
