(* ===== verification/Ini.thy ===== *)
theory Ini
  imports Cstrings
begin

text \<open>
  The INI reader, \<open>shared/ini-util.c\<close>.  The callback is an argument of the model: a function of
  the event, its strings, the line number and the caller's state (\<open>user_data\<close>) that returns the
  C return value and the new state.  The reader edits its buffer in place, so a string handed to
  the callback is the text between two NULs it wrote; the model passes that text.
\<close>

section \<open>Lines\<close>

datatype ini_event = INI_SECTION | INI_KV | INI_JUNK

type_synonym 'st ini_callback =
  "ini_event \<Rightarrow> string option \<Rightarrow> string \<Rightarrow> string option \<Rightarrow> u32 \<Rightarrow> 'st \<Rightarrow> int \<times> 'st"

text \<open>\<open>ini_line\<close> on a trimmed line: the callback's result and the current section afterwards.
  \<open>end == shr_trim(s + 1)\<close> compares positions: only white space lies between the brackets.\<close>

definition ini_line ::
  "string \<Rightarrow> string option \<Rightarrow> u32 \<Rightarrow> 'st ini_callback \<Rightarrow> 'st \<Rightarrow> (int \<times> 'st) \<times> string option" where
  "ini_line s sec line callback st =
     (if cget s 0 = NUL \<or> cget s 0 = CHR ''#'' then ((0, st), sec)
      else if cget s 0 = CHR ''['' then
        (let inner = takeWhile (\<lambda>c. c \<noteq> CHR '']'') (tl s);
             rest = dropWhile (\<lambda>c. c \<noteq> CHR '']'') (tl s)
         in if rest = [] then (callback INI_JUNK None s None line st, None)
            else if length (tl s) - length (shr_ltrim (tl s)) = length inner \<or> shr_trim (tl rest) \<noteq> []
            then (callback INI_JUNK None s None line st, None)
            else (callback INI_SECTION (Some (shr_trim inner)) (shr_trim inner) None line st,
                  Some (shr_trim inner)))
      else
        (let key = takeWhile (\<lambda>c. c \<noteq> CHR ''='') s; rest = dropWhile (\<lambda>c. c \<noteq> CHR ''='') s
         in if rest = [] \<or> key = [] then (callback INI_JUNK sec s None line st, sec)
            else (callback INI_KV sec (shr_trim key) (Some (shr_trim (tl rest))) line st, sec)))"

function parse_lines_loop ::
  "string \<Rightarrow> string option \<Rightarrow> u32 \<Rightarrow> 'st ini_callback \<Rightarrow> 'st \<Rightarrow> int \<times> 'st" where
  "parse_lines_loop p sec line callback st =
     (let l = takeWhile (\<lambda>c. c \<noteq> LF) p; nl = dropWhile (\<lambda>c. c \<noteq> LF) p
      in (case ini_line (shr_trim l) sec (line + 1) callback st of ((ret, st'), sec') \<Rightarrow>
            if nl = [] \<or> ret \<noteq> 0 then (ret, st')
            else parse_lines_loop (tl nl) sec' (line + 1) callback st'))"
  by pat_completeness auto
termination
proof (relation "measure (\<lambda>(p, _). length p)", goal_cases)
  case (2 p sec line callback st l nl a sec' ret st')
  then have "nl \<noteq> []" "length nl \<le> length p" using length_dropWhile_le by auto
  then show ?case by (cases nl) auto
qed simp

declare parse_lines_loop.simps [simp del]

definition parse_lines :: "string \<Rightarrow> 'st ini_callback \<Rightarrow> 'st \<Rightarrow> int \<times> 'st" where
  "parse_lines buf callback st = parse_lines_loop buf None 0 callback st"

text \<open>Negative errno values as the C functions return them.\<close>

definition neg_errno :: "errno \<Rightarrow> int" where
  "neg_errno e = (case e of ENOENT \<Rightarrow> - 2 | EIO \<Rightarrow> - 5 | E2BIG \<Rightarrow> - 7 | ENOMEM \<Rightarrow> - 12 | EEXIST \<Rightarrow> - 17
     | EISDIR \<Rightarrow> - 21 | EINVAL \<Rightarrow> - 22 | EFBIG \<Rightarrow> - 27 | ERANGE \<Rightarrow> - 34 | ENAMETOOLONG \<Rightarrow> - 36
     | EPROTO \<Rightarrow> - 71 | ENOTUNIQ \<Rightarrow> - 76 | EMSGSIZE \<Rightarrow> - 90 | EOPNOTSUPP \<Rightarrow> - 95 | ETIMEDOUT \<Rightarrow> - 110
     | EHOSTUNREACH \<Rightarrow> - 113 | EREMOTEIO \<Rightarrow> - 121 | EMEDIUMTYPE \<Rightarrow> - 124 | ENOKEY \<Rightarrow> - 126
     | EBADMSG \<Rightarrow> - 74 | EOVERFLOW \<Rightarrow> - 75 | ESTALE \<Rightarrow> - 116 | Errno n \<Rightarrow> - int n)"

definition shr_ini_parse_inplace ::
  "string option \<Rightarrow> 'st ini_callback option \<Rightarrow> 'st \<Rightarrow> int \<times> 'st" where
  "shr_ini_parse_inplace txt callback st = (case (txt, callback) of
      (Some t, Some cb) \<Rightarrow> parse_lines t cb st
    | _ \<Rightarrow> (neg_errno EINVAL, st))"

definition shr_ini_parse_buf ::
  "bool \<Rightarrow> string option \<Rightarrow> 'st ini_callback option \<Rightarrow> 'st \<Rightarrow> int \<times> 'st" where
  "shr_ini_parse_buf mem txt callback st =
     (if txt = None \<or> callback = None then (neg_errno EINVAL, st)
      else if \<not> mem then (neg_errno ENOMEM, st)
      else shr_ini_parse_inplace txt callback st)"

section \<open>Files\<close>

text \<open>What the operating system reports about a path, one field per call of
  \<open>shr_ini_read_file\<close>: the mode from \<open>stat\<close> before and after \<open>fopen\<close>, the errno of \<open>fopen\<close>, the
  result of \<open>fstat\<close>, whether \<open>malloc\<close> succeeds, and the bytes \<open>fread\<close> delivers (it is asked for
  the size \<open>fstat\<close> reported), or an error.\<close>

datatype file_mode = Regular | Directory | OtherMode

record file_io =
  stat1 :: "file_mode option"
  fopen_err :: "errno option"
  stat2 :: "file_mode option"
  fstat_res :: "errno + (file_mode \<times> nat)"
  alloc_ok :: bool
  fread_res :: "char list option"

definition INI_FILE_MAX :: nat where "INI_FILE_MAX = 1 * 1024 * 1024"

definition shr_ini_read_file :: "file_io option \<Rightarrow> string res" where
  "shr_ini_read_file path = (case path of None \<Rightarrow> Inl EINVAL | Some io \<Rightarrow>
     if stat1 io = Some Directory then Inl EISDIR
     else (case fopen_err io of
        Some e \<Rightarrow> (if stat2 io = Some Directory then Inl EISDIR else Inl e)
      | None \<Rightarrow> (case fstat_res io of
          Inl e \<Rightarrow> Inl e
        | Inr (mode, st_size) \<Rightarrow>
            if mode \<noteq> Regular then Inl (if mode = Directory then EISDIR else EINVAL)
            else if st_size > INI_FILE_MAX then Inl EFBIG
            else if \<not> alloc_ok io then Inl ENOMEM
            else (case fread_res io of
                    None \<Rightarrow> Inl EIO
                  | Some content \<Rightarrow>
                      (let txt = take st_size content
                       in if NUL \<in> set txt then Inl EINVAL else Inr txt)))))"

definition shr_ini_parse_file ::
  "file_io option \<Rightarrow> 'st ini_callback option \<Rightarrow> 'st \<Rightarrow> int \<times> 'st" where
  "shr_ini_parse_file path callback st = (case callback of
      None \<Rightarrow> (neg_errno EINVAL, st)
    | Some cb \<Rightarrow> (case shr_ini_read_file path of
        Inl e \<Rightarrow> (neg_errno e, st)
      | Inr txt \<Rightarrow> parse_lines txt cb st))"

section \<open>What a callback is handed\<close>

definition section_ok :: "string \<Rightarrow> bool" where
  "section_ok n \<longleftrightarrow> n \<noteq> [] \<and> trimmed n \<and> CHR '']'' \<notin> set n \<and> LF \<notin> set n"

definition ini_call_ok :: "ini_event \<Rightarrow> string option \<Rightarrow> string \<Rightarrow> string option \<Rightarrow> bool" where
  "ini_call_ok ev sec key val \<longleftrightarrow>
     (case sec of None \<Rightarrow> True | Some n \<Rightarrow> section_ok n) \<and>
     key \<noteq> [] \<and> trimmed key \<and> LF \<notin> set key \<and>
     (case ev of
        INI_SECTION \<Rightarrow> sec = Some key \<and> val = None
      | INI_KV \<Rightarrow> CHR ''='' \<notin> set key \<and> CHR ''['' \<noteq> hd key \<and> CHR ''#'' \<noteq> hd key \<and>
          (\<exists>v. val = Some v \<and> trimmed v \<and> LF \<notin> set v)
      | INI_JUNK \<Rightarrow> val = None)"

text \<open>A client whose callback keeps an invariant on every call the reader can make.\<close>

locale ini_client =
  fixes callback :: "'st ini_callback"
    and inv :: "'st \<Rightarrow> bool"
  assumes keeps: "inv st \<Longrightarrow> ini_call_ok ev sec key val \<Longrightarrow> inv (snd (callback ev sec key val line st))"

lemma ltrim_drops_all:
  assumes "length (w @ r) - length (shr_ltrim (w @ r)) \<noteq> length w" "r \<noteq> []" "\<not> isspace (hd r)"
  shows "\<not> list_all isspace w"
proof
  assume "list_all isspace w"
  then have "shr_ltrim (w @ r) = r" using assms(2,3) by (cases r) (auto simp: shr_ltrim_eq dropWhile_all)
  then show False using assms(1) by simp
qed

lemma shr_trim_eq_Nil: "shr_trim s = [] \<longleftrightarrow> list_all isspace s"
proof
  assume "shr_trim s = []"
  then show "list_all isspace s" using shr_trim_sub [of s] by (auto simp: list_all_iff)
qed simp

lemma shr_trim_hd: "s \<noteq> [] \<Longrightarrow> \<not> isspace (hd s) \<Longrightarrow> shr_trim s \<noteq> [] \<and> hd (shr_trim s) = hd s"
proof -
  assume s: "s \<noteq> []" "\<not> isspace (hd s)"
  obtain a b where ab: "s = a @ shr_trim s @ b" "list_all isspace a" using shr_trim_sub [of s] by blast
  have "a = []"
  proof (rule ccontr)
    assume "a \<noteq> []"
    then have "hd s = hd a" using ab(1) by (metis hd_append2)
    then show False using s(2) ab(2) \<open>a \<noteq> []\<close> by (cases a) auto
  qed
  moreover have "shr_trim s \<noteq> []" using s by (cases s) (auto simp: shr_trim_eq_Nil)
  ultimately show ?thesis using ab(1) by (metis append_Nil hd_append2)
qed

lemma takeWhile_not_in: "c \<notin> set (takeWhile (\<lambda>x. x \<noteq> c) s)"
  by (auto dest: set_takeWhileD)

text \<open>Every line either reports nothing or makes one admissible call; the section it leaves is
  admissible too.\<close>

lemma ini_line_call:
  assumes "trimmed s" "LF \<notin> set s" "sec = None \<or> (\<exists>n. sec = Some n \<and> section_ok n)"
  shows "(ini_line s sec line callback st = ((0, st), sec) \<or>
     (\<exists>ev sc key val sec'. ini_call_ok ev sc key val \<and>
        ini_line s sec line callback st = (callback ev sc key val line st, sec') \<and>
        (sec' = None \<or> (\<exists>n. sec' = Some n \<and> section_ok n))))"
proof (cases s)
  case Nil
  then show ?thesis by (simp add: ini_line_def)
next
  case (Cons c t)
  have c: "\<not> isspace c" using assms(1) Cons by (simp add: trimmed_def)
  consider "c = NUL \<or> c = CHR ''#''" | "c = CHR ''[''" | "c \<noteq> NUL" "c \<noteq> CHR ''#''" "c \<noteq> CHR ''[''" by blast
  then show ?thesis
  proof cases
    case 1
    then show ?thesis using Cons by (auto simp: ini_line_def)
  next
    case 2
    let ?i = "takeWhile (\<lambda>c. c \<noteq> CHR '']'') t" and ?r = "dropWhile (\<lambda>c. c \<noteq> CHR '']'') t"
    have junk: "ini_call_ok INI_JUNK None s None" using assms Cons by (simp add: ini_call_ok_def)
    show ?thesis
    proof (cases "?r = [] \<or> length t - length (shr_ltrim t) = length ?i \<or> shr_trim (tl ?r) \<noteq> []")
      case True
      then have "ini_line s sec line callback st = (callback INI_JUNK None s None line st, None)"
        using 2 Cons by (auto simp: ini_line_def Let_def simp del: dropWhile_eq_Nil_conv)
      then show ?thesis using junk by blast
    next
      case False
      have "hd ?r = CHR '']''" using False hd_dropWhile [of "\<lambda>c. c \<noteq> CHR '']''" t] by simp
      then have "\<not> isspace (hd ?r)" by (simp add: isspace_def)
      then have "\<not> list_all isspace ?i" using False ltrim_drops_all [of ?i ?r] by simp
      then have ok: "section_ok (shr_trim ?i)"
        using assms(2) Cons set_shr_trim [of ?i] takeWhile_not_in [of "CHR '']''" t]
        by (auto simp: section_ok_def shr_trim_eq_Nil shr_trim_trimmed dest: set_takeWhileD)
      have "ini_line s sec line callback st =
          (callback INI_SECTION (Some (shr_trim ?i)) (shr_trim ?i) None line st, Some (shr_trim ?i))"
        using False 2 Cons by (auto simp: ini_line_def Let_def simp del: dropWhile_eq_Nil_conv)
      moreover have "ini_call_ok INI_SECTION (Some (shr_trim ?i)) (shr_trim ?i) None"
        using ok by (simp add: ini_call_ok_def section_ok_def)
      ultimately show ?thesis using ok by blast
    qed
  next
    case 3
    let ?k = "takeWhile (\<lambda>c. c \<noteq> CHR ''='') s" and ?r = "dropWhile (\<lambda>c. c \<noteq> CHR ''='') s"
    have sec: "case sec of None \<Rightarrow> True | Some n \<Rightarrow> section_ok n" using assms(3) by auto
    show ?thesis
    proof (cases "?r = [] \<or> ?k = []")
      case True
      then have "ini_line s sec line callback st = (callback INI_JUNK sec s None line st, sec)"
        using 3 Cons by (auto simp: ini_line_def Let_def simp del: dropWhile_eq_Nil_conv takeWhile_eq_Nil_iff)
      moreover have "ini_call_ok INI_JUNK sec s None"
        using assms Cons sec by (simp add: ini_call_ok_def)
      ultimately show ?thesis using assms(3) by blast
    next
      case False
      then have hd: "hd ?k = c" using Cons by (auto split: if_splits)
      have k: "shr_trim ?k \<noteq> []" "hd (shr_trim ?k) = c"
        using shr_trim_hd [of ?k] False hd c by auto
      have LF: "LF \<notin> set ?k" "LF \<notin> set (tl ?r)"
        using assms(2) set_takeWhileD [of _ _ s] set_dropWhileD [of _ _ s] list.set_sel(2) [of ?r]
        by (metis, metis False)
      have ini: "ini_line s sec line callback st =
          (callback INI_KV sec (shr_trim ?k) (Some (shr_trim (tl ?r))) line st, sec)"
        using False 3 Cons
        by (auto simp: ini_line_def Let_def simp del: dropWhile_eq_Nil_conv takeWhile_eq_Nil_iff)
      have "ini_call_ok INI_KV sec (shr_trim ?k) (Some (shr_trim (tl ?r)))"
        using k 3 LF sec set_shr_trim [of ?k] set_shr_trim [of "tl ?r"] takeWhile_not_in [of "CHR ''=''" s]
        by (auto simp: ini_call_ok_def shr_trim_trimmed)
      then show ?thesis using ini assms(3) by blast
    qed
  qed
qed

lemma parse_lines_loop_line:
  assumes "LF \<notin> set l"
  shows "parse_lines_loop (l @ LF # rest) sec line cb st =
    (case ini_line (shr_trim l) sec (line + 1) cb st of ((ret, st'), sec') \<Rightarrow>
       if ret \<noteq> 0 then (ret, st') else parse_lines_loop rest sec' (line + 1) cb st')"
proof -
  have "takeWhile (\<lambda>c. c \<noteq> LF) (l @ LF # rest) = l" "dropWhile (\<lambda>c. c \<noteq> LF) (l @ LF # rest) = LF # rest"
    using assms by (auto simp: takeWhile_append dropWhile_append)
  then show ?thesis by (subst parse_lines_loop.simps) (simp add: Let_def split: prod.splits)
qed

context ini_client
begin

lemma line_keeps:
  assumes "inv st" "LF \<notin> set l" "sec = None \<or> (\<exists>n. sec = Some n \<and> section_ok n)"
    and "ini_line (shr_trim l) sec line callback st = ((ret, st'), sec')"
  shows "inv st' \<and> (sec' = None \<or> (\<exists>n. sec' = Some n \<and> section_ok n))"
proof -
  have "LF \<notin> set (shr_trim l)" using assms(2) set_shr_trim by blast
  from ini_line_call [OF shr_trim_trimmed this assms(3), of line callback st] show ?thesis
    using assms(1,3,4) keeps by (metis fst_conv snd_conv)
qed

lemma loop_keeps:
  "inv st \<Longrightarrow> sec = None \<or> (\<exists>n. sec = Some n \<and> section_ok n) \<Longrightarrow>
   inv (snd (parse_lines_loop p sec line callback st))"
proof (induction p arbitrary: sec line st rule: measure_induct_rule [where f = length])
  case (less p)
  let ?l = "takeWhile (\<lambda>c. c \<noteq> LF) p" and ?nl = "dropWhile (\<lambda>c. c \<noteq> LF) p"
  obtain ret st' sec' where i: "ini_line (shr_trim ?l) sec (line + 1) callback st = ((ret, st'), sec')"
    by (metis prod.exhaust)
  note k = line_keeps [OF less.prems(1) takeWhile_not_in less.prems(2) i]
  show ?case
  proof (cases "?nl = [] \<or> ret \<noteq> 0")
    case True
    then show ?thesis using k i by (subst parse_lines_loop.simps) (auto simp: Let_def)
  next
    case False
    then have "length (tl ?nl) < length p"
      using length_dropWhile_le [of "\<lambda>c. c \<noteq> LF" p] by (cases ?nl) auto
    from less.IH [OF this] k have "inv (snd (parse_lines_loop (tl ?nl) sec' (line + 1) callback st'))"
      by blast
    then show ?thesis using False i by (subst parse_lines_loop.simps) (auto simp: Let_def)
  qed
qed

lemma parse_keeps: "inv st \<Longrightarrow> inv (snd (parse_lines buf callback st))"
  unfolding parse_lines_def by (rule loop_keeps) simp_all

lemma parse_file_keeps: "inv st \<Longrightarrow> inv (snd (shr_ini_parse_file path (Some callback) st))"
  by (auto simp: shr_ini_parse_file_def parse_keeps split: sum.splits)

lemma parse_buf_keeps: "inv st \<Longrightarrow> inv (snd (shr_ini_parse_buf mem buf (Some callback) st))"
  by (auto simp: shr_ini_parse_buf_def shr_ini_parse_inplace_def parse_keeps split: option.splits)

end

text \<open>A client that never stops the reader: parsing reports success.\<close>

locale ini_total_client = ini_client +
  assumes accepts: "inv st \<Longrightarrow> ini_call_ok ev sec key val \<Longrightarrow> fst (callback ev sec key val line st) = 0"

lemma parse_lines_loop_step:
  "parse_lines_loop p sec line cb st =
    (case ini_line (shr_trim (takeWhile (\<lambda>c. c \<noteq> LF) p)) sec (line + 1) cb st of ((ret, st'), sec') \<Rightarrow>
       if dropWhile (\<lambda>c. c \<noteq> LF) p = [] \<or> ret \<noteq> 0 then (ret, st')
       else parse_lines_loop (tl (dropWhile (\<lambda>c. c \<noteq> LF) p)) sec' (line + 1) cb st')"
  by (subst parse_lines_loop.simps) (simp add: Let_def)

context ini_total_client
begin

lemma loop_accepts:
  "inv st \<Longrightarrow> sec = None \<or> (\<exists>n. sec = Some n \<and> section_ok n) \<Longrightarrow>
   fst (parse_lines_loop p sec line callback st) = 0"
proof (induction p arbitrary: sec line st rule: measure_induct_rule [where f = length])
  case (less p)
  let ?l = "takeWhile (\<lambda>c. c \<noteq> LF) p" and ?nl = "dropWhile (\<lambda>c. c \<noteq> LF) p"
  obtain ret st' sec' where i: "ini_line (shr_trim ?l) sec (line + 1) callback st = ((ret, st'), sec')"
    by (metis prod.exhaust)
  note k = line_keeps [OF less.prems(1) takeWhile_not_in less.prems(2) i]
  have lf: "LF \<notin> set (shr_trim ?l)"
    using subsetD [OF set_shr_trim [of ?l], of LF] takeWhile_not_in [of LF p] by argo
  consider "((ret, st'), sec') = ((0, st), sec)"
    | ev sc key val where "ini_call_ok ev sc key val" "(ret, st') = callback ev sc key val (line + 1) st"
    using ini_line_call [OF shr_trim_trimmed lf less.prems(2), of "line + 1" callback st] i by auto
  then have ret: "ret = 0"
  proof cases
    case 2
    then show ?thesis using accepts [OF less.prems(1) 2(1), of "line + 1"] 2(2) by (metis fst_conv)
  qed simp
  show ?case
  proof (cases "?nl = []")
    case False
    then have "length (tl ?nl) < length p"
      using length_dropWhile_le [of "\<lambda>c. c \<noteq> LF" p] by (cases ?nl) auto
    from less.IH [OF this] k show ?thesis using False i ret
      by (subst parse_lines_loop_step) (simp del: dropWhile_eq_Nil_conv)
  qed (use i ret in \<open>subst parse_lines_loop_step, simp del: dropWhile_eq_Nil_conv\<close>)
qed

lemma parse_file_result:
  "inv st \<Longrightarrow> fst (shr_ini_parse_file path (Some callback) st) =
     (case shr_ini_read_file path of Inl e \<Rightarrow> neg_errno e | Inr t \<Rightarrow> 0)"
  by (auto simp: shr_ini_parse_file_def parse_lines_def loop_accepts split: sum.splits)

end

section \<open>Written configurations read back\<close>

type_synonym ini_cfg = "(string \<times> (string \<times> string) list) list"

definition kv_ok :: "string \<times> string \<Rightarrow> bool" where
  "kv_ok kv \<longleftrightarrow> fst kv \<noteq> [] \<and> trimmed (fst kv) \<and> trimmed (snd kv) \<and> cstring (fst kv) \<and>
     set (fst kv) \<inter> {CHR ''='', LF} = {} \<and> hd (fst kv) \<notin> {CHR ''['', CHR ''#''} \<and> LF \<notin> set (snd kv)"

definition ini_cfg_ok :: "ini_cfg \<Rightarrow> bool" where
  "ini_cfg_ok cfg \<longleftrightarrow> list_all (\<lambda>(n, kvs). section_ok n \<and> list_all kv_ok kvs) cfg"

definition kv_text :: "string \<times> string \<Rightarrow> string" where
  "kv_text kv = fst kv @ '' = '' @ snd kv @ [LF]"

definition ini_text :: "ini_cfg \<Rightarrow> string" where
  "ini_text cfg = concat (map (\<lambda>(n, kvs). ''['' @ n @ '']'' @ [LF] @ concat (map kv_text kvs)) cfg)"

type_synonym ini_call = "ini_event \<times> string option \<times> string \<times> string option"

definition ini_calls :: "ini_cfg \<Rightarrow> ini_call list" where
  "ini_calls cfg = concat (map (\<lambda>(n, kvs). (INI_SECTION, Some n, n, None) #
     map (\<lambda>(k, v). (INI_KV, Some n, k, Some v)) kvs) cfg)"

text \<open>The calls in order, one line each, until a callback returns non-zero.\<close>

fun run_calls :: "'st ini_callback \<Rightarrow> u32 \<Rightarrow> ini_call list \<Rightarrow> 'st \<Rightarrow> int \<times> 'st" where
  "run_calls cb line [] st = (0, st)"
| "run_calls cb line ((ev, sec, key, val) # cs) st =
     (case cb ev sec key val (line + 1) st of (r, st') \<Rightarrow>
        if r \<noteq> 0 then (r, st') else run_calls cb (line + 1) cs st')"

lemma ini_line_section:
  assumes "section_ok n"
  shows "ini_line (shr_trim (''['' @ n @ '']'')) sec line cb st =
    (cb INI_SECTION (Some n) n None line st, Some n)"
proof -
  have t: "trimmed (''['' @ n @ '']'')" by (simp add: trimmed_def isspace_def)
  have n: "n \<noteq> []" "trimmed n" "CHR '']'' \<notin> set n" using assms by (auto simp: section_ok_def)
  have tw: "takeWhile (\<lambda>c. c \<noteq> CHR '']'') (n @ '']'') = n" "dropWhile (\<lambda>c. c \<noteq> CHR '']'') (n @ '']'') = '']''"
    using n by (auto simp: takeWhile_append dropWhile_append)
  have "shr_ltrim (n @ '']'') = n @ '']''" using n by (intro shr_ltrim_id) (auto simp: trimmed_def)
  then show ?thesis unfolding shr_trim_id [OF t] using n tw
    by (simp add: ini_line_def Let_def del: dropWhile_eq_Nil_conv)
qed

lemma ini_line_kv:
  assumes "kv_ok (k, v)"
  shows "ini_line (shr_trim (k @ '' = '' @ v)) sec line cb st = (cb INI_KV sec k (Some v) line st, sec)"
proof -
  have k: "k \<noteq> []" "trimmed k" "trimmed v" "CHR ''='' \<notin> set k" "NUL \<notin> set k" "hd k \<noteq> CHR ''[''" "hd k \<noteq> CHR ''#''"
    using assms by (auto simp: kv_ok_def cstring_def)
  define s where "s = shr_trim (k @ '' = '' @ v)"
  have s: "s = k @ '' ='' @ (if v = [] then [] else SPC # v)"
  proof (cases "v = []")
    case True
    have "trimmed (k @ '' ='')" using k by (simp add: trimmed_def isspace_def)
    then show ?thesis using shr_trim_pad [of "k @ '' =''" "[]" "[SPC]"] True k
      by (simp add: s_def isspace_def)
  next
    case False
    then have "trimmed (k @ '' = '' @ v)" using k by (auto simp: trimmed_def)
    then show ?thesis using False by (simp add: s_def)
  qed
  have tw: "takeWhile (\<lambda>c. c \<noteq> CHR ''='') s = k @ [SPC]"
    "dropWhile (\<lambda>c. c \<noteq> CHR ''='') s = CHR ''='' # (if v = [] then [] else SPC # v)"
    using k unfolding s by (auto simp: takeWhile_append dropWhile_append)
  have trims: "shr_trim (k @ [SPC]) = k" "shr_trim (if v = [] then [] else SPC # v) = v"
    using shr_trim_pad [of k "[]" "[SPC]"] shr_trim_pad [of v "[SPC]" "[]"] k by (auto simp: isspace_def)
  have hd: "cget s 0 = hd k" "hd k \<noteq> NUL" using k unfolding s by (cases k; auto)+
  show ?thesis unfolding s_def [symmetric] ini_line_def Let_def tw hd trims list.sel
    using hd(2) k by simp
qed

lemma parse_kvs:
  assumes "list_all kv_ok kvs"
  shows "parse_lines_loop (concat (map kv_text kvs) @ rest) (Some n) line cb st =
    (case run_calls cb line (map (\<lambda>(k, v). (INI_KV, Some n, k, Some v)) kvs) st of (r, st') \<Rightarrow>
       if r \<noteq> 0 then (r, st') else parse_lines_loop rest (Some n) (line + of_nat (length kvs)) cb st')"
  using assms
proof (induction kvs arbitrary: line st)
  case (Cons kv kvs)
  obtain k v where kv: "kv = (k, v)" by force
  have lf: "LF \<notin> set (k @ '' = '' @ v)" using Cons.prems kv by (auto simp: kv_ok_def)
  have "parse_lines_loop (concat (map kv_text (kv # kvs)) @ rest) (Some n) line cb st =
    (case cb INI_KV (Some n) k (Some v) (line + 1) st of (ret, st') \<Rightarrow> if ret \<noteq> 0 then (ret, st')
      else parse_lines_loop (concat (map kv_text kvs) @ rest) (Some n) (line + 1) cb st')"
    using parse_lines_loop_line [OF lf, of "concat (map kv_text kvs) @ rest" "Some n" line cb st]
      ini_line_kv [of k v "Some n" "line + 1" cb st] Cons.prems kv
    by (simp add: kv_text_def split: prod.splits)
  then show ?case using Cons kv by (auto simp: add.assoc split: prod.splits)
qed simp

lemma run_calls_append:
  "run_calls cb line (xs @ ys) st = (case run_calls cb line xs st of (r, st') \<Rightarrow>
     if r \<noteq> 0 then (r, st') else run_calls cb (line + of_nat (length xs)) ys st')"
proof (induction xs arbitrary: line st)
  case (Cons c xs)
  obtain ev sec key val where "c = (ev, sec, key, val)" by (metis prod_cases4)
  then show ?case using Cons by (auto simp: add.assoc split: prod.splits)
qed simp

lemma parse_written:
  assumes "ini_cfg_ok cfg"
  shows "parse_lines_loop (ini_text cfg) sec line cb st = run_calls cb line (ini_calls cfg) st"
  using assms
proof (induction cfg arbitrary: sec line st)
  case Nil
  show ?case by (simp add: ini_text_def ini_calls_def parse_lines_loop.simps ini_line_def)
next
  case (Cons x cfg)
  obtain n kvs where x: "x = (n, kvs)" by force
  have ok: "section_ok n" "list_all kv_ok kvs" "ini_cfg_ok cfg"
    using Cons.prems x by (auto simp: ini_cfg_ok_def)
  have lf: "LF \<notin> set (''['' @ n @ '']'')" using ok(1) by (auto simp: section_ok_def)
  have "parse_lines_loop (ini_text (x # cfg)) sec line cb st =
    (case cb INI_SECTION (Some n) n None (line + 1) st of (ret, st') \<Rightarrow> if ret \<noteq> 0 then (ret, st')
      else parse_lines_loop (concat (map kv_text kvs) @ ini_text cfg) (Some n) (line + 1) cb st')"
    using parse_lines_loop_line [OF lf, of "concat (map kv_text kvs) @ ini_text cfg" sec line cb st]
      ini_line_section [OF ok(1), of sec "line + 1" cb st] x
    by (simp add: ini_text_def split: prod.splits)
  also have "\<dots> = run_calls cb line (ini_calls (x # cfg)) st"
    unfolding parse_kvs [OF ok(2)] Cons.IH [OF ok(3)]
    by (auto simp: x ini_calls_def run_calls_append add.assoc split: prod.splits)
  finally show ?case .
qed

text \<open>C30: A configuration written as section headers and "key = value" lines (names, keys and
  values trimmed, free of the characters that delimit them) reads back exactly: whatever the
  callback, the reader makes the calls for its sections, keys and values in order, numbering the
  lines, and stops with the first non-zero result.\<close>

theorem ini_written_reads_back:
  assumes "ini_cfg_ok cfg"
  shows "shr_ini_parse_buf True (Some (ini_text cfg)) (Some cb) st = run_calls cb 0 (ini_calls cfg) st"
  using parse_written [OF assms]
  by (simp add: shr_ini_parse_buf_def shr_ini_parse_inplace_def parse_lines_def)

theorem ini_written_reads_back_witness:
  "shr_ini_parse_buf True (Some (ini_text [(''a'', [(''k'', ''v w''), (''e'', [])])]))
     (Some (\<lambda>ev sec key val line st. (0, st @ [(sec, key, val, line)]))) [] =
   (0, [(Some ''a'', ''a'', None, 1), (Some ''a'', ''k'', Some ''v w'', 2), (Some ''a'', ''e'', Some [], 3)])"
proof -
  have ok: "ini_cfg_ok [(''a'', [(''k'', ''v w''), (''e'', [])])]"
    by (simp add: ini_cfg_ok_def section_ok_def kv_ok_def trimmed_def cstring_def isspace_def)
  show ?thesis
    using ini_written_reads_back [OF ok, of "\<lambda>ev sec key val line st. (0, st @ [(sec, key, val, line)])" "[]"]
    by (simp add: ini_calls_def)
qed

text \<open>A file is parsed only if it is a regular file of at most 1 MiB without NUL bytes, and
  then the text is what was read; every other case is one of the documented errors and leaves
  the caller's state alone.\<close>

theorem ini_file_checked:
  "(case shr_ini_read_file (Some io) of
      Inr t \<Rightarrow> (\<exists>n content. fstat_res io = Inr (Regular, n) \<and> n \<le> 1048576 \<and> fopen_err io = None \<and>
          fread_res io = Some content \<and> t = take n content \<and> cstring t) \<and>
        shr_ini_parse_file (Some io) (Some cb) st = parse_lines t cb st
    | Inl e \<Rightarrow> shr_ini_parse_file (Some io) (Some cb) st = (neg_errno e, st) \<and>
        (e = EISDIR \<or> e = EINVAL \<or> e = EFBIG \<or> e = ENOMEM \<or> e = EIO \<or> fopen_err io = Some e \<or> fstat_res io = Inl e))"
proof (cases "shr_ini_read_file (Some io)")
  case (Inl e)
  then have "e = EISDIR \<or> e = EINVAL \<or> e = EFBIG \<or> e = ENOMEM \<or> e = EIO \<or> fopen_err io = Some e \<or> fstat_res io = Inl e"
    unfolding shr_ini_read_file_def Let_def
    by (auto split: if_splits option.splits sum.splits)
  then show ?thesis using Inl by (simp add: shr_ini_parse_file_def)
next
  case (Inr t)
  have "\<exists>n content. fstat_res io = Inr (Regular, n) \<and> n \<le> 1048576 \<and> fopen_err io = None \<and>
      fread_res io = Some content \<and> t = take n content \<and> cstring t"
    using Inr unfolding shr_ini_read_file_def Let_def
    by (auto simp: INI_FILE_MAX_def cstring_def split: if_splits option.splits sum.splits)
  then show ?thesis using Inr by (simp add: shr_ini_parse_file_def)
qed

end
