(* ===== verification/Timespan.thy ===== *)
theory Timespan
  imports Numbers
begin

text \<open>
  Time spans, \<open>shared/time-util.c\<close>: \<open>shr_parse_time\<close> reads a sum of numbers with units into
  microseconds.  The model keeps the 64-bit accumulator and every guard in front of it; a
  pointer into the string is the rest of the string from there.
\<close>

section \<open>Model\<close>

definition SHR_USEC_PER_MSEC :: u64 where "SHR_USEC_PER_MSEC = 1000"
definition SHR_USEC_PER_SEC :: u64 where "SHR_USEC_PER_SEC = 1000000"
definition SHR_USEC_PER_MINUTE :: u64 where "SHR_USEC_PER_MINUTE = 60 * 1000000"
definition SHR_USEC_PER_HOUR :: u64 where "SHR_USEC_PER_HOUR = 60 * 60 * 1000000"
definition SHR_USEC_PER_DAY :: u64 where "SHR_USEC_PER_DAY = 24 * 60 * 60 * 1000000"
definition SHR_USEC_PER_WEEK :: u64 where "SHR_USEC_PER_WEEK = 7 * 24 * 60 * 60 * 1000000"
definition SHR_USEC_PER_MONTH :: u64 where "SHR_USEC_PER_MONTH = 2629800 * 1000000"
definition SHR_USEC_PER_YEAR :: u64 where "SHR_USEC_PER_YEAR = 31557600 * 1000000"
definition SHR_USEC_INFINITY :: u64 where "SHR_USEC_INFINITY = - 1"

lemmas usec_defs = SHR_USEC_PER_MSEC_def SHR_USEC_PER_SEC_def SHR_USEC_PER_MINUTE_def
  SHR_USEC_PER_HOUR_def SHR_USEC_PER_DAY_def SHR_USEC_PER_WEEK_def SHR_USEC_PER_MONTH_def
  SHR_USEC_PER_YEAR_def

text \<open>The last two rows are the UTF-8 spellings of the two mu characters.\<close>

definition time_table :: "(string \<times> u64) list" where
  "time_table =
    [(''seconds'', SHR_USEC_PER_SEC), (''second'', SHR_USEC_PER_SEC),
     (''sec'', SHR_USEC_PER_SEC), (''s'', SHR_USEC_PER_SEC),
     (''minutes'', SHR_USEC_PER_MINUTE), (''minute'', SHR_USEC_PER_MINUTE),
     (''min'', SHR_USEC_PER_MINUTE),
     (''months'', SHR_USEC_PER_MONTH), (''month'', SHR_USEC_PER_MONTH), (''M'', SHR_USEC_PER_MONTH),
     (''msec'', SHR_USEC_PER_MSEC), (''ms'', SHR_USEC_PER_MSEC), (''m'', SHR_USEC_PER_MINUTE),
     (''hours'', SHR_USEC_PER_HOUR), (''hour'', SHR_USEC_PER_HOUR), (''hr'', SHR_USEC_PER_HOUR),
     (''h'', SHR_USEC_PER_HOUR),
     (''days'', SHR_USEC_PER_DAY), (''day'', SHR_USEC_PER_DAY), (''d'', SHR_USEC_PER_DAY),
     (''weeks'', SHR_USEC_PER_WEEK), (''week'', SHR_USEC_PER_WEEK), (''w'', SHR_USEC_PER_WEEK),
     (''years'', SHR_USEC_PER_YEAR), (''year'', SHR_USEC_PER_YEAR), (''y'', SHR_USEC_PER_YEAR),
     (''usec'', 1), (''us'', 1),
     ([CHR 0xCE, CHR 0xBC, CHR ''s''], 1), ([CHR 0xC2, CHR 0xB5, CHR ''s''], 1)]"

text \<open>\<open>strspn(p, WHITESPACE)\<close> and \<open>strspn(p, DIGITS)\<close>.\<close>

definition time_ws :: "char \<Rightarrow> bool" where
  "time_ws c \<longleftrightarrow> c \<in> set [SPC, TAB, LF, CR]"

text \<open>The row found (or the given unit) and the string after it.\<close>

fun extract_from :: "(string \<times> u64) list \<Rightarrow> string \<Rightarrow> u64 \<Rightarrow> u64 \<times> string" where
  "extract_from [] p ret = (ret, p)"
| "extract_from ((suffix, usec) # tab) p ret = (case shr_startswith p suffix of
      Some e \<Rightarrow> (usec, e)
    | None \<Rightarrow> extract_from tab p ret)"

definition extract_multiplier :: "string \<Rightarrow> u64 \<Rightarrow> u64 \<times> string" where
  "extract_multiplier p ret = extract_from time_table p ret"

text \<open>The digits after the point: each adds its share of the unit.\<close>

fun time_frac :: "u64 \<Rightarrow> u64 \<Rightarrow> string \<Rightarrow> u64 res" where
  "time_frac m usec (b # r) =
     (if CHR ''0'' \<le> b \<and> b \<le> CHR ''9'' then
        (let k = of_nat (ord b - ord (CHR ''0'')) * m
         in if k \<ge> SHR_USEC_INFINITY - usec then Inl ERANGE
            else time_frac (m div 10) (usec + k) r)
      else Inr usec)"
| "time_frac m usec [] = Inr usec"

lemma strto_mag_shorter: "strto_mag b s = Some (v, r) \<Longrightarrow> length r < length s"
proof -
  assume a: "strto_mag b s = Some (v, r)"
  define hex where "hex \<longleftrightarrow> (b = 0 \<or> b = 16) \<and> cget s 0 = CHR ''0''
    \<and> (cget s 1 = CHR ''x'' \<or> cget s 1 = CHR ''X'') \<and> is_digit_of 16 (cget s 2)"
  define b' where "b' = (if hex then 16 else if b = 0 then (if cget s 0 = CHR ''0'' then 8 else 10) else b)"
  define s' where "s' = (if hex then drop 2 s else s)"
  define ds where "ds = takeWhile (is_digit_of b') s'"
  have ds: "ds \<noteq> []" "r = drop (length ds) s'"
    using a unfolding strto_mag_def Let_def hex_def [symmetric] b'_def [symmetric] s'_def [symmetric]
      ds_def [symmetric] by (auto split: if_splits)
  then have "s' \<noteq> []" by (auto simp: ds_def)
  then have "length r < length s'" using ds by simp
  then show ?thesis by (auto simp: s'_def split: if_splits)
qed

lemma strtoll_shorter: "strtoll b p = (l, Some r, er) \<Longrightarrow> length r < length p"
proof -
  assume "strtoll b p = (l, Some r, er)"
  then obtain neg v where "strto_scan b p = Some (neg, v, r)"
    by (auto simp: strtoll_def split: option.splits if_splits)
  then obtain s2 where s2: "strto_mag b s2 = Some (v, r)"
    "s2 = dropWhile isspace p \<or> s2 = tl (dropWhile isspace p)"
    by (auto simp: strto_scan_def Let_def split: if_splits)
  then have "length s2 \<le> length p"
    using length_dropWhile_le [of isspace p] by auto
  with strto_mag_shorter [OF s2(1)] show ?thesis by simp
qed

lemma extract_from_shorter: "extract_from tab p ret = (m, s) \<Longrightarrow> length s \<le> length p"
  by (induction tab p ret rule: extract_from.induct)
    (auto simp: shr_startswith_def split: option.splits if_splits)

text \<open>One pass of the loop at a \<open>p\<close> that is past white space and not at the end: the new sum
  and the string that is left.\<close>

definition time_item :: "u64 \<Rightarrow> u64 \<Rightarrow> string \<Rightarrow> (u64 \<times> string) res" where
  "time_item default_unit usec p =
     (if hd p = CHR ''-'' then Inl ERANGE
      else (case strtoll 10 p of (l, endp, erange) \<Rightarrow>
        (let e = (case endp of None \<Rightarrow> p | Some r \<Rightarrow> r)
         in if erange then Inl ERANGE
            else if l < 0 then Inl ERANGE
            else if cget e 0 \<noteq> CHR ''.'' \<and> endp = None then Inl EINVAL
            else (let p1 = (if cget e 0 = CHR ''.'' then dropWhile isdigit (tl e) else e)
                  in (case extract_multiplier (dropWhile time_ws p1) default_unit of (multiplier, s) \<Rightarrow>
                     if length s = length p1 \<and> s \<noteq> [] then Inl EINVAL
                     else if of_int l \<ge> SHR_USEC_INFINITY div multiplier then Inl ERANGE
                     else (let k = of_int l * multiplier
                           in if k \<ge> SHR_USEC_INFINITY - usec then Inl ERANGE
                              else if cget e 0 = CHR ''.''
                              then (case time_frac (multiplier div 10) (usec + k) (tl e) of
                                      Inl er \<Rightarrow> Inl er
                                    | Inr u \<Rightarrow> if \<not> isdigit (cget (tl e) 0) then Inl EINVAL
                                               else Inr (u, s))
                              else Inr (usec + k, s)))))))"

lemma time_item_shorter:
  assumes "time_item d u p = Inr (u', s)" "p \<noteq> []"
  shows "length s < length p"
proof -
  obtain l endp er where st: "strtoll 10 p = (l, endp, er)" by (metis prod_cases3)
  define e where "e = (case endp of None \<Rightarrow> p | Some r \<Rightarrow> r)"
  define p1 where "p1 = (if cget e 0 = CHR ''.'' then dropWhile isdigit (tl e) else e)"
  have ex: "\<exists>m. extract_multiplier (dropWhile time_ws p1) d = (m, s)"
    and ne: "\<not> (cget e 0 \<noteq> CHR ''.'' \<and> endp = None)"
    using assms(1) unfolding time_item_def st prod.case Let_def e_def [symmetric] p1_def [symmetric]
    by (auto split: if_splits prod.splits sum.splits)
  have le: "length e \<le> length p" "endp \<noteq> None \<Longrightarrow> length e < length p"
    using strtoll_shorter [of 10 p l _ er] st by (auto simp: e_def split: option.splits)
  have "length p1 < length p"
  proof (cases "cget e 0 = CHR ''.''")
    case True
    then have "e \<noteq> []" by auto
    then show ?thesis using True le(1) length_dropWhile_le [of isdigit "tl e"]
      by (cases e) (auto simp: p1_def)
  qed (use ne le(2) in \<open>auto simp: p1_def\<close>)
  moreover have "length s \<le> length p1"
    using ex extract_from_shorter length_dropWhile_le [of time_ws p1]
    unfolding extract_multiplier_def by (metis le_trans)
  ultimately show ?thesis by simp
qed

text \<open>The loop.\<close>

function time_loop :: "u64 \<Rightarrow> bool \<Rightarrow> u64 \<Rightarrow> string \<Rightarrow> u64 res" where
  "time_loop default_unit something usec p0 =
     (let p = dropWhile time_ws p0
      in if p = [] then (if something then Inr usec else Inl EINVAL)
         else (case time_item default_unit usec p of
                 Inl er \<Rightarrow> Inl er
               | Inr (u, s) \<Rightarrow> time_loop default_unit True u s))"
  by pat_completeness auto
termination
  by (relation "measure (\<lambda>(d, b, u, p). length p)")
    (auto intro: less_le_trans [OF time_item_shorter length_dropWhile_le])

declare time_loop.simps [simp del]

definition shr_parse_time :: "string option \<Rightarrow> u64 \<Rightarrow> u64 res" where
  "shr_parse_time so default_unit = (case so of
      None \<Rightarrow> Inl EINVAL
    | Some str \<Rightarrow>
        if default_unit = 0 then Inl EINVAL
        else (case shr_startswith (dropWhile time_ws str) ''infinity'' of
                Some s \<Rightarrow> if dropWhile time_ws s \<noteq> [] then Inl EINVAL else Inr SHR_USEC_INFINITY
              | None \<Rightarrow> time_loop default_unit False 0 (dropWhile time_ws str)))"

text \<open>\<open>shr_elapsed_utime\<close>: \<open>time_t\<close> and \<open>suseconds_t\<close> are 64-bit longs.\<close>

definition shr_elapsed_utime :: "int \<times> int \<Rightarrow> int \<times> int \<Rightarrow> u64" where
  "shr_elapsed_utime start_time end_time =
     of_int ((fst end_time - fst start_time) * 1000000 + (snd end_time - snd start_time))"

section \<open>The sum never wraps\<close>

lemma word_add_below:
  fixes a k :: u64
  assumes "a \<noteq> - 1" "\<not> k \<ge> - 1 - a"
  shows "a + k \<noteq> - 1" "unat (a + k) = unat a + unat k"
proof -
  have a: "unat (- 1 - a) = 2 ^ 64 - 1 - unat a"
    using unat_m1_64 by (metis unat_sub word_order.extremum)
  have lt: "unat k < 2 ^ 64 - 1 - unat a" using assms(2) a by (simp add: word_le_nat_alt)
  then have "unat a + unat k < 2 ^ 64 - 1" by linarith
  moreover from this show e: "unat (a + k) = unat a + unat k"
    by (simp add: unat_word_ariths)
  ultimately have "unat (a + k) \<noteq> unat (- 1 :: u64)" unfolding unat_m1_64 by linarith
  then show "a + k \<noteq> - 1" by metis
qed

lemma time_frac_finite:
  "time_frac m usec r = Inr u \<Longrightarrow> usec \<noteq> SHR_USEC_INFINITY \<Longrightarrow> u \<noteq> SHR_USEC_INFINITY"
proof (induction m usec r rule: time_frac.induct)
  case (1 m usec b r)
  then show ?case using word_add_below(1) [of usec "of_nat (ord b - 48) * m"]
    by (auto simp: SHR_USEC_INFINITY_def Let_def split: if_splits)
qed auto

lemma time_item_finite:
  assumes "time_item d usec p = Inr (u, s)" "usec \<noteq> SHR_USEC_INFINITY"
  shows "u \<noteq> SHR_USEC_INFINITY"
proof -
  have step: "\<not> k \<ge> SHR_USEC_INFINITY - usec \<Longrightarrow> usec + k \<noteq> SHR_USEC_INFINITY" for k
    using assms(2) word_add_below(1) [of usec k] by (simp add: SHR_USEC_INFINITY_def)
  show ?thesis using assms(1) unfolding time_item_def Let_def
    by (auto split: if_splits prod.splits sum.splits dest!: time_frac_finite step)
qed

lemma time_loop_finite:
  "time_loop d b usec p = Inr u \<Longrightarrow> usec \<noteq> SHR_USEC_INFINITY \<Longrightarrow> u \<noteq> SHR_USEC_INFINITY"
proof (induction d b usec p rule: time_loop.induct)
  case (1 d b usec p0)
  show ?case
  proof (cases "dropWhile time_ws p0 = []")
    case True
    then show ?thesis using "1.prems" by (subst (asm) time_loop.simps) (auto split: if_splits)
  next
    case False
    then obtain u' s where i: "time_item d usec (dropWhile time_ws p0) = Inr (u', s)"
      "time_loop d True u' s = Inr u"
      using "1.prems"(1) False unfolding time_loop.simps [of d b usec p0] Let_def
      by (auto split: sum.splits prod.splits simp del: dropWhile_eq_Nil_conv)
    show ?thesis using "1.IH" [OF refl False i(1) refl i(2) time_item_finite [OF i(1) "1.prems"(2)]] .
  qed
qed

lemma time_frac_error: "time_frac m usec r = Inl e \<Longrightarrow> e = ERANGE"
  by (induction m usec r rule: time_frac.induct) (auto simp: Let_def split: if_splits)

lemma time_item_error: "time_item d usec p = Inl e \<Longrightarrow> e = ERANGE \<or> e = EINVAL"
  unfolding time_item_def Let_def
  by (auto split: if_splits prod.splits sum.splits dest: time_frac_error)

lemma time_loop_error: "time_loop d b usec p = Inl e \<Longrightarrow> e = ERANGE \<or> e = EINVAL"
proof (induction d b usec p rule: time_loop.induct)
  case (1 d b usec p0)
  show ?case
  proof (cases "dropWhile time_ws p0 = []")
    case True
    then show ?thesis using "1.prems" by (subst (asm) time_loop.simps) (auto split: if_splits)
  next
    case False
    show ?thesis
    proof (cases "time_item d usec (dropWhile time_ws p0)")
      case (Inl e')
      then show ?thesis using "1.prems" False time_item_error [OF Inl]
        unfolding time_loop.simps [of d b usec p0] by (simp del: dropWhile_eq_Nil_conv)
    next
      case (Inr x)
      obtain u s where x: "x = (u, s)" by force
      have "time_loop d True u s = Inl e" using "1.prems" False Inr x
        unfolding time_loop.simps [of d b usec p0] by (simp del: dropWhile_eq_Nil_conv)
      then show ?thesis using "1.IH" [OF refl False Inr [unfolded x] refl] by blast
    qed
  qed
qed

lemma parse_time_error: "shr_parse_time s d = Inl e \<Longrightarrow> e = ERANGE \<or> e = EINVAL"
  by (auto simp: shr_parse_time_def split: option.splits if_splits dest: time_loop_error)

lemma parse_time_infinite:
  "shr_parse_time (Some str) d = Inr SHR_USEC_INFINITY \<longleftrightarrow>
   d \<noteq> 0 \<and> (\<exists>a b. str = a @ ''infinity'' @ b \<and> list_all time_ws a \<and> list_all time_ws b)"
proof -
  let ?p = "dropWhile time_ws str"
  have zero: "(0 :: u64) \<noteq> SHR_USEC_INFINITY" by (simp add: SHR_USEC_INFINITY_def)
  have "shr_parse_time (Some str) d = Inr SHR_USEC_INFINITY \<longleftrightarrow>
      d \<noteq> 0 \<and> (\<exists>b. ?p = ''infinity'' @ b \<and> list_all time_ws b)"
  proof (cases "shr_startswith ?p ''infinity''")
    case None
    then have "\<nexists>b. ?p = ''infinity'' @ b" by (metis option.distinct(1) shr_startswith_iff)
    then show ?thesis using None time_loop_finite [of d False 0 ?p, OF _ zero]
      by (auto simp: shr_parse_time_def)
  next
    case (Some r)
    then have p: "?p = ''infinity'' @ r" by (simp only: shr_startswith_iff)
    have "dropWhile time_ws r = [] \<longleftrightarrow> list_all time_ws r" by (rule dropWhile_all_Nil)
    moreover have "(\<exists>b. ?p = ''infinity'' @ b \<and> list_all time_ws b) \<longleftrightarrow> list_all time_ws r"
      unfolding p by (simp only: same_append_eq) blast
    moreover have "shr_parse_time (Some str) d = Inr SHR_USEC_INFINITY \<longleftrightarrow>
        d \<noteq> 0 \<and> dropWhile time_ws r = []"
      using Some by (simp add: shr_parse_time_def del: dropWhile_eq_Nil_conv)
    ultimately show ?thesis by blast
  qed
  also have "(\<exists>b. ?p = ''infinity'' @ b \<and> list_all time_ws b) \<longleftrightarrow>
      (\<exists>a b. str = a @ ''infinity'' @ b \<and> list_all time_ws a \<and> list_all time_ws b)"
  proof
    assume "\<exists>b. ?p = ''infinity'' @ b \<and> list_all time_ws b"
    then obtain b where "?p = ''infinity'' @ b" "list_all time_ws b" by blast
    then show "\<exists>a b. str = a @ ''infinity'' @ b \<and> list_all time_ws a \<and> list_all time_ws b"
      using takeWhile_dropWhile_id [of time_ws str]
      by (intro exI [of _ "takeWhile time_ws str"] exI [of _ b])
        (auto simp: list_all_iff dest: set_takeWhileD)
  next
    assume "\<exists>a b. str = a @ ''infinity'' @ b \<and> list_all time_ws a \<and> list_all time_ws b"
    then show "\<exists>b. ?p = ''infinity'' @ b \<and> list_all time_ws b"
      by (auto simp: dropWhile_all time_ws_def [of "CHR ''i''"])
  qed
  finally show ?thesis .
qed

section \<open>Sums of spans\<close>

text \<open>A span is a number with a row of the table, or with no unit; spans are written one after
  the other, each followed by a space.\<close>

type_synonym span = "nat \<times> string \<times> u64"

definition span_ok :: "u64 \<Rightarrow> span \<Rightarrow> bool" where
  "span_ok d x \<longleftrightarrow> snd x \<in> set time_table \<or> snd x = ([], d)"

definition span_text :: "span \<Rightarrow> string" where
  "span_text x = dec_str (fst x) @ fst (snd x) @ [SPC]"

definition spans_text :: "span list \<Rightarrow> string" where
  "spans_text xs = concat (map span_text xs)"

definition span_val :: "span \<Rightarrow> nat" where
  "span_val x = fst x * unat (snd (snd x))"

text \<open>Followed by a blank, a unit of the table is found as itself: no row above it is a prefix
  of it, and no row contains a blank.\<close>

fun first_match :: "(string \<times> u64) list \<Rightarrow> bool" where
  "first_match [] = True"
| "first_match ((u, m) # tab) =
     (list_all (\<lambda>c. \<not> time_ws c) u \<and> 0 < unat m \<and> u \<noteq> [] \<and> \<not> isdigit (hd u) \<and> hd u \<noteq> CHR ''.'' \<and>
      list_all (\<lambda>(v, k). take (length u) (v @ [SPC]) \<noteq> u) tab \<and> first_match tab)"

lemma time_table_first_match: "first_match time_table"
  by (simp add: time_table_def isdigit_def time_ws_def usec_defs)

lemma first_match_unit:
  "first_match tab \<Longrightarrow> (u, m) \<in> set tab \<Longrightarrow>
   u \<noteq> [] \<and> \<not> isdigit (hd u) \<and> hd u \<noteq> CHR ''.'' \<and> \<not> time_ws (hd u) \<and> 0 < unat m"
  by (induction tab rule: first_match.induct) (auto simp: list_all_iff)

lemma startswith_None_iff: "shr_startswith s p = None \<longleftrightarrow> take (length p) s \<noteq> p"
  by (simp add: shr_startswith_def)

lemma extract_unit:
  "first_match tab \<Longrightarrow> (u, m) \<in> set tab \<Longrightarrow> extract_from tab (u @ SPC # r) d = (m, SPC # r)"
proof (induction tab)
  case (Cons x tab)
  obtain v k where x: "x = (v, k)" by force
  show ?case
  proof (cases "(u, m) = (v, k)")
    case True
    then show ?thesis using x by (simp add: shr_startswith_def)
  next
    case False
    then have um: "(u, m) \<in> set tab" using Cons.prems x by auto
    have "take (length v) (u @ SPC # r) \<noteq> v"
    proof (cases "length v \<le> Suc (length u)")
      case True
      then have "take (length v) (u @ SPC # r) = take (length v) (u @ [SPC])" by (simp add: take_Cons')
      then show ?thesis using Cons.prems um x by (auto simp: list_all_iff)
    next
      case False
      then have "SPC \<in> set (take (length v) (u @ SPC # r))"
        by (simp add: take_Cons')
      moreover have "SPC \<notin> set v" using Cons.prems(1) x by (auto simp: list_all_iff time_ws_def)
      ultimately show ?thesis by metis
    qed
    then show ?thesis using x Cons um by (simp add: startswith_None_iff [THEN iffD2])
  qed
qed simp

lemma extract_digit:
  "first_match tab \<Longrightarrow> r = [] \<or> isdigit (hd r) \<Longrightarrow> extract_from tab r d = (d, r)"
proof (induction tab)
  case (Cons x tab)
  obtain v k where x: "x = (v, k)" by force
  have "take (length v) r \<noteq> v"
    using Cons.prems x by (cases v; cases r) auto
  then show ?case using x Cons by (simp add: startswith_None_iff [THEN iffD2])
qed simp

lemma strtoll_dec_str:
  assumes "r = [] \<or> \<not> isdigit (hd r)" "n < 2 ^ 63"
  shows "strtoll 10 (dec_str n @ r) = (int n, Some r, False)"
proof -
  obtain c t where ct: "dec_str n = c # t" by (cases "dec_str n") auto
  have all: "list_all isdigit (dec_str n)" by (auto simp: list_all_iff dec_str_digits)
  have c: "isdigit c" using all ct by simp
  then have cs: "\<not> isspace c" "c \<noteq> CHR ''-''" "c \<noteq> CHR ''+''"
    by (auto simp: isdigit_not_isspace isdigit_def)
  have d10: "is_digit_of 10 = isdigit" by (intro ext) (rule is_digit_of_10)
  have "takeWhile isdigit (dec_str n @ r) = dec_str n"
    using all assms(1) by (cases r; simp add: takeWhile_append list_all_iff)
  then have "strto_mag 10 (dec_str n @ r) = Some (n, r)"
    by (simp add: strto_mag_def d10 Let_def)
  moreover have "dropWhile isspace (dec_str n @ r) = dec_str n @ r" using ct cs by simp
  ultimately have "strto_scan 10 (dec_str n @ r) = Some (False, n, r)"
    using ct cs by (simp add: strto_scan_def Let_def)
  then show ?thesis using assms(2) by (simp add: strtoll_def)
qed

lemma span_guards:
  fixes m :: u64
  assumes "a + (n + 1) * unat m < 2 ^ 64" "0 < unat m"
  shows "\<not> of_int (int n) \<ge> SHR_USEC_INFINITY div m"
    and "\<not> of_int (int n) * m \<ge> SHR_USEC_INFINITY - of_nat a"
    and "of_nat a + of_int (int n) * m = of_nat (a + n * unat m)"
proof -
  have n: "n < 2 ^ 64" "a < 2 ^ 64 - 1" "n * unat m < 2 ^ 64"
  proof -
    have "n \<le> n * unat m" using assms(2) by simp
    moreover have "a + n * unat m + unat m < 2 ^ 64" using assms(1) by (simp add: algebra_simps)
    ultimately show "n < 2 ^ 64" "a < 2 ^ 64 - 1" "n * unat m < 2 ^ 64" using assms(2) by linarith+
  qed
  have un: "unat (of_int (int n) :: u64) = n" using n by (simp add: unat_of_nat_64)
  have "(n + 1) * unat m \<le> 2 ^ 64 - 1" using assms(1) by linarith
  then have "n + 1 \<le> (2 ^ 64 - 1) div unat m" using assms(2)
    by (simp only: less_eq_div_iff_mult_less_eq)
  then have "unat (of_int (int n) :: u64) < unat (SHR_USEC_INFINITY div m)"
    unfolding un SHR_USEC_INFINITY_def unat_div unat_m1_64 by linarith
  then show "\<not> of_int (int n) \<ge> SHR_USEC_INFINITY div m" by (simp add: word_le_nat_alt)
  have um: "unat (of_int (int n) * m) = n * unat m"
    using n un by (simp add: unat_word_ariths)
  have "unat (SHR_USEC_INFINITY - of_nat a) = 2 ^ 64 - 1 - a"
    using n unat_m1_64 unat_of_nat_64 [of a]
    by (metis SHR_USEC_INFINITY_def less_imp_diff_less linorder_not_less not_less_iff_gr_or_eq unat_sub word_order.extremum)
  moreover have "n * unat m < 2 ^ 64 - 1 - a" using assms by (simp add: algebra_simps)
  ultimately show "\<not> of_int (int n) * m \<ge> SHR_USEC_INFINITY - of_nat a"
    unfolding word_le_nat_alt um by linarith
  show "of_nat a + of_int (int n) * m = of_nat (a + n * unat m)" by simp
qed

lemma time_item_span:
  assumes "span_ok d x" "a + (fst x + 1) * unat (snd (snd x)) < 2 ^ 64" "fst x < 2 ^ 63"
    "0 < unat d" "r = [] \<or> isdigit (hd r)"
  shows "\<exists>s. time_item d (of_nat a) (span_text x @ r) = Inr (of_nat (a + span_val x), s) \<and>
    (s = r \<or> s = SPC # r)"
proof -
  obtain n u m where x: "x = (n, u, m)" by (metis prod_cases3)
  obtain c t where ct: "dec_str n = c # t" by (cases "dec_str n") auto
  have "isdigit c" using dec_str_digits [of c n] ct by simp
  then have c: "c \<noteq> CHR ''-''" by (auto simp: isdigit_def)
  have ws: "time_ws SPC" "\<not> isdigit SPC" "r \<noteq> [] \<Longrightarrow> \<not> time_ws (hd r)"
    using assms(5) by (auto simp: time_ws_def isdigit_def)
  consider "(u, m) \<in> set time_table" | "u = []" "m = d" using assms(1) x by (auto simp: span_ok_def)
  then show ?thesis
  proof cases
    case 1
    note fm = first_match_unit [OF time_table_first_match 1]
    have st: "strtoll 10 (dec_str n @ u @ SPC # r) = (int n, Some (u @ SPC # r), False)"
      using fm assms(3) x by (intro strtoll_dec_str) auto
    have hd: "cget (u @ SPC # r) 0 \<noteq> CHR ''.''" "dropWhile time_ws (u @ SPC # r) = u @ SPC # r"
      using fm by (cases u; simp)+
    have ex: "extract_multiplier (u @ SPC # r) d = (m, SPC # r)"
      unfolding extract_multiplier_def by (rule extract_unit [OF time_table_first_match 1])
    have g: "a + (n + 1) * unat m < 2 ^ 64" "0 < unat m" using assms(2) fm x by auto
    have "time_item d (of_nat a) (span_text x @ r) = Inr (of_nat (a + n * unat m), SPC # r)"
      using st hd ex fm ct c span_guards [OF g]
      by (simp add: time_item_def span_text_def x Let_def del: of_int_of_nat_eq)
    then show ?thesis by (simp add: span_val_def x)
  next
    case 2
    have st: "strtoll 10 (dec_str n @ SPC # r) = (int n, Some (SPC # r), False)"
      using assms(3) x ws by (intro strtoll_dec_str) auto
    have dw: "dropWhile time_ws r = r" using ws(3) by (cases r) auto
    have ex: "extract_multiplier r d = (d, r)"
      unfolding extract_multiplier_def by (rule extract_digit [OF time_table_first_match assms(5)])
    have g: "a + (n + 1) * unat d < 2 ^ 64" using assms(2) x 2 by auto
    have "time_item d (of_nat a) (span_text x @ r) = Inr (of_nat (a + n * unat d), r)"
      using st ex ct c ws dw span_guards [OF g assms(4)] 2
      by (simp add: time_item_def span_text_def x Let_def del: of_int_of_nat_eq)
    then show ?thesis using 2 by (simp add: span_val_def x)
  qed
qed

lemma spans_text_head: "spans_text xs = [] \<or> isdigit (hd (spans_text xs))"
proof (cases xs)
  case (Cons x r)
  obtain c t where ct: "dec_str (fst x) = c # t" by (cases "dec_str (fst x)") auto
  then have "isdigit c" using dec_str_digits [of c "fst x"] by simp
  then show ?thesis using Cons ct by (simp add: spans_text_def span_text_def)
qed (simp add: spans_text_def)

lemma time_loop_spc: "time_loop d b u (SPC # r) = time_loop d b u r"
  by (simp add: time_loop.simps [of d b u "SPC # r"] time_loop.simps [of d b u r] time_ws_def)

lemma spans_dropWhile: "dropWhile time_ws (spans_text xs) = spans_text xs"
  using spans_text_head [of xs] by (cases "spans_text xs") (auto simp: time_ws_def isdigit_def)

lemma time_loop_spans:
  assumes "list_all (span_ok d) xs" "list_all (\<lambda>x. fst x < 2 ^ 63) xs" "0 < unat d" "b \<or> xs \<noteq> []"
    and "a + sum_list (map (\<lambda>x. (fst x + 1) * unat (snd (snd x))) xs) < 2 ^ 64"
  shows "time_loop d b (of_nat a) (spans_text xs) = Inr (of_nat (a + sum_list (map span_val xs)))"
  using assms
proof (induction xs arbitrary: a b)
  case Nil
  then show ?case by (subst time_loop.simps) (simp add: spans_text_def)
next
  case (Cons x xs)
  have t: "spans_text (x # xs) = span_text x @ spans_text xs" by (simp add: spans_text_def)
  have le: "span_val x \<le> (fst x + 1) * unat (snd (snd x))" by (simp add: span_val_def)
  obtain s where i: "time_item d (of_nat a) (span_text x @ spans_text xs) = Inr (of_nat (a + span_val x), s)"
    "s = spans_text xs \<or> s = SPC # spans_text xs"
    using time_item_span [of d x a "spans_text xs"] spans_text_head [of xs] Cons.prems by auto
  have "time_loop d b (of_nat a) (spans_text (x # xs)) = time_loop d True (of_nat (a + span_val x)) s"
    using spans_dropWhile [of "x # xs"] i(1) unfolding t
    by (subst time_loop.simps) (simp add: span_text_def del: dropWhile_append1 dropWhile_append2)
  also have "\<dots> = time_loop d True (of_nat (a + span_val x)) (spans_text xs)"
    using i(2) time_loop_spc by auto
  also have "\<dots> = Inr (of_nat (a + span_val x + sum_list (map span_val xs)))"
    using Cons.prems le by (intro Cons.IH) auto
  finally show ?case by (simp add: add.assoc)
qed

lemma spans_not_infinity: "xs \<noteq> [] \<Longrightarrow> shr_startswith (spans_text xs) ''infinity'' = None"
proof -
  assume "xs \<noteq> []"
  then obtain c r where "spans_text xs = c # r"
    by (cases xs; cases "spans_text xs") (auto simp: spans_text_def span_text_def)
  moreover from this have "c \<noteq> CHR ''i''" using spans_text_head [of xs] by (auto simp: isdigit_def)
  ultimately show ?thesis by (simp add: shr_startswith_def)
qed

text \<open>\<open>shr_parse_time\<close> reads any non-empty sequence of numbers with units of its table (or
  without one, in the caller's default unit) as the exact sum in microseconds, as long as that
  sum stays below 2^64 by one unit of each term; nothing wraps around.\<close>

theorem parse_time_sum:
  assumes "list_all (span_ok d) xs" "list_all (\<lambda>x. fst x < 2 ^ 63) xs" "d \<noteq> 0" "xs \<noteq> []"
    and "sum_list (map (\<lambda>x. (fst x + 1) * unat (snd (snd x))) xs) < 2 ^ 64"
  shows "shr_parse_time (Some (spans_text xs)) d = Inr (of_nat (sum_list (map span_val xs)))"
proof -
  have "0 < unat d" using assms(3) by (simp add: unat_gt_0)
  from time_loop_spans [OF assms(1,2) this, of False 0] show ?thesis using assms(3-5)
    by (simp add: shr_parse_time_def spans_dropWhile spans_not_infinity)
qed

theorem parse_time_sum_witness:
  "shr_parse_time (Some (spans_text [(2, ''min'', SHR_USEC_PER_MINUTE), (5, [], SHR_USEC_PER_SEC)]))
     SHR_USEC_PER_SEC = Inr 125000000 \<and>
   spans_text [(2, ''min'', SHR_USEC_PER_MINUTE), (5, [], SHR_USEC_PER_SEC)] = ''2min 5 ''"
proof -
  have "spans_text [(2, ''min'', SHR_USEC_PER_MINUTE), (5, [], SHR_USEC_PER_SEC)] = ''2min 5 ''"
    by code_simp
  then show ?thesis
    using parse_time_sum [of SHR_USEC_PER_SEC
      "[(2, ''min'', SHR_USEC_PER_MINUTE), (5, [], SHR_USEC_PER_SEC)]"]
    by (simp add: span_ok_def time_table_def span_val_def usec_defs)
qed

text \<open>The value that means infinity is returned exactly for the word itself, with white space
  around it: no finite span, however long, is mistaken for it.\<close>

theorem parse_time_infinity:
  "shr_parse_time (Some str) d = Inr SHR_USEC_INFINITY \<longleftrightarrow>
   d \<noteq> 0 \<and> (\<exists>a b. str = a @ ''infinity'' @ b \<and> list_all time_ws a \<and> list_all time_ws b)"
  by (rule parse_time_infinite)

end
