(* ===== verification/KeysdConfig.thy ===== *)
theory KeysdConfig
  imports Ini Timespan
begin

text \<open>
  The configuration of the key daemon, \<open>keysd/src/config.c\<close>, on top of the INI reader, and the
  log level names of \<open>daemon-util/log.c\<close>.  The array of KMSes is a list, the pointer to the
  current one (\<open>pc->kms\<close>) its index: the array moves only in \<open>add_kmip\<close>, which the callback calls
  with the pointer cleared.  \<open>mok line k\<close> says whether the \<open>k\<close>-th allocation made for an input line
  succeeds.
\<close>

section \<open>Log levels\<close>

definition level_names :: "string list" where
  "level_names = [''err'', ''warn'', ''info'', ''debug'']"

fun log_level_from :: "string list \<Rightarrow> int \<Rightarrow> string \<Rightarrow> int res" where
  "log_level_from [] i nm = Inl EINVAL"
| "log_level_from (l # ls) i nm = (if strcasecmp_eq nm l then Inr i else log_level_from ls (i + 1) nm)"

definition dmn_parse_log_level :: "string \<Rightarrow> int res" where
  "dmn_parse_log_level nm = log_level_from level_names 0 nm"

definition DMN_DEFAULT_LOGLEVEL :: int where "DMN_DEFAULT_LOGLEVEL = 2"

section \<open>State\<close>

record keysd_kmip =
  kms_name :: string
  servers :: "string list"
  port :: string
  ca :: "string option"
  client_cert :: "string option"
  client_key :: "string option"
  timeout_ms :: u32

record keysd_config =
  debug_level :: int
  kmip :: "keysd_kmip list"

record config_parse_ctx =
  pcfg :: keysd_config
  pkms :: "nat option"

definition config_set_defaults :: "keysd_config \<Rightarrow> keysd_config" where
  "config_set_defaults cfg = cfg\<lparr>debug_level := DMN_DEFAULT_LOGLEVEL\<rparr>"

section \<open>Values\<close>

definition apply_global_key :: "keysd_config \<Rightarrow> string \<Rightarrow> string \<Rightarrow> keysd_config" where
  "apply_global_key cfg key val =
     (if key = ''debug-level'' then
        (case dmn_parse_log_level val of Inl e \<Rightarrow> cfg | Inr l \<Rightarrow> cfg\<lparr>debug_level := l\<rparr>)
      else cfg)"

definition name_valid :: "string \<Rightarrow> bool" where
  "name_valid nm \<longleftrightarrow> nm \<noteq> [] \<and> cget nm 0 \<noteq> CHR ''.'' \<and> CHR ''/'' \<notin> set nm \<and>
     SPC \<notin> set nm \<and> TAB \<notin> set nm"

definition parse_port :: "string \<Rightarrow> unit res" where
  "parse_port val = (case strtoull 10 val of (p, end, erange) \<Rightarrow>
     if erange \<or> end \<noteq> Some [] \<or> p = 0 \<or> p > 65535 then Inl EINVAL else Inr ())"

definition KMIP_TIMEOUT_MAX_MS :: u64 where "KMIP_TIMEOUT_MAX_MS = 10 * 60 * 1000"

definition parse_timeout :: "string \<Rightarrow> u32 res" where
  "parse_timeout val = (case shr_parse_time (Some val) SHR_USEC_PER_SEC of
      Inl e \<Rightarrow> Inl e
    | Inr usec \<Rightarrow>
        if usec < SHR_USEC_PER_MSEC \<or> usec div SHR_USEC_PER_MSEC > KMIP_TIMEOUT_MAX_MS then Inl ERANGE
        else Inr (ucast (usec div SHR_USEC_PER_MSEC)))"

definition add_server :: "(nat \<Rightarrow> bool) \<Rightarrow> keysd_kmip \<Rightarrow> string \<Rightarrow> keysd_kmip res" where
  "add_server mok kms server =
     (if server \<in> set (servers kms) then Inr kms
      else if \<not> mok 0 then Inl ENOMEM
      else if \<not> mok 1 then Inl ENOMEM
      else Inr (kms\<lparr>servers := servers kms @ [server]\<rparr>))"

text \<open>\<open>set_str\<close>: the copy that replaces the field.\<close>

definition set_str :: "(nat \<Rightarrow> bool) \<Rightarrow> string \<Rightarrow> string res" where
  "set_str mok val = (if mok 0 then Inr val else Inl ENOMEM)"

text \<open>The value of \<open>r\<close> after the chain of tests, with the changed entry; None for an unknown key.\<close>

definition kmip_key_result ::
  "(nat \<Rightarrow> bool) \<Rightarrow> keysd_kmip \<Rightarrow> string \<Rightarrow> string \<Rightarrow> keysd_kmip res option" where
  "kmip_key_result mok kms key val =
     (if key = ''server'' then
        Some (if val \<noteq> [] \<and> SPC \<notin> set val \<and> TAB \<notin> set val then add_server mok kms val else Inl EINVAL)
      else if key = ''port'' then
        Some (case parse_port val of Inl e \<Rightarrow> Inl e
              | Inr _ \<Rightarrow> (case set_str mok val of Inl e \<Rightarrow> Inl e | Inr s \<Rightarrow> Inr (kms\<lparr>port := s\<rparr>)))
      else if key = ''ca'' then
        Some (if cget val 0 = CHR ''/'' then
                (case set_str mok val of Inl e \<Rightarrow> Inl e | Inr s \<Rightarrow> Inr (kms\<lparr>ca := Some s\<rparr>)) else Inl EINVAL)
      else if key = ''client-cert'' then
        Some (if cget val 0 = CHR ''/'' then
                (case set_str mok val of Inl e \<Rightarrow> Inl e | Inr s \<Rightarrow> Inr (kms\<lparr>client_cert := Some s\<rparr>)) else Inl EINVAL)
      else if key = ''client-key'' then
        Some (if name_valid val then
                (case set_str mok val of Inl e \<Rightarrow> Inl e | Inr s \<Rightarrow> Inr (kms\<lparr>client_key := Some s\<rparr>)) else Inl EINVAL)
      else if key = ''timeout'' then
        Some (case parse_timeout val of Inl e \<Rightarrow> Inl e | Inr t \<Rightarrow> Inr (kms\<lparr>timeout_ms := t\<rparr>))
      else None)"

definition apply_kmip_key ::
  "(nat \<Rightarrow> bool) \<Rightarrow> keysd_kmip \<Rightarrow> string \<Rightarrow> string \<Rightarrow> int \<times> keysd_kmip" where
  "apply_kmip_key mok kms key val = (case kmip_key_result mok kms key val of
      None \<Rightarrow> (0, kms)
    | Some (Inl e) \<Rightarrow> ((if e = ENOMEM then neg_errno ENOMEM else 0), kms)
    | Some (Inr kms') \<Rightarrow> (0, kms'))"

section \<open>Sections\<close>

definition config_find_kmip :: "keysd_config \<Rightarrow> string \<Rightarrow> keysd_kmip option" where
  "config_find_kmip cfg nm = find (\<lambda>k. kms_name k = nm) (kmip cfg)"

definition KEYSD_KMIP_PORT :: string where "KEYSD_KMIP_PORT = ''5696''"
definition KEYSD_KMIP_TIMEOUT_MS :: u32 where "KEYSD_KMIP_TIMEOUT_MS = 10000"

text \<open>The configuration, the index of the new entry and \<open>*r\<close>.\<close>

definition add_kmip :: "(nat \<Rightarrow> bool) \<Rightarrow> keysd_config \<Rightarrow> string \<Rightarrow> keysd_config \<times> nat option \<times> int" where
  "add_kmip mok cfg nm =
     (if \<not> name_valid nm then (cfg, None, 0)
      else if config_find_kmip cfg nm \<noteq> None then (cfg, None, 0)
      else if \<not> mok 0 then (cfg, None, neg_errno ENOMEM)
      else if \<not> mok 1 \<or> \<not> mok 2 then (cfg, None, neg_errno ENOMEM)
      else (cfg\<lparr>kmip := kmip cfg @
              [\<lparr>kms_name = nm, servers = [], port = KEYSD_KMIP_PORT, ca = None, client_cert = None,
                client_key = None, timeout_ms = KEYSD_KMIP_TIMEOUT_MS\<rparr>]\<rparr>,
            Some (length (kmip cfg)), 0))"

definition kms_error :: "keysd_kmip \<Rightarrow> bool" where
  "kms_error kms \<longleftrightarrow> servers kms = [] \<or> (client_cert kms = None) \<noteq> (client_key kms = None)"

function check_loop :: "nat \<Rightarrow> keysd_kmip list \<Rightarrow> keysd_kmip list" where
  "check_loop i ks =
     (if i < length ks then
        (if \<not> kms_error (ks ! i) then check_loop (i + 1) ks
         else check_loop i (take i ks @ drop (i + 1) ks))
      else ks)"
  by pat_completeness auto
termination by (relation "measure (\<lambda>(i, ks). length ks - i)") auto

declare check_loop.simps [simp del]

definition check_kmip :: "keysd_config \<Rightarrow> keysd_config" where
  "check_kmip cfg = cfg\<lparr>kmip := check_loop 0 (kmip cfg)\<rparr>"

definition KMIP_SECTION :: string where "KMIP_SECTION = ''kmip:''"

definition config_event :: "(u32 \<Rightarrow> nat \<Rightarrow> bool) \<Rightarrow> config_parse_ctx ini_callback" where
  "config_event mok ev sec key val line pc = (case ev of
      INI_SECTION \<Rightarrow>
        (let pc1 = pc\<lparr>pkms := None\<rparr>
         in case shr_startswith key KMIP_SECTION of
              Some nm \<Rightarrow> (case add_kmip (mok line) (pcfg pc1) nm of (cfg, k, r) \<Rightarrow>
                           (r, pc1\<lparr>pcfg := cfg, pkms := k\<rparr>))
            | None \<Rightarrow> (0, pc1))
    | INI_KV \<Rightarrow>
        (case pkms pc of
           Some i \<Rightarrow> (case apply_kmip_key (mok line) (kmip (pcfg pc) ! i) key (the val) of (r, kms) \<Rightarrow>
                       (r, pc\<lparr>pcfg := (pcfg pc)\<lparr>kmip := (kmip (pcfg pc))[i := kms]\<rparr>\<rparr>))
         | None \<Rightarrow> if sec = Some ''Global''
                   then (0, pc\<lparr>pcfg := apply_global_key (pcfg pc) key (the val)\<rparr>)
                   else (0, pc))
    | INI_JUNK \<Rightarrow> (0, pc))"

definition config_load :: "bool \<Rightarrow> (u32 \<Rightarrow> nat \<Rightarrow> bool) \<Rightarrow> file_io \<Rightarrow> keysd_config option" where
  "config_load mem mok conf =
     (if \<not> mem then None
      else (let cfg = config_set_defaults \<lparr>debug_level = 0, kmip = []\<rparr>
            in case shr_ini_parse_file (Some conf) (Some (config_event mok)) \<lparr>pcfg = cfg, pkms = None\<rparr> of
                 (ret, pc) \<Rightarrow> if ret = neg_errno ENOMEM then None else Some (check_kmip (pcfg pc))))"

section \<open>What a loaded configuration promises\<close>

definition abs_path :: "string option \<Rightarrow> bool" where
  "abs_path p = (case p of None \<Rightarrow> True | Some s \<Rightarrow> cget s 0 = CHR ''/'')"

definition kms_ok :: "keysd_kmip \<Rightarrow> bool" where
  "kms_ok k \<longleftrightarrow> name_valid (kms_name k) \<and> distinct (servers k) \<and>
     list_all (\<lambda>s. s \<noteq> [] \<and> SPC \<notin> set s \<and> TAB \<notin> set s) (servers k) \<and> parse_port (port k) = Inr () \<and>
     abs_path (ca k) \<and> abs_path (client_cert k) \<and>
     (case client_key k of None \<Rightarrow> True | Some s \<Rightarrow> name_valid s) \<and>
     1 \<le> timeout_ms k \<and> timeout_ms k \<le> 600000"

definition config_ok :: "keysd_config \<Rightarrow> bool" where
  "config_ok cfg \<longleftrightarrow> 0 \<le> debug_level cfg \<and> debug_level cfg \<le> 3 \<and>
     distinct (map kms_name (kmip cfg)) \<and> list_all kms_ok (kmip cfg)"

definition ctx_ok :: "config_parse_ctx \<Rightarrow> bool" where
  "ctx_ok pc \<longleftrightarrow> config_ok (pcfg pc) \<and>
     (case pkms pc of None \<Rightarrow> True | Some i \<Rightarrow> i < length (kmip (pcfg pc)))"

lemma log_level_range: "dmn_parse_log_level nm = Inr l \<Longrightarrow> 0 \<le> l \<and> l \<le> 3"
  by (auto simp: dmn_parse_log_level_def level_names_def split: if_splits)

lemma timeout_range: "parse_timeout val = Inr t \<Longrightarrow> 1 \<le> t \<and> t \<le> 600000"
proof -
  assume "parse_timeout val = Inr t"
  then obtain u where u: "\<not> u < SHR_USEC_PER_MSEC" "\<not> u div SHR_USEC_PER_MSEC > KMIP_TIMEOUT_MAX_MS"
    "t = ucast (u div SHR_USEC_PER_MSEC)"
    by (auto simp: parse_timeout_def split: sum.splits if_splits)
  define q where "q = unat u div 1000"
  have q: "unat (u div SHR_USEC_PER_MSEC) = q" by (simp add: q_def unat_div SHR_USEC_PER_MSEC_def)
  have "1 \<le> q" "q \<le> 600000"
    using u(1,2) q by (auto simp: q_def word_less_nat_alt SHR_USEC_PER_MSEC_def KMIP_TIMEOUT_MAX_MS_def not_less
        div_greater_zero_iff Suc_le_eq)
  moreover from this have "unat t = q"
    using u(3) q by (simp add: unsigned_ucast_eq take_bit_nat_eq_self)
  ultimately show ?thesis by (simp add: word_le_nat_alt)
qed

lemma kmip_key_ok: "kms_ok kms \<Longrightarrow> kmip_key_result mok kms key val = Some (Inr kms') \<Longrightarrow>
  kms_ok kms' \<and> kms_name kms' = kms_name kms"
  by (auto simp: kmip_key_result_def kms_ok_def add_server_def set_str_def abs_path_def
      split: if_splits sum.splits dest: timeout_range)

lemma apply_kmip_key_ok:
  "kms_ok kms \<Longrightarrow> apply_kmip_key mok kms key val = (r, kms') \<Longrightarrow> kms_ok kms' \<and> kms_name kms' = kms_name kms"
  by (auto simp: apply_kmip_key_def split: option.splits sum.splits dest: kmip_key_ok)

lemma default_port: "parse_port KEYSD_KMIP_PORT = Inr ()"
proof -
  have "strtoull 10 ''5696'' = (5696, Some [], False)"
    by (simp add: strtoull_def strto_scan_def strto_mag_def is_digit_of_def digit_val_def ctype_defs
        digits_val_def char_le_iff)
  then show ?thesis by (simp add: parse_port_def KEYSD_KMIP_PORT_def)
qed

lemma add_kmip_ok:
  assumes "config_ok cfg" "add_kmip mok cfg nm = (cfg', k, r)"
  shows "config_ok cfg' \<and> (case k of None \<Rightarrow> True | Some i \<Rightarrow> i < length (kmip cfg'))"
proof -
  have "config_find_kmip cfg nm = None \<Longrightarrow> nm \<notin> kms_name ` set (kmip cfg)"
    by (auto simp: config_find_kmip_def find_None_iff)
  then show ?thesis using assms default_port
    by (auto simp: add_kmip_def config_ok_def kms_ok_def abs_path_def KEYSD_KMIP_TIMEOUT_MS_def
        split: if_splits)
qed

lemma map_update_same: "f y = f (xs ! i) \<Longrightarrow> map f (xs[i := y]) = map f xs"
  by (metis list_update_id map_update)

lemma config_event_keeps: "ctx_ok pc \<Longrightarrow> ctx_ok (snd (config_event mok ev sec key val line pc))"
proof (cases ev)
  case INI_SECTION
  then show "ctx_ok pc \<Longrightarrow> ?thesis"
    using add_kmip_ok [of "pcfg pc" "mok line"]
    by (auto simp: config_event_def ctx_ok_def Let_def split: option.splits prod.splits) (metis option.simps(5))+
next
  case INI_KV
  assume pc: "ctx_ok pc"
  show ?thesis
  proof (cases "pkms pc")
    case None
    have "config_ok (apply_global_key (pcfg pc) key v)" for v
      using pc log_level_range [of v]
      by (auto simp: apply_global_key_def ctx_ok_def config_ok_def split: sum.splits)
    then show ?thesis using INI_KV None pc by (auto simp: config_event_def ctx_ok_def)
  next
    case (Some i)
    obtain r kms where k: "apply_kmip_key (mok line) (kmip (pcfg pc) ! i) key (the val) = (r, kms)" by force
    have i: "i < length (kmip (pcfg pc))" "config_ok (pcfg pc)" using pc Some by (auto simp: ctx_ok_def)
    have "kms_ok (kmip (pcfg pc) ! i)" using i by (auto simp: config_ok_def list_all_length)
    from apply_kmip_key_ok [OF this k] have kms: "kms_ok kms" "kms_name kms = kms_name (kmip (pcfg pc) ! i)"
      by auto
    have "list_all kms_ok ((kmip (pcfg pc))[i := kms])"
      using i kms(1) by (auto simp: config_ok_def list_all_iff dest: set_update_subset_insert [THEN subsetD])
    then show ?thesis using INI_KV Some k i kms(2)
      by (simp add: config_event_def ctx_ok_def config_ok_def map_update_same)
  qed
qed (simp add: config_event_def)

text \<open>The callback is a client of the INI reader: whatever the file, the configuration under
  construction stays well-formed.\<close>

interpretation keysd_conf: ini_client "config_event mok" ctx_ok
  by unfold_locales (rule config_event_keeps)

lemma check_loop_filter:
  "i \<le> length ks \<Longrightarrow> list_all (\<lambda>k. \<not> kms_error k) (take i ks) \<Longrightarrow>
   check_loop i ks = filter (\<lambda>k. \<not> kms_error k) ks"
proof (induction i ks rule: check_loop.induct)
  case (1 i ks)
  show ?case
  proof (cases "i < length ks")
    case True
    then have s: "ks = take i ks @ ks ! i # drop (i + 1) ks" by (simp add: id_take_nth_drop)
    show ?thesis
    proof (cases "kms_error (ks ! i)")
      case err: True
      have "check_loop i ks = check_loop i (take i ks @ drop (i + 1) ks)"
        using True err by (subst check_loop.simps) simp
      also have "\<dots> = filter (\<lambda>k. \<not> kms_error k) (take i ks @ drop (i + 1) ks)"
        using 1 True err by (intro "1.IH"(2)) auto
      also have "\<dots> = filter (\<lambda>k. \<not> kms_error k) ks" using err by (subst (3) s) simp
      finally show ?thesis .
    next
      case ok: False
      then show ?thesis using 1 True
        by (subst check_loop.simps) (simp add: take_Suc_conv_app_nth)
    qed
  next
    case False
    then show ?thesis using 1 by (subst check_loop.simps) (simp add: list_all_iff filter_id_conv)
  qed
qed

text \<open>With memory, the callback never stops the reader.\<close>

lemma kmip_key_no_enomem: "kmip_key_result (\<lambda>_. True) kms key v \<noteq> Some (Inl ENOMEM)"
  using parse_time_error [of "Some v" SHR_USEC_PER_SEC ENOMEM]
  by (auto simp: kmip_key_result_def add_server_def set_str_def parse_port_def parse_timeout_def
      split: if_splits sum.splits prod.splits)

interpretation keysd_conf_mem: ini_total_client "config_event (\<lambda>_ _. True)" ctx_ok
proof unfold_locales
  fix st ev sec key val line
  have kv: "fst (apply_kmip_key (\<lambda>_. True) kms key v) = 0" for kms v
    unfolding apply_kmip_key_def
    by (auto split: option.splits sum.splits simp: kmip_key_no_enomem)
  have sec: "snd (snd (add_kmip (\<lambda>_. True) cfg nm)) = 0" for cfg nm
    by (simp add: add_kmip_def)
  show "fst (config_event (\<lambda>_ _. True) ev sec key val line st) = 0"
    using kv sec by (cases ev) (auto simp: config_event_def Let_def case_prod_beta split: option.splits)
qed

lemma initial_ctx: "ctx_ok \<lparr>pcfg = config_set_defaults \<lparr>debug_level = 0, kmip = []\<rparr>, pkms = None\<rparr>"
  by (simp add: ctx_ok_def config_ok_def config_set_defaults_def DMN_DEFAULT_LOGLEVEL_def)

lemma neg_errno_ENOMEM: "neg_errno e = neg_errno ENOMEM \<longleftrightarrow> e = ENOMEM \<or> e = Errno 12"
  by (auto simp: neg_errno_def split: errno.splits)

text \<open>C29: Whatever is in the file and whichever allocation fails, a configuration that
  \<open>config_load\<close> returns has a valid log level and lists only complete KMSes with distinct valid
  names, at least one server, distinct server names without blanks, a port that \<open>strtoul\<close> reads
  as 1 to 65535, absolute certificate paths, a client certificate exactly together with a valid
  key name, and a timeout of 1 ms to 10 minutes.\<close>

theorem keysd_config_load_ok:
  assumes "config_load mem mok conf = Some cfg"
  shows "config_ok cfg \<and> list_all (\<lambda>k. servers k \<noteq> [] \<and> (client_cert k = None \<longleftrightarrow> client_key k = None)) (kmip cfg)"
proof -
  obtain ret pc where p: "shr_ini_parse_file (Some conf) (Some (config_event mok))
      \<lparr>pcfg = config_set_defaults \<lparr>debug_level = 0, kmip = []\<rparr>, pkms = None\<rparr> = (ret, pc)" by force
  have "ctx_ok pc" using keysd_conf.parse_file_keeps [OF initial_ctx, of "Some conf" mok] p by simp
  then have ok: "config_ok (pcfg pc)" by (simp add: ctx_ok_def)
  have cfg: "cfg = (pcfg pc)\<lparr>kmip := filter (\<lambda>k. \<not> kms_error k) (kmip (pcfg pc))\<rparr>"
    using assms p check_loop_filter [of 0 "kmip (pcfg pc)"]
    by (auto simp: config_load_def check_kmip_def split: if_splits)
  show ?thesis using ok unfolding cfg
    by (auto simp: config_ok_def list_all_iff kms_error_def distinct_map_filter)
qed

theorem keysd_config_load_ok_witness:
  "let conf = \<lparr>stat1 = None, fopen_err = Some ENOENT, stat2 = None, fstat_res = Inl EIO,
               alloc_ok = True, fread_res = None\<rparr>;
       cfg = \<lparr>debug_level = 2, kmip = []\<rparr>
   in config_load True (\<lambda>_ _. True) conf = Some cfg \<and> config_ok cfg"
proof -
  have "config_load True (\<lambda>_ _. True) \<lparr>stat1 = None, fopen_err = Some ENOENT, stat2 = None,
      fstat_res = Inl EIO, alloc_ok = True, fread_res = None\<rparr> = Some \<lparr>debug_level = 2, kmip = []\<rparr>"
    by (simp add: config_load_def shr_ini_parse_file_def shr_ini_read_file_def config_set_defaults_def
        DMN_DEFAULT_LOGLEVEL_def check_kmip_def check_loop.simps neg_errno_def)
  then show ?thesis using keysd_config_load_ok [of True "\<lambda>_ _. True"] by (metis (no_types))
qed

text \<open>With enough memory \<open>config_load\<close> always returns a configuration, as its header promises,
  unless the operating system itself reports ENOMEM for the file: no content of the file makes it
  fail.\<close>

theorem keysd_config_load_total:
  assumes "shr_ini_read_file (Some conf) \<noteq> Inl ENOMEM" "shr_ini_read_file (Some conf) \<noteq> Inl (Errno 12)"
  shows "\<exists>cfg. config_load True (\<lambda>_ _. True) conf = Some cfg"
proof -
  have "fst (shr_ini_parse_file (Some conf) (Some (config_event (\<lambda>_ _. True)))
      \<lparr>pcfg = config_set_defaults \<lparr>debug_level = 0, kmip = []\<rparr>, pkms = None\<rparr>) \<noteq> neg_errno ENOMEM"
    using keysd_conf_mem.parse_file_result [OF initial_ctx, of "Some conf"] assms neg_errno_ENOMEM
    by (auto simp: neg_errno_def [of ENOMEM] split: sum.splits)
  then show ?thesis by (auto simp: config_load_def Let_def case_prod_beta)
qed

theorem keysd_config_load_total_witness:
  "\<exists>cfg. config_load True (\<lambda>_ _. True) \<lparr>stat1 = None, fopen_err = None, stat2 = None,
     fstat_res = Inr (Regular, 3), alloc_ok = True, fread_res = Some ''[x]''\<rparr> = Some cfg"
  by (rule keysd_config_load_total) (simp_all add: shr_ini_read_file_def INI_FILE_MAX_def)

text \<open>After a malformed section header the INI reader reports keys with no section, so that
  they are not attributed to the previous one; the callback ignores this and keeps applying them
  to the KMS of the section before: here the second \<open>server\<close> line, written under a header that
  lacks its bracket, ends up in the KMS \<open>a\<close>.\<close>

theorem keysd_misattributes_keys:
  "map (\<lambda>k. (kms_name k, servers k)) (kmip (pcfg (snd (parse_lines
     (''[kmip:a]'' @ [LF] @ ''server = x'' @ [LF] @ ''[kmip:b'' @ [LF] @ ''server = y'')
     (config_event (\<lambda>_ _. True)) \<lparr>pcfg = \<lparr>debug_level = 2, kmip = []\<rparr>, pkms = None\<rparr>)))) =
   [(''a'', [''x'', ''y''])]"
  by code_simp

text \<open>A port is accepted with a sign: \<open>strtoul\<close> takes one, and wraps a negative number
  around, so that the text stored for \<open>getaddrinfo\<close> need not be a port number.\<close>

theorem keysd_port_accepts_sign:
  "parse_port ''+5696'' = Inr () \<and> parse_port ''-18446744073709551615'' = Inr ()"
proof -
  have "strtoull 10 ''+5696'' = (5696, Some [], False)"
    by (simp add: strtoull_def strto_scan_def strto_mag_def is_digit_of_def digit_val_def ctype_defs
        digits_val_def char_le_iff)
  moreover have "strtoull 10 ''-18446744073709551615'' = (1, Some [], False)"
    by (simp add: strtoull_def strto_scan_def strto_mag_def is_digit_of_def digit_val_def ctype_defs
        digits_val_def char_le_iff)
  ultimately show ?thesis by (simp add: parse_port_def)
qed

end
