(* ===== verification/DiscoverdConfig.thy ===== *)
theory DiscoverdConfig
  imports KeysdConfig
begin

text \<open>
  The configuration of the discovery daemon, \<open>discoverd/src/config.c\<close>, the second client of the
  INI reader.  A line with a bad value is logged and leaves the setting as it was.
\<close>

section \<open>Model\<close>

record discoverd_config =
  nbft :: bool
  dbg_level :: int
  fc_kickstart_interval_minutes :: u32
  epcsd_poll_interval_minutes :: u32
  dc_giveup_timeout_usec :: u64
  zeroconf :: bool


text \<open>\<open>strtoul\<close> has 64 bits; on overflow it returns ULONG_MAX, which is above UINT_MAX.\<close>

definition parse_uint :: "string \<Rightarrow> u32 res" where
  "parse_uint val =
     (if cget val 0 = CHR ''-'' then Inl EINVAL
      else (case strtoull 10 val of (v, end, erange) \<Rightarrow>
             if end \<noteq> Some [] \<or> v > 0xFFFFFFFF then Inl EINVAL else Inr (ucast v)))"

definition parse_epcsd_poll_interval :: "string \<Rightarrow> u32 res" where
  "parse_epcsd_poll_interval val = (case parse_uint val of
      Inl e \<Rightarrow> Inl e
    | Inr v \<Rightarrow> if v = 0 then Inl EINVAL else Inr v)"

text \<open>The appliers: the configuration afterwards, and whether the key is known.\<close>

definition set_field :: "'a res \<Rightarrow> ('a \<Rightarrow> 'c) \<Rightarrow> 'c \<Rightarrow> 'c" where
  "set_field r f cfg = (case r of Inl e \<Rightarrow> cfg | Inr v \<Rightarrow> f v)"

definition discoverd_global_key :: "discoverd_config \<Rightarrow> string \<Rightarrow> string \<Rightarrow> discoverd_config \<times> bool" where
  "discoverd_global_key cfg key val =
     (if key = ''nbft'' then (set_field (shr_parse_bool val) (\<lambda>b. cfg\<lparr>nbft := b\<rparr>) cfg, True)
      else if key = ''debug-level'' then
        (set_field (dmn_parse_log_level val) (\<lambda>l. cfg\<lparr>dbg_level := l\<rparr>) cfg, True)
      else (cfg, False))"

definition apply_discovery_key :: "discoverd_config \<Rightarrow> string \<Rightarrow> string \<Rightarrow> discoverd_config \<times> bool" where
  "apply_discovery_key cfg key val =
     (if key = ''epcsd-poll-interval-minutes'' then
        (set_field (parse_epcsd_poll_interval val) (\<lambda>v. cfg\<lparr>epcsd_poll_interval_minutes := v\<rparr>) cfg, True)
      else if key = ''fc-kickstart-interval-minutes'' then
        (set_field (parse_uint val) (\<lambda>v. cfg\<lparr>fc_kickstart_interval_minutes := v\<rparr>) cfg, True)
      else if key = ''dc-giveup-timeout'' then
        (set_field (shr_parse_time (Some val) SHR_USEC_PER_SEC) (\<lambda>v. cfg\<lparr>dc_giveup_timeout_usec := v\<rparr>) cfg, True)
      else if key = ''zeroconf'' then
        (set_field (shr_parse_bool val) (\<lambda>b. cfg\<lparr>zeroconf := b\<rparr>) cfg, True)
      else (cfg, False))"

definition discoverd_apply_key :: "discoverd_config \<Rightarrow> bool \<Rightarrow> string \<Rightarrow> string \<Rightarrow> discoverd_config" where
  "discoverd_apply_key cfg global key val =
     fst (if global then discoverd_global_key cfg key val else apply_discovery_key cfg key val)"

definition discoverd_config_event :: "discoverd_config ini_callback" where
  "discoverd_config_event ev sec key val line cfg = (case ev of
      INI_SECTION \<Rightarrow> (0, cfg)
    | INI_KV \<Rightarrow> (if sec = Some ''Global'' \<or> sec = Some ''Discovery''
                 then (0, discoverd_apply_key cfg (sec = Some ''Global'') key (the val))
                 else (0, cfg))
    | INI_JUNK \<Rightarrow> (0, cfg))"


section \<open>The settings stay usable\<close>





















text \<open>The keys of \<open>[Discovery]\<close> are unknown in \<open>[Global]\<close> and change nothing there, although the comment of \<open>config.h\<close>
  says that they are still accepted.\<close>

lemma discovery_keys_ignored_in_global:
  assumes "key \<in> {''epcsd-poll-interval-minutes'', ''fc-kickstart-interval-minutes'', ''dc-giveup-timeout'', ''zeroconf''}"
  shows "discoverd_config_event INI_KV (Some ''Global'') key val line cfg = (0, cfg)"
  using assms by (auto simp: discoverd_config_event_def discoverd_apply_key_def discoverd_global_key_def)

end
