(* ===== verification/Exclusion.thy ===== *)
theory Exclusion
  imports Tid
begin

text \<open>
  The system-wide exclusion list of NVMe-oF paths, \<open>libnvme/src/nvme/exclusion.c\<close> (with
  \<open>shared/hash-util.h\<close>): the hand-edited main file and the drop-in lists, their line format, the match of
  a transport ID against the entries, and the operations that create, extend, shorten, read and
  replace a list.

  The files are a map from paths to contents; \<open>listing\<close> is what \<open>readdir\<close> returns for the drop-in
  directory.  What the system decides is the record \<open>sys\<close>: for each call the errno it fails with, or
  None.  The temporary files are not part of the map: they are renamed over the list or unlinked.
  \<open>net\<close> is the C library's address conversion of theory \<open>Net\<close>; memory is not exhausted.
\<close>

section \<open>Paths\<close>

definition PATH_MAX :: nat where "PATH_MAX = 4096"
definition NAME_MAX :: nat where "NAME_MAX = 255"
definition EXCL_LINE_MAX :: nat where "EXCL_LINE_MAX = 4096"
definition EXCL_FILE_MAX :: nat where "EXCL_FILE_MAX = 1048576"
definition EXCL_SECTION :: string where "EXCL_SECTION = ''exclusions''"
definition EXCL_LINE_KEY :: string where "EXCL_LINE_KEY = ''exclusion''"
definition EXCL_MAIN_NAME :: string where "EXCL_MAIN_NAME = ''exclusions.conf''"
definition EXCL_DROPIN_NAME :: string where "EXCL_DROPIN_NAME = ''exclusions.conf.d''"

text \<open>\<open>snprintf\<close> into a buffer of \<open>n\<close> bytes, refused when truncated.\<close>

definition fits :: "nat \<Rightarrow> string \<Rightarrow> string option" where
  "fits n s = (if 0 < length s \<and> length s < n then Some s else None)"

text \<open>The context: \<open>SYSCONFDIR\<close> of the build and the test sandbox.\<close>

record excl_ctx =
  sysconfdir :: string
  test_base_dir :: "string option"

definition excl_base_default :: "excl_ctx \<Rightarrow> string" where
  "excl_base_default ctx = sysconfdir ctx @ ''/nvme''"

definition excl_base :: "excl_ctx \<Rightarrow> string" where
  "excl_base ctx = (case test_base_dir ctx of Some d \<Rightarrow> d | None \<Rightarrow> excl_base_default ctx)"

text \<open>The path and the new value of the static cache.\<close>

definition excl_fixed_path ::
  "excl_ctx \<Rightarrow> string \<Rightarrow> string \<Rightarrow> string option \<Rightarrow> nat \<Rightarrow> string option \<times> string option" where
  "excl_fixed_path ctx prod_path name cache len =
     (case cache of
        Some c \<Rightarrow> (Some c, cache)
      | None \<Rightarrow>
          (let c = (case test_base_dir ctx of
                      None \<Rightarrow> Some prod_path
                    | Some d \<Rightarrow> fits len (d @ ''/'' @ name))
           in (c, c)))"

text \<open>A process is in one sandbox or in none, so that a filled cache holds what an empty one would
  be filled with.\<close>

definition excl_dropin_dir :: "excl_ctx \<Rightarrow> string option" where
  "excl_dropin_dir ctx =
     fst (excl_fixed_path ctx (excl_base_default ctx @ ''/'' @ EXCL_DROPIN_NAME) EXCL_DROPIN_NAME None PATH_MAX)"

definition excl_main_path :: "excl_ctx \<Rightarrow> string option" where
  "excl_main_path ctx =
     fst (excl_fixed_path ctx (excl_base_default ctx @ ''/'' @ EXCL_MAIN_NAME) EXCL_MAIN_NAME None PATH_MAX)"

definition excl_dir :: "excl_ctx \<Rightarrow> string option \<Rightarrow> string option" where
  "excl_dir ctx name = (if name \<noteq> None then excl_dropin_dir ctx else Some (excl_base ctx))"

text \<open>Without a drop-in directory the path of a named list would be built from a null pointer; the
  model has no path then.\<close>

definition excl_path :: "excl_ctx \<Rightarrow> string option \<Rightarrow> string option" where
  "excl_path ctx name =
     (case name of
        None \<Rightarrow> excl_main_path ctx
      | Some n \<Rightarrow>
          if \<not> shr_valid_name (Some n) then None
          else (case excl_dropin_dir ctx of
                  None \<Rightarrow> None
                | Some dir \<Rightarrow> fits PATH_MAX (dir @ ''/'' @ n @ ''.conf'')))"

text \<open>The outcome of the system calls of one operation.\<close>

record sysres =
  mkdir_res :: "errno option"
  fopen_ok :: bool
  mkstemp_res :: "errno option"
  fchmod_res :: "errno option"
  fdopen_res :: "errno option"
  flush_res :: "errno option"
  close_res :: "errno option"
  rename_res :: "errno option"
  unlink_res :: "errno option"
  open_res :: "errno option"
  opendir_res :: "errno option"
  lock_res :: "errno option"
  read_res :: "errno option"
  write_res :: "errno option"
  fsync_res :: "errno option"

definition all_ok :: sysres where
  "all_ok = \<lparr>mkdir_res = None, fopen_ok = True, mkstemp_res = None, fchmod_res = None, fdopen_res = None,
     flush_res = None, close_res = None, rename_res = None, unlink_res = None, open_res = None, opendir_res = None,
     lock_res = None, read_res = None, write_res = None, fsync_res = None\<rparr>"

definition ensure_excl_dir :: "excl_ctx \<Rightarrow> sysres \<Rightarrow> string option \<Rightarrow> errno option" where
  "ensure_excl_dir ctx sys name = (case excl_dir ctx name of None \<Rightarrow> Some ENAMETOOLONG | Some dir \<Rightarrow> mkdir_res sys)"

definition excl_tmp :: "string \<Rightarrow> string option" where
  "excl_tmp dir = fits PATH_MAX (dir @ ''/.excl.tmp.XXXXXX'')"

section \<open>Matching one entry\<close>

definition addr_equal :: "inet \<Rightarrow> string option \<Rightarrow> string option \<Rightarrow> string option \<Rightarrow> bool" where
  "addr_equal net entry_val caller_val tr =
     (if shr_streq0 tr (Some ''fc'') then shr_streqcase0 entry_val caller_val
      else shr_ipaddrs_eq net True False entry_val caller_val \<or> shr_streq0 entry_val caller_val)"

definition tid_subset_match :: "inet \<Rightarrow> tid \<Rightarrow> tid \<Rightarrow> bool" where
  "tid_subset_match net e t =
     (if transport e \<noteq> None \<and> \<not> shr_streq0 (transport e) (transport t) then False
      else if traddr e \<noteq> None \<and> \<not> (traddr t \<noteq> None \<and> addr_equal net (traddr e) (traddr t) (transport t)) then False
      else if trsvcid e \<noteq> None \<and> \<not> shr_streq0 (trsvcid e) (trsvcid t) then False
      else if subsysnqn e \<noteq> None \<and> \<not> shr_streq0 (subsysnqn e) (subsysnqn t) then False
      else if host_traddr e \<noteq> None \<and>
              \<not> (host_traddr t \<noteq> None \<and> addr_equal net (host_traddr e) (host_traddr t) (transport t)) then False
      else if host_iface e \<noteq> None \<and> \<not> shr_streq0 (host_iface e) (host_iface t) then False
      else if hostnqn e \<noteq> None \<and> \<not> shr_streq0 (hostnqn e) (hostnqn t) then False
      else if hostid e \<noteq> None \<and> \<not> shr_streq0 (hostid e) (hostid t) then False
      else True)"

abbreviation mem_ok :: "nat \<Rightarrow> bool" where "mem_ok \<equiv> \<lambda>_. True"

definition entry_matches :: "inet \<Rightarrow> string \<Rightarrow> tid \<Rightarrow> bool" where
  "entry_matches net entry t =
     (case libnvmf_tid_parse_strict_at_level net mem_ok True True ''DEBUG'' (Some entry) of
        Inl rc \<Rightarrow> False
      | Inr e \<Rightarrow> if libnvmf_tid_is_empty (Some e) then False else tid_subset_match net e t)"

definition entry_valid :: "inet \<Rightarrow> string option \<Rightarrow> bool" where
  "entry_valid net entry =
     (case libnvmf_tid_parse_strict net mem_ok True True entry of
        Inl rc \<Rightarrow> False
      | Inr e \<Rightarrow> \<not> libnvmf_tid_is_empty (Some e))"

definition libnvmf_exclusion_entry_valid :: "inet \<Rightarrow> bool \<Rightarrow> string option \<Rightarrow> bool" where
  "libnvmf_exclusion_entry_valid net ctx_ok entry = (if \<not> ctx_ok then False else entry_valid net entry)"

section \<open>Lines\<close>

datatype excl_line_type =
    EXCL_LINE_IGNORE | EXCL_LINE_SECTION | EXCL_LINE_ENTRY string | EXCL_LINE_STRAY | EXCL_LINE_JUNK

text \<open>The type of the line - with \<open>*val\<close> where it is set - and the new \<open>in_excl\<close>.\<close>

definition classify_line :: "string \<Rightarrow> bool \<Rightarrow> excl_line_type \<times> bool" where
  "classify_line s in_excl =
     (if s = [] \<or> hd s = CHR ''#'' then (EXCL_LINE_IGNORE, in_excl)
      else if hd s = CHR ''['' then
        (if CHR '']'' \<notin> set s then (EXCL_LINE_JUNK, False)
         else (EXCL_LINE_SECTION, shr_trim (tl (takeWhile (\<lambda>c. c \<noteq> CHR '']'') s)) = EXCL_SECTION))
      else if CHR ''='' \<notin> set s then (EXCL_LINE_IGNORE, in_excl)
      else if shr_trim (takeWhile (\<lambda>c. c \<noteq> CHR ''='') s) \<noteq> EXCL_LINE_KEY then (EXCL_LINE_IGNORE, in_excl)
      else if \<not> in_excl then (EXCL_LINE_STRAY, in_excl)
      else (EXCL_LINE_ENTRY (shr_trim (tl (dropWhile (\<lambda>c. c \<noteq> CHR ''='') s))), in_excl))"

text \<open>\<open>fgets\<close> with a buffer of \<open>n + 1\<close> bytes: up to \<open>n\<close> characters, and no further than a newline.
  The string functions then see a line up to its first NUL.\<close>

definition fgets_line :: "nat \<Rightarrow> string \<Rightarrow> string" where
  "fgets_line n s = (let l = takeWhile (\<lambda>c. c \<noteq> LF) s
                     in if length l < n then (if length l < length s then l @ [LF] else l) else take n s)"

function fgets_lines :: "nat \<Rightarrow> string \<Rightarrow> string list" where
  "fgets_lines n s =
     (if s = [] \<or> n = 0 then []
      else fgets_line n s # fgets_lines n (drop (length (fgets_line n s)) s))"
  by pat_completeness auto
termination by (relation "measure (\<lambda>(n, s). length s)") (auto simp: fgets_line_def Let_def)

declare fgets_lines.simps [simp del]

definition cstr :: "string \<Rightarrow> string" where
  "cstr s = takeWhile (\<lambda>c. c \<noteq> NUL) s"

definition file_lines :: "string \<Rightarrow> string list" where
  "file_lines content = map cstr (fgets_lines (EXCL_LINE_MAX - 1) content)"

text \<open>\<open>scan_conf_file\<close>: whether \<open>fn\<close> accepts an entry; the calls of \<open>fn\<close> are the entries up to the
  first accepted one.\<close>

fun scan_lines :: "(string \<Rightarrow> bool) \<Rightarrow> string list \<Rightarrow> bool \<Rightarrow> bool" where
  "scan_lines fn [] in_excl = False"
| "scan_lines fn (line # lines) in_excl =
     (case classify_line (shr_trim line) in_excl of
        (EXCL_LINE_ENTRY val, in_excl') \<Rightarrow> if fn val then True else scan_lines fn lines in_excl'
      | (_, in_excl') \<Rightarrow> scan_lines fn lines in_excl')"

definition scan_conf_file :: "(string \<rightharpoonup> string) \<Rightarrow> string \<Rightarrow> (string \<Rightarrow> bool) \<Rightarrow> bool" where
  "scan_conf_file files path fn =
     (case files path of None \<Rightarrow> False | Some content \<Rightarrow> scan_lines fn (file_lines content) False)"

text \<open>\<open>strrchr\<close> with a dot, compared with the suffix; the name must not be empty.\<close>

definition conf_name :: "string \<Rightarrow> string option" where
  "conf_name d =
     (if CHR ''.'' \<notin> set d then None
      else (let ext = rev (takeWhile (\<lambda>c. c \<noteq> CHR ''.'') (rev d)); n = length d - length ext - 1
            in if ext \<noteq> ''conf'' then None else if n = 0 then None else Some (take n d)))"

fun match_dropins :: "inet \<Rightarrow> (string \<rightharpoonup> string) \<Rightarrow> string \<Rightarrow> tid \<Rightarrow> string list \<Rightarrow> bool" where
  "match_dropins net files dir t [] = False"
| "match_dropins net files dir t (d # ds) =
     (case conf_name d of
        None \<Rightarrow> match_dropins net files dir t ds
      | Some n \<Rightarrow>
          if length (dir @ ''/'' @ d) \<ge> PATH_MAX then match_dropins net files dir t ds
          else if scan_conf_file files (dir @ ''/'' @ d) (\<lambda>entry. entry_matches net entry t) then True
          else match_dropins net files dir t ds)"

definition libnvmf_exclusion_match ::
  "inet \<Rightarrow> excl_ctx option \<Rightarrow> (string \<rightharpoonup> string) \<Rightarrow> string list option \<Rightarrow> tid option \<Rightarrow> bool" where
  "libnvmf_exclusion_match net ctx files listing tid =
     (case (ctx, tid) of
        (Some ctx, Some t) \<Rightarrow>
          if (case excl_main_path ctx of None \<Rightarrow> False
              | Some mainp \<Rightarrow> scan_conf_file files mainp (\<lambda>entry. entry_matches net entry t)) then True
          else (case excl_dropin_dir ctx of
                  None \<Rightarrow> False
                | Some dir \<Rightarrow> (case listing of None \<Rightarrow> False | Some ds \<Rightarrow> match_dropins net files dir t ds))
      | _ \<Rightarrow> False)"

text \<open>The names \<open>callback\<close> gets, and the entries it gets.\<close>

definition libnvmf_exclusion_list_for_each ::
  "excl_ctx option \<Rightarrow> sysres \<Rightarrow> string list \<Rightarrow> string list res" where
  "libnvmf_exclusion_list_for_each ctx sys listing =
     (case ctx of
        None \<Rightarrow> Inl EINVAL
      | Some ctx \<Rightarrow>
          (case excl_dropin_dir ctx of
             None \<Rightarrow> Inl ENAMETOOLONG
           | Some dir \<Rightarrow>
               (case opendir_res sys of
                  Some ENOENT \<Rightarrow> Inr []
                | Some e \<Rightarrow> Inl e
                | None \<Rightarrow> Inr (filter (\<lambda>n. length n < NAME_MAX) (List.map_filter conf_name listing)))))"

fun line_entries :: "string list \<Rightarrow> bool \<Rightarrow> string list" where
  "line_entries [] in_excl = []"
| "line_entries (line # lines) in_excl =
     (case classify_line (shr_trim line) in_excl of
        (EXCL_LINE_ENTRY val, in_excl') \<Rightarrow> val # line_entries lines in_excl'
      | (_, in_excl') \<Rightarrow> line_entries lines in_excl')"

definition libnvmf_exclusion_entry_for_each ::
  "excl_ctx option \<Rightarrow> (string \<rightharpoonup> string) \<Rightarrow> string option \<Rightarrow> string list res" where
  "libnvmf_exclusion_entry_for_each ctx files name =
     (case ctx of
        None \<Rightarrow> Inl EINVAL
      | Some ctx \<Rightarrow>
          (case excl_path ctx name of
             None \<Rightarrow> Inl EINVAL
           | Some path \<Rightarrow>
               (case files path of
                  None \<Rightarrow> Inl ENOENT
                | Some content \<Rightarrow> Inr (line_entries (file_lines content) False))))"

section \<open>Creating and deleting a list\<close>

type_synonym files = "string \<rightharpoonup> string"

definition excl_header :: "string option \<Rightarrow> string" where
  "excl_header name = ''# NVMe-oF exclusion list: '' @ (case name of Some n \<Rightarrow> n | None \<Rightarrow> ''default'') @ [LF] @
     ''# Format: exclusion = key=val;key=val'' @ [LF] @
     ''# Keys: transport, traddr, trsvcid, nqn, host-traddr, host-iface, hostnqn, hostid'' @ [LF] @ [LF] @
     ''['' @ EXCL_SECTION @ '']'' @ [LF]"

definition libnvmf_exclusion_create ::
  "excl_ctx option \<Rightarrow> sysres \<Rightarrow> string option \<Rightarrow> files \<Rightarrow> errno option \<times> files" where
  "libnvmf_exclusion_create ctx sys name files =
     (case ctx of
        None \<Rightarrow> (Some EINVAL, files)
      | Some ctx \<Rightarrow>
          (case ensure_excl_dir ctx sys name of
             Some e \<Rightarrow> (Some e, files)
           | None \<Rightarrow>
               (case excl_path ctx name of
                  None \<Rightarrow> (Some EINVAL, files)
                | Some path \<Rightarrow>
                    if files path \<noteq> None then (Some EEXIST, files)
                    else (case open_res sys of
                            Some e \<Rightarrow> (Some e, files)
                          | None \<Rightarrow> (case fchmod_res sys of
                                       Some e \<Rightarrow> (Some e, files(path := None))
                                     | None \<Rightarrow> (None, files(path \<mapsto> excl_header name)))))))"

definition libnvmf_exclusion_delete ::
  "excl_ctx option \<Rightarrow> sysres \<Rightarrow> string option \<Rightarrow> files \<Rightarrow> errno option \<times> files" where
  "libnvmf_exclusion_delete ctx sys name files =
     (case ctx of
        None \<Rightarrow> (Some EINVAL, files)
      | Some ctx \<Rightarrow>
          (case excl_path ctx name of
             None \<Rightarrow> (Some EINVAL, files)
           | Some path \<Rightarrow>
               if files path = None then (Some ENOENT, files)
               else (case unlink_res sys of Some e \<Rightarrow> (Some e, files) | None \<Rightarrow> (None, files(path := None)))))"

section \<open>Adding and removing an entry\<close>

text \<open>The copy loop of \<open>libnvmf_exclusion_add\<close>: \<open>in_excl\<close> and \<open>has_section\<close> at its end.\<close>

fun add_scan :: "string list \<Rightarrow> bool \<Rightarrow> bool \<Rightarrow> bool \<times> bool" where
  "add_scan [] in_excl has_section = (in_excl, has_section)"
| "add_scan (line # lines) in_excl has_section =
     (case classify_line (shr_trim line) in_excl of (_, in_excl') \<Rightarrow> add_scan lines in_excl' (has_section \<or> in_excl'))"

text \<open>The new content, from the old one if the file could be opened.\<close>

definition add_content :: "string option \<Rightarrow> string option \<Rightarrow> string \<Rightarrow> string" where
  "add_content name old entry =
     (case old of
        Some content \<Rightarrow>
          concat (file_lines content) @
          (case add_scan (file_lines content) False False of (in_excl, has_section) \<Rightarrow>
             if \<not> has_section \<or> \<not> in_excl then [LF] @ ''['' @ EXCL_SECTION @ '']'' @ [LF] else [])
      | None \<Rightarrow> excl_header name) @
     EXCL_LINE_KEY @ '' = '' @ entry @ [LF]"

text \<open>What follows the temporary file's creation is the same in both operations: the error, or
  the list replaced by the new content.\<close>

definition commit :: "sysres \<Rightarrow> string \<Rightarrow> string \<Rightarrow> files \<Rightarrow> errno option \<times> files" where
  "commit sys path content files =
     (case flush_res sys of Some e \<Rightarrow> (Some e, files)
      | None \<Rightarrow> (case close_res sys of Some e \<Rightarrow> (Some e, files)
      | None \<Rightarrow> (case rename_res sys of Some e \<Rightarrow> (Some e, files)
      | None \<Rightarrow> (None, files(path \<mapsto> content)))))"

definition open_tmp :: "sysres \<Rightarrow> errno option" where
  "open_tmp sys =
     (case mkstemp_res sys of Some e \<Rightarrow> Some e
      | None \<Rightarrow> (case fchmod_res sys of Some e \<Rightarrow> Some e | None \<Rightarrow> fdopen_res sys))"

definition libnvmf_exclusion_add ::
  "inet \<Rightarrow> excl_ctx option \<Rightarrow> sysres \<Rightarrow> string option \<Rightarrow> string option \<Rightarrow> files \<Rightarrow> errno option \<times> files" where
  "libnvmf_exclusion_add net ctx sys name entry files =
     (case ctx of
        None \<Rightarrow> (Some EINVAL, files)
      | Some ctx \<Rightarrow>
          (case entry of
             None \<Rightarrow> (Some EINVAL, files)
           | Some ent \<Rightarrow>
               if \<not> entry_valid net (Some ent) then (Some EINVAL, files)
               else (case ensure_excl_dir ctx sys name of
                       Some e \<Rightarrow> (Some e, files)
                     | None \<Rightarrow>
                         (case excl_path ctx name of
                            None \<Rightarrow> (Some EINVAL, files)
                          | Some path \<Rightarrow>
                              (case (case excl_dir ctx name of None \<Rightarrow> None | Some dir \<Rightarrow> excl_tmp dir) of
                                 None \<Rightarrow> (Some ENAMETOOLONG, files)
                               | Some tmp \<Rightarrow>
                                   (case open_tmp sys of
                                      Some e \<Rightarrow> (Some e, files)
                                    | None \<Rightarrow>
                                        commit sys path
                                          (add_content name (if fopen_ok sys then files path else None) ent) files))))))"

text \<open>The transport parameters of a controller.\<close>

record excl_ctrl =
  c_transport :: "string option"
  c_traddr :: "string option"
  c_trsvcid :: "string option"
  c_subsysnqn :: "string option"
  c_host_iface :: "string option"

definition append_max :: "nat \<Rightarrow> string \<Rightarrow> string \<Rightarrow> string" where
  "append_max len buf s = (if length buf < len then buf @ s else buf)"

definition append_set :: "nat \<Rightarrow> string \<Rightarrow> string option \<Rightarrow> string \<Rightarrow> string" where
  "append_set len key f buf =
     (case f of None \<Rightarrow> buf | Some v \<Rightarrow> if v \<noteq> [] then append_max len buf ('';'' @ key @ ''='' @ v) else buf)"

definition excl_entry_from_ctrl :: "excl_ctrl \<Rightarrow> nat \<Rightarrow> string res" where
  "excl_entry_from_ctrl c len =
     (case (c_transport c, c_traddr c, c_subsysnqn c) of
        (Some tr, Some ta, Some nqn) \<Rightarrow>
          (let b1 = append_max len [] (''transport='' @ tr @ '';traddr='' @ ta);
               b2 = append_set len ''trsvcid'' (c_trsvcid c) b1;
               b3 = append_max len b2 ('';nqn='' @ nqn);
               b4 = append_set len ''host-iface'' (c_host_iface c) b3
           in if 0 < length b4 \<and> length b4 < len then Inr b4 else Inl ENAMETOOLONG)
      | _ \<Rightarrow> Inl EINVAL)"

definition libnvmf_exclusion_add_ctrl ::
  "inet \<Rightarrow> excl_ctx option \<Rightarrow> sysres \<Rightarrow> string option \<Rightarrow> excl_ctrl option \<Rightarrow> files \<Rightarrow> errno option \<times> files" where
  "libnvmf_exclusion_add_ctrl net ctx sys name c files =
     (case (ctx, c) of
        (Some x, Some ctrl) \<Rightarrow>
          (case excl_entry_from_ctrl ctrl EXCL_LINE_MAX of
             Inl e \<Rightarrow> (Some e, files)
           | Inr entry \<Rightarrow> libnvmf_exclusion_add net ctx sys name (Some entry) files)
      | _ \<Rightarrow> (Some EINVAL, files))"

definition libnvmf_exclusion_add_subsysnqn ::
  "inet \<Rightarrow> excl_ctx option \<Rightarrow> sysres \<Rightarrow> string option \<Rightarrow> string option \<Rightarrow> files \<Rightarrow> errno option \<times> files" where
  "libnvmf_exclusion_add_subsysnqn net ctx sys name nqn files =
     (case (ctx, nqn) of
        (Some x, Some n) \<Rightarrow>
          if n = [] then (Some EINVAL, files)
          else (case fits EXCL_LINE_MAX (''nqn='' @ n) of
                  None \<Rightarrow> (Some ENAMETOOLONG, files)
                | Some entry \<Rightarrow> libnvmf_exclusion_add net ctx sys name (Some entry) files)
      | _ \<Rightarrow> (Some EINVAL, files))"

text \<open>The lines that are written, and whether one was left out.\<close>

fun remove_scan :: "string \<Rightarrow> string list \<Rightarrow> bool \<Rightarrow> bool \<Rightarrow> string list \<times> bool" where
  "remove_scan entry [] in_excl removed = ([], removed)"
| "remove_scan entry (line # lines) in_excl removed =
     (case classify_line (shr_trim line) in_excl of (ty, in_excl') \<Rightarrow>
        if ty = EXCL_LINE_ENTRY entry \<and> \<not> removed then remove_scan entry lines in_excl' True
        else (case remove_scan entry lines in_excl' removed of (out, r) \<Rightarrow> (line # out, r)))"

definition libnvmf_exclusion_remove ::
  "excl_ctx option \<Rightarrow> sysres \<Rightarrow> string option \<Rightarrow> string \<Rightarrow> files \<Rightarrow> errno option \<times> files" where
  "libnvmf_exclusion_remove ctx sys name entry files =
     (case ctx of
        None \<Rightarrow> (Some EINVAL, files)
      | Some ctx \<Rightarrow>
          (case excl_path ctx name of
             None \<Rightarrow> (Some EINVAL, files)
           | Some path \<Rightarrow>
               (case (if fopen_ok sys then files path else None) of
                  None \<Rightarrow> (Some ENOENT, files)
                | Some content \<Rightarrow>
                    (case (case excl_dir ctx name of None \<Rightarrow> None | Some dir \<Rightarrow> excl_tmp dir) of
                       None \<Rightarrow> (Some ENAMETOOLONG, files)
                     | Some tmp \<Rightarrow>
                         (case open_tmp sys of
                            Some e \<Rightarrow> (Some e, files)
                          | None \<Rightarrow>
                              (case remove_scan entry (file_lines content) False False of (out, removed) \<Rightarrow>
                                 if flush_res sys \<noteq> None then (flush_res sys, files)
                                 else if close_res sys \<noteq> None then (close_res sys, files)
                                 else if \<not> removed then (Some ENOENT, files)
                                 else (case rename_res sys of
                                         Some e \<Rightarrow> (Some e, files)
                                       | None \<Rightarrow> (None, files(path \<mapsto> concat out)))))))))"

section \<open>Reading and replacing a list\<close>

definition shr_fnv1a_64 :: "bytes \<Rightarrow> u64" where
  "shr_fnv1a_64 buf = foldl (\<lambda>hash b. (hash XOR ucast b) * 1099511628211) 14695981039346656037 buf"

definition content_hash :: "string \<Rightarrow> u64" where
  "content_hash buf = (let h = shr_fnv1a_64 (map of_char buf) in if h \<noteq> 0 then h else 1)"

definition slurp :: "sysres \<Rightarrow> string \<Rightarrow> files \<Rightarrow> string res" where
  "slurp sys path files =
     (case files path of
        None \<Rightarrow> Inl ENOENT
      | Some content \<Rightarrow>
          (case open_res sys of
             Some e \<Rightarrow> Inl e
           | None \<Rightarrow>
               if length content > EXCL_FILE_MAX then Inl EFBIG
               else (case read_res sys of Some e \<Rightarrow> Inl e | None \<Rightarrow> Inr content)))"

definition hash_file :: "sysres \<Rightarrow> string \<Rightarrow> files \<Rightarrow> u64 res" where
  "hash_file sys path files =
     (case slurp sys path files of
        Inl ENOENT \<Rightarrow> Inr 0
      | Inl e \<Rightarrow> Inl e
      | Inr buf \<Rightarrow> Inr (content_hash buf))"

fun validate_lines :: "inet \<Rightarrow> string list \<Rightarrow> bool \<Rightarrow> errno option" where
  "validate_lines net [] in_excl = None"
| "validate_lines net (line # lines) in_excl =
     (case classify_line (shr_trim line) in_excl of
        (EXCL_LINE_ENTRY val, in_excl') \<Rightarrow>
          if \<not> entry_valid net (Some val) then Some EINVAL else validate_lines net lines in_excl'
      | (EXCL_LINE_STRAY, in_excl') \<Rightarrow> Some EINVAL
      | (EXCL_LINE_JUNK, in_excl') \<Rightarrow> Some EINVAL
      | (_, in_excl') \<Rightarrow> validate_lines net lines in_excl')"

definition validate_conf_buf :: "inet \<Rightarrow> string \<Rightarrow> errno option" where
  "validate_conf_buf net buf = validate_lines net (strtok LF buf) False"

text \<open>The text and the version.\<close>

definition libnvmf_exclusion_read ::
  "excl_ctx option \<Rightarrow> sysres \<Rightarrow> string option \<Rightarrow> files \<Rightarrow> (string \<times> u64) res" where
  "libnvmf_exclusion_read ctx sys name files =
     (case ctx of
        None \<Rightarrow> Inl EINVAL
      | Some ctx \<Rightarrow>
          (case excl_path ctx name of
             None \<Rightarrow> Inl EINVAL
           | Some path \<Rightarrow>
               (case slurp sys path files of
                  Inl ENOENT \<Rightarrow> Inr ([], 0)
                | Inl e \<Rightarrow> Inl e
                | Inr buf \<Rightarrow> Inr (buf, content_hash buf))))"

text \<open>The part of \<open>libnvmf_exclusion_write\<close> under the directory lock is one step.  That holds among editors, which all
  take the lock; \<open>libnvmf_exclusion_add\<close> and \<open>libnvmf_exclusion_remove\<close> do not take it.\<close>

definition libnvmf_exclusion_write ::
  "inet \<Rightarrow> excl_ctx option \<Rightarrow> sysres \<Rightarrow> string option \<Rightarrow> string option \<Rightarrow> u64 \<Rightarrow> files \<Rightarrow> errno option \<times> files" where
  "libnvmf_exclusion_write net ctx sys name buf version files =
     (case (ctx, buf) of
        (Some ctx, Some content) \<Rightarrow>
          (case validate_conf_buf net content of
             Some e \<Rightarrow> (Some e, files)
           | None \<Rightarrow>
               (case ensure_excl_dir ctx sys name of
                  Some e \<Rightarrow> (Some e, files)
                | None \<Rightarrow>
                    (case excl_path ctx name of
                       None \<Rightarrow> (Some EINVAL, files)
                     | Some path \<Rightarrow>
                         (case (case excl_dir ctx name of None \<Rightarrow> None | Some dir \<Rightarrow> excl_tmp dir) of
                            None \<Rightarrow> (Some ENAMETOOLONG, files)
                          | Some tmp \<Rightarrow>
                              (case opendir_res sys of Some e \<Rightarrow> (Some e, files)
                               | None \<Rightarrow> (case lock_res sys of Some e \<Rightarrow> (Some e, files)
                               | None \<Rightarrow> (case hash_file sys path files of Inl e \<Rightarrow> (Some e, files)
                               | Inr cur \<Rightarrow>
                                   if cur \<noteq> version then (Some ESTALE, files)
                                   else (case mkstemp_res sys of Some e \<Rightarrow> (Some e, files)
                                         | None \<Rightarrow> (case fchmod_res sys of Some e \<Rightarrow> (Some e, files)
                                         | None \<Rightarrow> (case write_res sys of Some e \<Rightarrow> (Some e, files)
                                         | None \<Rightarrow> (case fsync_res sys of Some e \<Rightarrow> (Some e, files)
                                         | None \<Rightarrow> (case rename_res sys of Some e \<Rightarrow> (Some e, files)
                                         | None \<Rightarrow> (None, files(path \<mapsto> content))))))))))))))
      | _ \<Rightarrow> (Some EINVAL, files))"


section \<open>Text files\<close>

text \<open>A proper text file: lines without newline or NUL, short enough for the line buffer, each
  ended by a newline.\<close>

definition line_ok :: "string \<Rightarrow> bool" where
  "line_ok l \<longleftrightarrow> LF \<notin> set l \<and> NUL \<notin> set l \<and> length l < EXCL_LINE_MAX - 1"

definition lines_text :: "string list \<Rightarrow> string" where
  "lines_text ls = concat (map (\<lambda>l. l @ [LF]) ls)"

lemma lines_text_simps [simp]: "lines_text [] = []" "lines_text (l # ls) = l @ LF # lines_text ls"
  "lines_text (xs @ ys) = lines_text xs @ lines_text ys"
  by (simp_all add: lines_text_def)

lemma file_lines_text:
  assumes "list_all line_ok ls"
  shows "file_lines (lines_text ls) = map (\<lambda>l. l @ [LF]) ls"
  using assms
proof (induction ls)
  case Nil
  then show ?case by (simp add: file_lines_def fgets_lines.simps)
next
  case (Cons l ls)
  have l: "LF \<notin> set l" "NUL \<notin> set l" "length l < EXCL_LINE_MAX - 1" using Cons.prems by (auto simp: line_ok_def)
  have "takeWhile (\<lambda>c. c \<noteq> LF) (l @ LF # lines_text ls) = l" using l(1) by (induction l) auto
  then have f: "fgets_line (EXCL_LINE_MAX - 1) (l @ LF # lines_text ls) = l @ [LF]"
    using l(3) by (simp add: fgets_line_def Let_def)
  have "cstr (l @ [LF]) = l @ [LF]" using l(2) by (auto simp: cstr_def takeWhile_append)
  moreover have "EXCL_LINE_MAX - 1 \<noteq> 0" by (simp add: EXCL_LINE_MAX_def)
  ultimately show ?case using Cons unfolding file_lines_def by (subst fgets_lines.simps) (simp add: f [simplified])
qed

lemma shr_trim_LF [simp]: "shr_trim (l @ [LF]) = shr_trim l"
  by (simp add: shr_trim_def shr_rtrim_def isspace_def)

text \<open>What a list holds.\<close>

abbreviation entries :: "string \<Rightarrow> string list" where
  "entries content \<equiv> line_entries (file_lines content) False"

definition after_line :: "string \<Rightarrow> bool \<Rightarrow> bool" where
  "after_line l b = snd (classify_line (shr_trim l) b)"

lemma after_entry: "fst (classify_line s b) = EXCL_LINE_ENTRY v \<Longrightarrow> snd (classify_line s b) = b \<and> b"
  by (auto simp: classify_line_def split: if_splits)

lemma line_entries_append: "line_entries (xs @ ys) b = line_entries xs b @ line_entries ys (fold after_line xs b)"
  by (induction xs arbitrary: b) (auto simp: after_line_def split: excl_line_type.splits prod.splits)

lemma line_entries_LF [simp]: "line_entries (map (\<lambda>l. l @ [LF]) ls) b = line_entries ls b"
  by (induction ls arbitrary: b) (auto split: excl_line_type.splits prod.splits)

lemma scan_lines_entries: "scan_lines fn ls b \<longleftrightarrow> list_ex fn (line_entries ls b)"
  by (induction ls arbitrary: b) (auto split: excl_line_type.splits prod.splits)

lemma scan_file_entries: "scan_conf_file files path fn \<longleftrightarrow>
  (case files path of None \<Rightarrow> False | Some c \<Rightarrow> list_ex fn (entries c))"
  by (simp add: scan_conf_file_def scan_lines_entries split: option.split)

lemma add_scan_LF [simp]: "add_scan (map (\<lambda>l. l @ [LF]) ls) b h = add_scan ls b h"
  by (induction ls arbitrary: b h) (auto split: prod.splits)

lemma add_scan_fst: "fst (add_scan ls b h) = fold after_line ls b"
  by (induction ls arbitrary: b h) (auto simp: after_line_def split: prod.splits)

lemma add_scan_section: "(b \<Longrightarrow> h) \<Longrightarrow> fst (add_scan ls b h) \<Longrightarrow> snd (add_scan ls b h)"
  by (induction ls arbitrary: b h) (auto split: prod.splits)

lemma classify_header: "classify_line (CHR ''['' # EXCL_SECTION @ '']'') b = (EXCL_LINE_SECTION, True)"
  by (simp add: classify_line_def EXCL_SECTION_def shr_trim_def shr_rtrim_def shr_ltrim_eq ctype_defs)

lemma trim_header: "shr_trim (CHR ''['' # EXCL_SECTION @ '']'') = CHR ''['' # EXCL_SECTION @ '']''"
  by (simp add: EXCL_SECTION_def trimmed_def ctype_defs)

lemma classify_entry:
  assumes "trimmed entry" "entry \<noteq> []"
  shows "classify_line (shr_trim (EXCL_LINE_KEY @ '' = '' @ entry)) True = (EXCL_LINE_ENTRY entry, True)"
proof -
  have "trimmed (EXCL_LINE_KEY @ '' = '' @ entry)"
    using assms by (auto simp: trimmed_def EXCL_LINE_KEY_def ctype_defs)
  then have t: "shr_trim (EXCL_LINE_KEY @ '' = '' @ entry) = EXCL_LINE_KEY @ '' = '' @ entry" by simp
  have k: "shr_trim ''exclusion '' = ''exclusion''" by (simp add: shr_trim_def shr_rtrim_def shr_ltrim_eq ctype_defs)
  have "shr_trim (SPC # entry) = entry"
    using assms by (simp add: shr_trim_def shr_rtrim_id shr_ltrim_eq trimmed_def) (simp add: ctype_defs dropWhile_eq_self_iff)
  then show ?thesis unfolding t using k by (simp add: classify_line_def EXCL_LINE_KEY_def)
qed

lemma hd_trim: "\<not> isspace c \<Longrightarrow> \<exists>y. shr_trim (c # x) = c # y"
proof -
  assume c: "\<not> isspace c"
  obtain w where w: "c # x = shr_rtrim (c # x) @ w" "list_all isspace w" using shr_rtrim_prefix by blast
  then obtain y where "shr_rtrim (c # x) = c # y" using c by (cases "shr_rtrim (c # x)") auto
  then show ?thesis using c by (simp add: shr_trim_def shr_ltrim_eq)
qed

lemma classify_comment: "classify_line (shr_trim (CHR ''#'' # x)) b = (EXCL_LINE_IGNORE, b)"
proof -
  obtain y where "shr_trim (CHR ''#'' # x) = CHR ''#'' # y" using hd_trim [of "CHR ''#''" x] by (auto simp: ctype_defs)
  then show ?thesis by (simp add: classify_line_def)
qed

lemma classify_blank: "classify_line [] b = (EXCL_LINE_IGNORE, b)" "after_line [] b = b"
  by (simp_all add: after_line_def shr_trim_def shr_ltrim_eq classify_line_def)

lemma after_comment: "after_line (CHR ''#'' # x) b = b"
  by (simp add: after_line_def classify_comment)

text \<open>Adding to a proper file.\<close>

lemma add_content_entries:
  assumes "case old of None \<Rightarrow> True | Some c \<Rightarrow> \<exists>ls. c = lines_text ls \<and> list_all line_ok ls"
    "line_ok (EXCL_LINE_KEY @ '' = '' @ entry)" "trimmed entry" "entry \<noteq> []"
    "case name of None \<Rightarrow> True | Some n \<Rightarrow> shr_valid_name (Some n) \<and> length n < 255"
  shows "\<exists>ls. add_content name old entry = lines_text ls \<and> list_all line_ok ls \<and>
    entries (add_content name old entry) = (case old of None \<Rightarrow> [] | Some c \<Rightarrow> entries c) @ [entry]"
proof -
  let ?e = "EXCL_LINE_KEY @ '' = '' @ entry" and ?h = "''['' @ EXCL_SECTION @ '']''"
  have h: "line_ok ?h" "line_ok []" by (simp_all add: line_ok_def EXCL_SECTION_def EXCL_LINE_MAX_def)
  have e: "line_entries [?e] True = [entry]" using classify_entry [OF assms(3,4)] by simp
  have ah: "after_line ?h b = True" for b by (simp add: after_line_def trim_header classify_header)
  have hn: "line_entries [[], ?h] b = []" for b
    by (simp add: trim_header classify_header classify_blank)
  show ?thesis
  proof (cases old)
    case (Some c)
    then obtain ls where ls: "c = lines_text ls" "list_all line_ok ls" using assms(1) by auto
    let ?in = "fold after_line ls False"
    obtain a b where ab: "add_scan ls False False = (a, b)" by fastforce
    have "a = ?in" "a \<Longrightarrow> b" using add_scan_fst [of ls False False] add_scan_section [of False False ls] ab by auto
    then have need: "(\<not> b \<or> \<not> a) = (\<not> ?in)" by auto
    have "concat (map (\<lambda>l. l @ [LF]) ls) = lines_text ls" by (simp add: lines_text_def)
    then have c: "add_content name old entry = lines_text (ls @ (if \<not> ?in then [[], ?h] else []) @ [?e])"
      using Some ls(2) by (simp add: add_content_def ls(1) file_lines_text ab need [simplified])
    moreover have ok: "list_all line_ok (ls @ (if \<not> ?in then [[], ?h] else []) @ [?e])" using ls(2) h assms(2) by simp
    moreover have "entries (add_content name old entry) = entries c @ [entry]"
      unfolding c using e hn ah
      by (simp only: file_lines_text [OF ok] line_entries_LF line_entries_append ls(1) file_lines_text [OF ls(2)] fold_append o_apply)
        (simp add: classify_blank)
    then have "entries (add_content name old entry) = (case old of None \<Rightarrow> [] | Some c \<Rightarrow> entries c) @ [entry]"
      by (simp only: Some option.case)
    ultimately show ?thesis by blast
  next
    case None
    let ?n = "case name of Some n \<Rightarrow> n | None \<Rightarrow> ''default''"
    let ?ls = "[''# NVMe-oF exclusion list: '' @ ?n, ''# Format: exclusion = key=val;key=val'',
      ''# Keys: transport, traddr, trsvcid, nqn, host-traddr, host-iface, hostnqn, hostid'', [], ?h]"
    have c: "add_content name old entry = lines_text (?ls @ [?e])"
      by (simp add: None add_content_def excl_header_def)
    have "LF \<notin> set ?n \<and> NUL \<notin> set ?n \<and> length ?n < 255"
      using assms(5) by (auto simp: shr_valid_name_def list_all_iff shr_name_char_def char_le_iff split: option.splits)
    then have ok: "list_all line_ok (?ls @ [?e])" using h assms(2) by (simp add: line_ok_def EXCL_LINE_MAX_def)
    have "entries (add_content name old entry) = line_entries [[], ?h] False @ line_entries [?e] True"
      unfolding c file_lines_text [OF ok] line_entries_LF line_entries_append
      by (simp add: classify_comment after_comment classify_blank ah [simplified] trim_header classify_header)
    then have "entries (add_content name old entry) = (case old of None \<Rightarrow> [] | Some c \<Rightarrow> entries c) @ [entry]"
      using e hn by (simp only: None option.case)
    then show ?thesis using c ok by blast
  qed
qed


text \<open>Removing from a proper file.\<close>

lemma remove_scan_removed: "remove_scan entry ls b True = (ls, True)"
  by (induction ls arbitrary: b) (auto split: prod.splits)

lemma remove_scan_spec:
  "remove_scan entry (map (\<lambda>l. l @ [LF]) ls) b False = (out, r) \<Longrightarrow>
   \<exists>ls'. out = map (\<lambda>l. l @ [LF]) ls' \<and> set ls' \<subseteq> set ls \<and> line_entries ls' b = remove1 entry (line_entries ls b) \<and>
     (r \<longleftrightarrow> entry \<in> set (line_entries ls b)) \<and> (\<not> r \<longrightarrow> ls' = ls)"
proof (induction ls arbitrary: b out r)
  case (Cons l ls)
  obtain ty b' where ty: "classify_line (shr_trim l) b = (ty, b')" by fastforce
  show ?case
  proof (cases "ty = EXCL_LINE_ENTRY entry")
    case True
    then have "b' = b" using after_entry [of "shr_trim l" b entry] ty by simp
    then show ?thesis using Cons.prems ty True by (auto simp: remove_scan_removed)
  next
    case False
    obtain o' r' where o: "remove_scan entry (map (\<lambda>l. l @ [LF]) ls) b' False = (o', r')" by fastforce
    obtain ls' where ls': "o' = map (\<lambda>l. l @ [LF]) ls'" "set ls' \<subseteq> set ls"
      "line_entries ls' b' = remove1 entry (line_entries ls b')" "r' \<longleftrightarrow> entry \<in> set (line_entries ls b')" "\<not> r' \<longrightarrow> ls' = ls"
      using Cons.IH [OF o] by blast
    have "out = map (\<lambda>l. l @ [LF]) (l # ls')" "r = r'" using Cons.prems ty False o ls'(1) by auto
    moreover have "line_entries (l # ls') b = remove1 entry (line_entries (l # ls) b)"
      "entry \<in> set (line_entries (l # ls) b) \<longleftrightarrow> r'"
      using ty False ls'(3,4) by (auto split: excl_line_type.splits)
    ultimately show ?thesis using ls'(2,5) by (intro exI [of _ "l # ls'"]) auto
  qed
qed simp

lemma main_not_dropin: "excl_main_path ctx = Some m \<Longrightarrow> excl_dropin_dir ctx = Some dir \<Longrightarrow> m \<noteq> dir @ ''/'' @ d"
proof
  assume a: "excl_main_path ctx = Some m" "excl_dropin_dir ctx = Some dir" "m = dir @ ''/'' @ d"
  have "length dir = length m + 2"
    using a(1,2) by (auto simp: Let_def excl_main_path_def excl_dropin_dir_def excl_fixed_path_def EXCL_MAIN_NAME_def EXCL_DROPIN_NAME_def
        fits_def split: option.splits if_splits)
  then show False using a(3) by simp
qed

lemma match_dropins_cong: "(\<And>d. files (dir @ ''/'' @ d) = files' (dir @ ''/'' @ d)) \<Longrightarrow>
  match_dropins net files dir t ds = match_dropins net files' dir t ds"
  by (induction ds) (auto simp: scan_conf_file_def split: option.splits)

definition main_entries :: "excl_ctx \<Rightarrow> files \<Rightarrow> string list" where
  "main_entries ctx files = (case excl_main_path ctx of None \<Rightarrow> []
     | Some m \<Rightarrow> (case files m of None \<Rightarrow> [] | Some c \<Rightarrow> entries c))"

text \<open>Replacing the main list changes the match by its entries only.\<close>

lemma match_main:
  "libnvmf_exclusion_match net (Some ctx) files listing (Some t) \<longleftrightarrow>
     (\<exists>e \<in> set (main_entries ctx files). entry_matches net e t) \<or>
     (case excl_dropin_dir ctx of None \<Rightarrow> False
      | Some dir \<Rightarrow> (case listing of None \<Rightarrow> False | Some ds \<Rightarrow> match_dropins net files dir t ds))"
  by (auto simp: libnvmf_exclusion_match_def main_entries_def scan_file_entries list_ex_iff split: option.splits)

lemma match_main_update:
  assumes "excl_main_path ctx = Some m"
  shows "libnvmf_exclusion_match net (Some ctx) (files(m \<mapsto> c)) listing (Some t) \<longleftrightarrow>
     (\<exists>e \<in> set (entries c). entry_matches net e t) \<or>
     (case excl_dropin_dir ctx of None \<Rightarrow> False
      | Some dir \<Rightarrow> (case listing of None \<Rightarrow> False | Some ds \<Rightarrow> match_dropins net files dir t ds))"
proof -
  have "match_dropins net (files(m \<mapsto> c)) dir t ds = match_dropins net files dir t ds" if "excl_dropin_dir ctx = Some dir" for dir ds
    using main_not_dropin [OF assms that] by (intro match_dropins_cong) auto
  moreover have "main_entries ctx (files(m \<mapsto> c)) = entries c" using assms by (simp add: main_entries_def)
  ultimately show ?thesis by (auto simp: match_main split: option.splits)
qed

section \<open>Properties\<close>

text \<open>A proper main list, or none.\<close>

definition main_proper :: "excl_ctx \<Rightarrow> files \<Rightarrow> string list option \<Rightarrow> bool" where
  "main_proper ctx files ls = (case excl_main_path ctx of None \<Rightarrow> False
     | Some m \<Rightarrow> files m = map_option lines_text ls \<and> (case ls of None \<Rightarrow> True | Some l \<Rightarrow> list_all line_ok l))"

lemma add_success:
  assumes "libnvmf_exclusion_add net (Some ctx) sys name (Some entry) files = (None, files')"
  shows "\<exists>path. excl_path ctx name = Some path \<and> entry_valid net (Some entry) \<and>
    files' = files(path \<mapsto> add_content name (if fopen_ok sys then files path else None) entry)"
  using assms by (auto simp: libnvmf_exclusion_add_def commit_def split: option.splits if_splits)

text \<open>C8: Adding to the main list works.  If the list is a proper text file that can be opened for reading, or
  does not exist yet, and the entry is one trimmed line that fits the line buffer, then after a successful
  \<open>libnvmf_exclusion_add\<close> exactly those paths are excluded that were excluded before or that the
  new entry matches - whatever sections, comments and foreign keys the file has.  On an error
  nothing has changed.  (A list that exists but cannot be opened is taken for an empty one and replaced,
  see \<open>exclusion_add_loses_unreadable\<close>.)\<close>

theorem exclusion_add_effective:
  assumes "libnvmf_exclusion_add net (Some ctx) sys None (Some entry) files = (r, files')" "fopen_ok sys"
    "main_proper ctx files ls" "line_ok (EXCL_LINE_KEY @ '' = '' @ entry)" "trimmed entry"
  shows "if r = None
    then libnvmf_exclusion_match net (Some ctx) files' listing (Some t) \<longleftrightarrow>
      libnvmf_exclusion_match net (Some ctx) files listing (Some t) \<or> entry_matches net entry t
    else files' = files"
proof (cases r)
  case None
  obtain m where m: "excl_main_path ctx = Some m" "entry_valid net (Some entry)"
    "files' = files(m \<mapsto> add_content None (files m) entry)"
    using add_success assms(1,2) None by (fastforce simp: excl_path_def)
  have "entry \<noteq> []" using m(2)
    by (auto simp: entry_valid_def libnvmf_tid_parse_strict_def tid_parse_def tid_sanitize_addr_def tid_new_def
        libnvmf_tid_is_empty_def)
  moreover have "case files m of None \<Rightarrow> True | Some c \<Rightarrow> \<exists>ls. c = lines_text ls \<and> list_all line_ok ls"
    using assms(3) m(1) by (auto simp: main_proper_def split: option.splits)
  ultimately have "entries (add_content None (files m) entry) = (case files m of None \<Rightarrow> [] | Some c \<Rightarrow> entries c) @ [entry]"
    using add_content_entries [of "files m" entry None] assms(4,5) by auto
  then have e: "set (entries (add_content None (files m) entry)) = insert entry (set (main_entries ctx files))"
    using m(1) by (simp add: main_entries_def)
  show ?thesis unfolding m(3) match_main_update [OF m(1)] e match_main [of net ctx files] using None by auto
next
  case (Some e)
  then show ?thesis using assms(1)
    by (auto simp: libnvmf_exclusion_add_def commit_def split: option.splits if_splits)
qed


text \<open>An entry that names a subsystem.\<close>

lemma parse_nqn:
  assumes "clean n"
  shows "tid_parse net mem_ok True True strict (Some (''nqn='' @ n)) = Inr (tid_new\<lparr>subsysnqn := Some n\<rparr>)"
proof (rule parse_fields)
  show "strtok (CHR '';'') (''nqn='' @ n) = concat (map kv (tid_fields (tid_new\<lparr>subsysnqn := Some n\<rparr>)))"
    using assms strtok_one [of "''nqn='' @ n" "CHR '';''"] by (simp add: tid_fields_def tid_new_def clean_def)
qed (use assms in \<open>simp_all add: tid_clean_iff tid_new_def no_cache_def sanitized_def tid_sanitize_addr_def\<close>)

lemma nqn_entry:
  assumes "clean n"
  shows "entry_valid net (Some (''nqn='' @ n))" "entry_matches net (''nqn='' @ n) t \<longleftrightarrow> subsysnqn t = Some n"
proof -
  show "entry_valid net (Some (''nqn='' @ n))"
    by (simp add: entry_valid_def libnvmf_tid_parse_strict_def parse_nqn [OF assms, simplified] libnvmf_tid_is_empty_def)
  show "entry_matches net (''nqn='' @ n) t \<longleftrightarrow> subsysnqn t = Some n"
    by (auto simp: entry_matches_def libnvmf_tid_parse_strict_at_level_def parse_nqn [OF assms, simplified]
        libnvmf_tid_is_empty_def tid_subset_match_def tid_new_def shr_streq0_def split: option.split)
qed

definition demo_ctx :: excl_ctx where
  "demo_ctx = \<lparr>sysconfdir = ''/etc'', test_base_dir = None\<rparr>"

definition demo_files :: files where
  "demo_files = [''/etc/nvme/exclusions.conf'' \<mapsto> lines_text [''[exclusions]'', ''exclusion = nqn=a'', ''[other]'']]"

lemma demo_main: "excl_main_path demo_ctx = Some ''/etc/nvme/exclusions.conf''"
  by (simp add: Let_def excl_main_path_def excl_fixed_path_def demo_ctx_def excl_base_default_def EXCL_MAIN_NAME_def)

lemma demo_proper:
  "main_proper demo_ctx demo_files (Some [''[exclusions]'', ''exclusion = nqn=a'', ''[other]''])"
  by (simp add: main_proper_def demo_main demo_files_def line_ok_def EXCL_LINE_MAX_def)

theorem exclusion_add_effective_witness:
  "libnvmf_exclusion_match v4_net (Some demo_ctx)
     (snd (libnvmf_exclusion_add v4_net (Some demo_ctx) all_ok None (Some ''nqn=b'') demo_files)) None
     (Some (tid_new\<lparr>subsysnqn := Some ''b''\<rparr>))"
proof -
  let ?a = "libnvmf_exclusion_add v4_net (Some demo_ctx) all_ok None (Some ''nqn=b'') demo_files"
  have c: "clean ''b''" by (simp add: clean_def ctype_defs)
  have v: "entry_valid v4_net (Some ''nqn=b'')" using nqn_entry(1) [OF c] by simp
  have d: "excl_dir demo_ctx None = Some ''/etc/nvme''"
    by (simp add: excl_dir_def excl_base_def demo_ctx_def excl_base_default_def)
  obtain r f where rf: "?a = (r, f)" by fastforce
  moreover have "fst ?a = None"
    by (simp add: libnvmf_exclusion_add_def v ensure_excl_dir_def d excl_path_def demo_main excl_tmp_def fits_def PATH_MAX_def
        open_tmp_def commit_def all_ok_def)
  moreover have "line_ok (EXCL_LINE_KEY @ '' = '' @ ''nqn=b'')" "trimmed ''nqn=b''" "fopen_ok all_ok"
    by (simp_all add: line_ok_def EXCL_LINE_KEY_def EXCL_LINE_MAX_def trimmed_def ctype_defs all_ok_def)
  moreover have "entry_matches v4_net ''nqn=b'' (tid_new\<lparr>subsysnqn := Some ''b''\<rparr>)" using nqn_entry(2) [OF c] by simp
  ultimately show ?thesis using exclusion_add_effective [OF rf _ demo_proper] by simp
qed

text \<open>A list that exists but cannot be opened is taken for a missing one: the addition succeeds, and the subsystem
  excluded before no longer is.\<close>

lemma exclusion_add_loses_unreadable:
  "\<exists>files'. libnvmf_exclusion_add v4_net (Some demo_ctx) (all_ok\<lparr>fopen_ok := False\<rparr>) None (Some ''nqn=b'') demo_files = (None, files') \<and>
     libnvmf_exclusion_match v4_net (Some demo_ctx) demo_files None (Some (tid_new\<lparr>subsysnqn := Some ''a''\<rparr>)) \<and>
     \<not> libnvmf_exclusion_match v4_net (Some demo_ctx) files' None (Some (tid_new\<lparr>subsysnqn := Some ''a''\<rparr>))"
proof -
  let ?f = "libnvmf_exclusion_add v4_net (Some demo_ctx) (all_ok\<lparr>fopen_ok := False\<rparr>) None (Some ''nqn=b'') demo_files"
  let ?m = "''/etc/nvme/exclusions.conf''"
  have c: "clean ''a''" "clean ''b''" by (simp_all add: clean_def ctype_defs)
  have d: "excl_dir demo_ctx None = Some ''/etc/nvme''"
    by (simp add: excl_dir_def excl_base_def demo_ctx_def excl_base_default_def)
  have "fst ?f = None"
    using nqn_entry(1) [OF c(2)]
    by (simp add: libnvmf_exclusion_add_def ensure_excl_dir_def d excl_path_def demo_main excl_tmp_def fits_def PATH_MAX_def
        open_tmp_def commit_def all_ok_def)
  then obtain files' where f: "?f = (None, files')" by (metis prod.collapse)
  then have "files' = demo_files(?m \<mapsto> add_content None None ''nqn=b'')"
    using add_success [OF f] by (simp add: excl_path_def demo_main all_ok_def)
  moreover have "entries (add_content None None ''nqn=b'') = [''nqn=b'']"
    using add_content_entries [of None "''nqn=b''" None]
    by (auto simp: line_ok_def EXCL_LINE_KEY_def EXCL_LINE_MAX_def trimmed_def ctype_defs)
  moreover have "entries (lines_text [''[exclusions]'', ''exclusion = nqn=a'', ''[other]'']) = [''nqn=a'']"
    by code_simp
  ultimately show ?thesis
    using f nqn_entry(2) [OF c(1)] nqn_entry(2) [OF c(2)] match_main_update [OF demo_main] match_main [of v4_net demo_ctx demo_files]
    by (auto simp: main_entries_def demo_main demo_files_def split: option.splits)
qed

text \<open>Removing an entry from a proper list takes away its first occurrence and nothing else: the
  other entries stay, in order, and so does every other line; without such an entry the list is left
  alone and the call fails.\<close>

theorem exclusion_remove_exact:
  assumes "libnvmf_exclusion_remove (Some ctx) sys name entry files = (r, files')" "excl_path ctx name = Some path"
    "files path = Some (lines_text ls)" "list_all line_ok ls"
  shows "case r of
      None \<Rightarrow> entry \<in> set (entries (lines_text ls)) \<and>
        (\<exists>ls'. files' = files(path \<mapsto> lines_text ls') \<and> set ls' \<subseteq> set ls \<and>
           entries (lines_text ls') = remove1 entry (entries (lines_text ls)))
    | Some e \<Rightarrow> files' = files"
proof (cases r)
  case None
  obtain out where out: "remove_scan entry (map (\<lambda>l. l @ [LF]) ls) False False = (out, True)"
    "files' = files(path \<mapsto> concat out)"
    using assms None file_lines_text [OF assms(4)]
    by (auto simp: libnvmf_exclusion_remove_def split: option.splits if_splits prod.splits)
  obtain ls' where ls': "out = map (\<lambda>l. l @ [LF]) ls'" "set ls' \<subseteq> set ls"
    "line_entries ls' False = remove1 entry (line_entries ls False)" "entry \<in> set (line_entries ls False)"
    using remove_scan_spec [OF out(1)] by auto
  have "list_all line_ok ls'" using ls'(2) assms(4) by (auto simp: list_all_iff)
  then show ?thesis using None out(2) ls' file_lines_text assms(4) by (auto simp: lines_text_def)
next
  case (Some e)
  then show ?thesis using assms(1)
    by (auto simp: libnvmf_exclusion_remove_def split: option.splits if_splits prod.splits)
qed

theorem exclusion_remove_exact_witness:
  "\<exists>ls'. snd (libnvmf_exclusion_remove (Some demo_ctx) all_ok None ''nqn=a'' demo_files) =
     demo_files(''/etc/nvme/exclusions.conf'' \<mapsto> lines_text ls')"
proof -
  let ?ls = "[''[exclusions]'', ''exclusion = nqn=a'', ''[other]'']"
  let ?r = "libnvmf_exclusion_remove (Some demo_ctx) all_ok None ''nqn=a'' demo_files"
  have ok: "list_all line_ok ?ls" by (simp add: line_ok_def EXCL_LINE_MAX_def)
  have p: "excl_path demo_ctx None = Some ''/etc/nvme/exclusions.conf''" by (simp add: excl_path_def demo_main)
  have f: "demo_files ''/etc/nvme/exclusions.conf'' = Some (lines_text ?ls)" by (simp add: demo_files_def)
  have e: "line_entries ?ls False = [''nqn=a'']"
  proof -
    have "trimmed ''[exclusions]''" "trimmed ''exclusion = nqn=a''" "trimmed ''[other]''" "trimmed ''nqn=a''"
      by (simp_all add: trimmed_def ctype_defs)
    moreover have "shr_trim ''exclusion '' = ''exclusion''" "shr_trim '' nqn=a'' = ''nqn=a''" "shr_trim ''exclusions'' = ''exclusions''"
      "shr_trim ''other'' = ''other''"
      by (simp_all add: shr_trim_def shr_rtrim_def shr_ltrim_eq ctype_defs)
    ultimately show ?thesis by (simp add: classify_line_def EXCL_SECTION_def EXCL_LINE_KEY_def)
  qed
  obtain out r where o: "remove_scan ''nqn=a'' (map (\<lambda>l. l @ [LF]) ?ls) False False = (out, r)" by fastforce
  have "r" using remove_scan_spec [OF o] e by auto
  moreover have "file_lines (lines_text ?ls) = map (\<lambda>l. l @ [LF]) ?ls" by (rule file_lines_text [OF ok])
  moreover have "excl_dir demo_ctx None = Some ''/etc/nvme''"
    by (simp add: excl_dir_def excl_base_def demo_ctx_def excl_base_default_def)
  ultimately have "fst ?r = None"
    using o unfolding libnvmf_exclusion_remove_def option.case p f
    by (simp add: f p excl_tmp_def fits_def PATH_MAX_def open_tmp_def all_ok_def del: lines_text_simps remove_scan.simps list.map)
  moreover obtain r f' where rf: "?r = (r, f')" by fastforce
  ultimately show ?thesis using exclusion_remove_exact [OF rf p f ok] by auto
qed


lemma write_success:
  assumes "libnvmf_exclusion_write net (Some ctx) sys name (Some new) version files = (None, files')"
  shows "\<exists>path. excl_path ctx name = Some path \<and> files' = files(path \<mapsto> new) \<and> hash_file sys path files = Inr version \<and>
    validate_conf_buf net new = None"
  using assms by (auto simp: libnvmf_exclusion_write_def split: option.splits sum.splits if_splits)

lemma write_failure:
  "libnvmf_exclusion_write net (Some ctx) sys name (Some new) version files = (Some e, files') \<Longrightarrow> files' = files"
  by (auto simp: libnvmf_exclusion_write_def split: option.splits sum.splits if_splits)

lemma strtok_skip: "strtok d (d # s) = strtok d s" by simp

lemma strtok_lines: "list_all line_ok ls \<Longrightarrow> strtok LF (lines_text ls) = filter (\<lambda>l. l \<noteq> []) ls"
proof (induction ls)
  case (Cons l ls)
  show ?case
  proof (cases "l = []")
    case True
    then show ?thesis using Cons by simp
  next
    case False
    have "LF \<notin> set l" using Cons.prems by (simp add: line_ok_def)
    then show ?thesis using False Cons strtok_cons [of l LF "lines_text ls"] by simp
  qed
qed simp

lemma line_entries_filter: "line_entries (filter (\<lambda>l. l \<noteq> []) ls) b = line_entries ls b"
  by (induction ls arbitrary: b) (auto simp: classify_blank split: excl_line_type.splits prod.splits)

lemma validate_lines_entries:
  "validate_lines net ls b = None \<Longrightarrow> e \<in> set (line_entries ls b) \<Longrightarrow> entry_valid net (Some e)"
proof (induction ls arbitrary: b)
  case (Cons l ls)
  obtain ty b' where "classify_line (shr_trim l) b = (ty, b')" by fastforce
  then show ?case using Cons by (cases ty) (auto split: if_splits)
qed simp

text \<open>C16: No update is lost.  Two editors read a list; the first to save changes it.  Then the second,
  which still holds the version it read, can only fail, and the first one's text stays - unless
  the two texts collide in the 64-bit hash that serves as the version.  (A file that exists is
  not reported missing.)  A successful save has
  replaced exactly this list by the text, was based on its latest version, and a proper text that was
  saved holds only valid entries.\<close>

theorem exclusion_no_lost_update:
  assumes "libnvmf_exclusion_read (Some ctx) sys0 name files = Inr (old, version)"
    "libnvmf_exclusion_write net (Some ctx) sys1 name (Some new) version files = (None, files1)"
    "content_hash new \<noteq> version"
    "libnvmf_exclusion_write net (Some ctx) sys2 name (Some other) version files1 = (r, files2)"
    "open_res sys2 \<noteq> Some ENOENT" "read_res sys2 \<noteq> Some ENOENT"
  shows "r \<noteq> None \<and> files2 = files1 \<and>
    (\<exists>path. excl_path ctx name = Some path \<and> files1 = files(path \<mapsto> new) \<and> hash_file sys1 path files = Inr version) \<and>
    (\<forall>ls. new = lines_text ls \<and> list_all line_ok ls \<longrightarrow> (\<forall>e \<in> set (entries new). entry_valid net (Some e)))"
proof -
  obtain path where path: "excl_path ctx name = Some path" "files1 = files(path \<mapsto> new)"
    "hash_file sys1 path files = Inr version" "validate_conf_buf net new = None"
    using write_success [OF assms(2)] by blast
  have "r \<noteq> None"
  proof
    assume "r = None"
    then have "hash_file sys2 path files1 = Inr version" using write_success [of net ctx sys2 name other version files1] assms(4) path(1) by auto
    then show False using assms(3,5,6) path(2) by (auto simp: hash_file_def slurp_def split: option.splits if_splits errno.splits)
  qed
  moreover from this have "files2 = files1" using write_failure assms(4) by (cases r) blast+
  moreover have "entry_valid net (Some e)" if "new = lines_text ls" "list_all line_ok ls" "e \<in> set (entries new)" for ls e
    using that path(4) validate_lines_entries [of net "filter (\<lambda>l. l \<noteq> []) ls" False e]
    by (simp add: validate_conf_buf_def strtok_lines file_lines_text line_entries_filter)
  ultimately show ?thesis using path by blast
qed

theorem exclusion_no_lost_update_witness:
  "fst (libnvmf_exclusion_write v4_net (Some demo_ctx) all_ok None (Some ''# b'') 0
     [''/etc/nvme/exclusions.conf'' \<mapsto> ''# a'']) \<noteq> None"
proof -
  have p: "excl_path demo_ctx None = Some ''/etc/nvme/exclusions.conf''" by (simp add: excl_path_def demo_main)
  have d: "excl_dir demo_ctx None = Some ''/etc/nvme''"
    by (simp add: excl_dir_def excl_base_def demo_ctx_def excl_base_default_def)
  have v: "validate_conf_buf v4_net ''# a'' = None"
    by (simp add: validate_conf_buf_def classify_comment)
  have r: "libnvmf_exclusion_read (Some demo_ctx) all_ok None Map.empty = Inr ([], 0)"
    by (simp add: libnvmf_exclusion_read_def p slurp_def)
  have w: "libnvmf_exclusion_write v4_net (Some demo_ctx) all_ok None (Some ''# a'') 0 Map.empty =
      (None, [''/etc/nvme/exclusions.conf'' \<mapsto> ''# a''])"
    by (simp add: libnvmf_exclusion_write_def v ensure_excl_dir_def d p excl_tmp_def fits_def PATH_MAX_def hash_file_def
        slurp_def all_ok_def)
  have "content_hash ''# a'' \<noteq> 0" by (simp add: content_hash_def Let_def)
  moreover obtain r f where "libnvmf_exclusion_write v4_net (Some demo_ctx) all_ok None (Some ''# b'') 0
     [''/etc/nvme/exclusions.conf'' \<mapsto> ''# a''] = (r, f)" by fastforce
  ultimately show ?thesis using exclusion_no_lost_update [OF r w] by (auto simp: all_ok_def)
qed

section \<open>Excluding a controller\<close>

text \<open>The part of a transport ID that an entry made from a controller has.\<close>

definition path_only :: "tid \<Rightarrow> tid" where
  "path_only t = tid_new\<lparr>transport := transport t, traddr := traddr t, trsvcid := trsvcid t, subsysnqn := subsysnqn t,
     host_iface := host_iface t\<rparr>"

lemma path_only_sanitized:
  assumes "sanitized net t" "no_cache t"
  shows "sanitized net (path_only t)"
proof -
  have "tid_sanitize_addr net mem_ok t = Inr t" using assms(1) by (simp add: sanitized_def)
  then show ?thesis
  proof (cases rule: sanitize_cases)
    case other
    then show ?thesis by (simp add: sanitized_def tid_sanitize_addr_def path_only_def)
  next
    case fc
    have "map_option fc_wwn_normalize (traddr t) = traddr t"
      using fc(2) by (metis tid.select_convs(2) tid.update_convs(2,5) tid.surjective)
    then show ?thesis using fc(1,3) by (auto simp: sanitized_def tid_sanitize_addr_def path_only_def Let_def tid_new_def split: option.split)
  next
    case (ip a h)
    have "traddr t = a" using ip(2) by (metis tid.select_convs(2) tid.surjective tid.update_convs(2,5))
    then show ?thesis using ip(1,3) by (auto simp: sanitized_def tid_sanitize_addr_def path_only_def tid_new_def)
  qed
qed


lemma path_only_clean: "tid_clean t \<Longrightarrow> tid_clean (path_only t) \<and> no_cache (path_only t)"
  by (simp add: tid_clean_iff path_only_def tid_new_def no_cache_def)

definition ctrl_of :: "tid \<Rightarrow> excl_ctrl" where
  "ctrl_of t = \<lparr>c_transport = transport t, c_traddr = traddr t, c_trsvcid = trsvcid t, c_subsysnqn = subsysnqn t,
     c_host_iface = host_iface t\<rparr>"

lemma append_max_strtok:
  assumes "strtok (CHR '';'') buf = toks" "length (append_max len buf ('';'' @ k @ ''='' @ v)) < len"
    "CHR '';'' \<notin> set (k @ v)"
  shows "strtok (CHR '';'') (append_max len buf ('';'' @ k @ ''='' @ v)) = toks @ [k @ ''='' @ v]"
  using assms strtok_snoc [of "k @ ''='' @ v" "CHR '';''" buf] by (auto simp: append_max_def split: if_splits)

lemma append_max_le: "length buf \<le> length (append_max len buf s)"
  by (simp add: append_max_def)

lemma append_set_strtok:
  assumes "strtok (CHR '';'') buf = toks" "length (append_set len k f buf) < len" "pred_option clean f" "CHR '';'' \<notin> set k"
  shows "strtok (CHR '';'') (append_set len k f buf) = toks @ kv (k, f)"
proof (cases f)
  case (Some v)
  then have "v \<noteq> []" "CHR '';'' \<notin> set v" using assms(3) by (auto simp: clean_def)
  then show ?thesis using Some assms append_max_strtok [OF assms(1), of len k v] by (simp add: append_set_def)
qed (use assms in \<open>simp add: append_set_def\<close>)

lemma append_set_le: "length buf \<le> length (append_set len k f buf)"
  by (simp add: append_set_def append_max_def split: option.split)

lemma entry_from_ctrl_tokens:
  assumes "excl_entry_from_ctrl (ctrl_of t) len = Inr entry" "tid_clean t"
  shows "strtok (CHR '';'') entry = concat (map kv (tid_fields (path_only t)))"
proof -
  obtain tr ta nqn where f: "transport t = Some tr" "traddr t = Some ta" "subsysnqn t = Some nqn"
    using assms(1) by (auto simp: excl_entry_from_ctrl_def ctrl_of_def split: option.splits)
  have cl: "CHR '';'' \<notin> set tr" "CHR '';'' \<notin> set ta" "CHR '';'' \<notin> set nqn" "pred_option clean (trsvcid t)" "pred_option clean (host_iface t)"
    using assms(2) f by (auto simp: tid_clean_iff clean_def)
  define b1 where "b1 = append_max len [] (''transport='' @ tr @ '';traddr='' @ ta)"
  define b2 where "b2 = append_set len ''trsvcid'' (trsvcid t) b1"
  define b3 where "b3 = append_max len b2 ('';nqn='' @ nqn)"
  define b4 where "b4 = append_set len ''host-iface'' (host_iface t) b3"
  have e: "entry = b4" "length b4 < len"
    using assms(1) f unfolding excl_entry_from_ctrl_def ctrl_of_def Let_def b1_def b2_def b3_def b4_def
    by (auto split: if_splits)
  have l: "length b3 < len" "length b2 < len" "length b1 < len"
    using e(2) append_set_le [of b3 len "''host-iface''" "host_iface t"] append_max_le [of b2 len "'';nqn='' @ nqn"]
      append_set_le [of b1 len "''trsvcid''" "trsvcid t"] by (auto simp: b4_def b3_def b2_def)
  have "strtok (CHR '';'') (''transport='' @ tr @ '';traddr='' @ ta) = [''transport='' @ tr, ''traddr='' @ ta]"
    using strtok_cons [of "''transport='' @ tr" "CHR '';''" "''traddr='' @ ta"] strtok_one [of "''traddr='' @ ta" "CHR '';''"] cl
    by simp
  moreover have "b1 = ''transport='' @ tr @ '';traddr='' @ ta" using l(3) by (auto simp: b1_def append_max_def split: if_splits)
  ultimately have s1: "strtok (CHR '';'') b1 = kv (''transport'', Some tr) @ kv (''traddr'', Some ta)" by simp
  have s2: "strtok (CHR '';'') b2 = kv (''transport'', Some tr) @ kv (''traddr'', Some ta) @ kv (''trsvcid'', trsvcid t)"
    using append_set_strtok [OF s1, of len "''trsvcid''" "trsvcid t"] l(2) cl by (simp add: b2_def)
  have s3: "strtok (CHR '';'') b3 = kv (''transport'', Some tr) @ kv (''traddr'', Some ta) @ kv (''trsvcid'', trsvcid t) @ kv (''nqn'', Some nqn)"
    using append_max_strtok [OF s2, of len "''nqn''" nqn] l(1) cl by (simp add: b3_def)
  have "strtok (CHR '';'') b4 = kv (''transport'', Some tr) @ kv (''traddr'', Some ta) @ kv (''trsvcid'', trsvcid t) @ kv (''nqn'', Some nqn) @
      kv (''host-iface'', host_iface t)"
    using append_set_strtok [OF s3, of len "''host-iface''" "host_iface t"] e(2) cl by (simp add: b4_def)
  then show ?thesis by (simp add: e(1) tid_fields_def path_only_def tid_new_def f)
qed

lemma streq_refl [simp]: "shr_streq0 a a" "shr_streqcase0 a a"
  by (simp_all add: shr_streq0_def shr_streqcase0_def strcasecmp_eq_def split: option.split)

text \<open>An exclusion made from a controller excludes it.  For every transport ID as the parser makes
  them, the entry \<open>libnvmf_exclusion_add_ctrl\<close> builds from its transport, address, service, subsystem and
  interface is valid, and it matches every transport ID with the same path, whichever host NQN, host
  identifier and host address it has.\<close>

theorem exclusion_ctrl_matches:
  assumes "inet_ok net" "tid_parse net mok ctx_ok out_ok strict str = Inr t"
    "excl_entry_from_ctrl (ctrl_of t) EXCL_LINE_MAX = Inr entry" "path_only u = path_only t"
  shows "entry_valid net (Some entry) \<and> entry_matches net entry u"
proof -
  note g = tid_parse_good [OF assms(1,2)]
  have p: "tid_parse net mem_ok True True s (Some entry) = Inr (path_only t)" for s
    using parse_fields [OF _ _ path_only_sanitized [OF g(3,2)] entry_from_ctrl_tokens [OF assms(3) g(1)]]
      path_only_clean [OF g(1)] by blast
  have ne: "\<not> libnvmf_tid_is_empty (Some (path_only t))"
    using assms(3) by (auto simp: excl_entry_from_ctrl_def ctrl_of_def libnvmf_tid_is_empty_def path_only_def split: option.splits)
  have "transport u = transport t" "traddr u = traddr t" "trsvcid u = trsvcid t" "subsysnqn u = subsysnqn t"
    "host_iface u = host_iface t"
    using assms(4) by (simp_all add: path_only_def tid_new_def)
  then have "tid_subset_match net (path_only t) u"
    by (auto simp: tid_subset_match_def path_only_def addr_equal_def tid_new_def)
  then show ?thesis
    by (simp add: entry_valid_def entry_matches_def libnvmf_tid_parse_strict_def libnvmf_tid_parse_strict_at_level_def p ne)
qed

theorem exclusion_ctrl_matches_witness:
  "entry_valid v4_net (Some ''transport=loop;traddr=x;nqn=a'') \<and>
   entry_matches v4_net ''transport=loop;traddr=x;nqn=a''
     (tid_new\<lparr>transport := Some ''loop'', traddr := Some ''x'', subsysnqn := Some ''a'', hostid := Some ''h''\<rparr>)"
proof -
  let ?t = "tid_new\<lparr>transport := Some ''loop'', traddr := Some ''x'', subsysnqn := Some ''a''\<rparr>"
  have "canonical_text ?t = ''transport=loop;traddr=x;nqn=a''"
    by (simp add: canonical_text_def append_kv_def tid_new_def CANONICAL_MAX_def)
  moreover have "tid_clean ?t" "no_cache ?t" "sanitized v4_net ?t"
    by (simp_all add: tid_clean_iff tid_new_def clean_def ctype_defs no_cache_def sanitized_def tid_sanitize_addr_def)
  ultimately have p: "tid_parse v4_net mem_ok True True True (Some ''transport=loop;traddr=x;nqn=a'') = Inr ?t"
    using parse_canonical [of ?t v4_net True] by (simp add: CANONICAL_MAX_def)
  have "excl_entry_from_ctrl (ctrl_of ?t) EXCL_LINE_MAX = Inr ''transport=loop;traddr=x;nqn=a''"
    by (simp add: excl_entry_from_ctrl_def ctrl_of_def tid_new_def append_max_def append_set_def EXCL_LINE_MAX_def)
  then show ?thesis
    by (rule exclusion_ctrl_matches [OF v4_net_ok p]) (simp add: path_only_def tid_new_def)
qed

text \<open>A list whose last line has no newline.\<close>

definition glued_files :: files where
  "glued_files = [''/etc/nvme/exclusions.conf'' \<mapsto> ''[exclusions]'' @ [LF] @ ''exclusion = nqn=a'']"

lemma glued_lines: "file_lines (''[exclusions]'' @ [LF] @ ''exclusion = nqn=a'') = [''[exclusions]'' @ [LF], ''exclusion = nqn=a'']"
proof -
  have "fgets_lines (EXCL_LINE_MAX - 1) (''[exclusions]'' @ [LF] @ ''exclusion = nqn=a'') = [''[exclusions]'' @ [LF], ''exclusion = nqn=a'']"
    by (subst fgets_lines.simps, simp add: fgets_line_def EXCL_LINE_MAX_def,
        subst fgets_lines.simps, simp add: fgets_line_def, subst fgets_lines.simps, simp)
  then show ?thesis by (simp add: file_lines_def cstr_def)
qed


lemma one_entry:
  assumes "trimmed e" "e \<noteq> []"
  shows "line_entries [''[exclusions]'', ''exclusion = '' @ e] False = [e]"
proof -
  have "line_entries [''[exclusions]''] False = []" "after_line ''[exclusions]'' False = True"
    using trim_header classify_header by (simp_all add: after_line_def EXCL_SECTION_def)
  moreover have "line_entries [''exclusion = '' @ e] True = [e]"
    using classify_entry [OF assms] by (simp add: EXCL_LINE_KEY_def)
  ultimately show ?thesis
    using line_entries_append [of "[''[exclusions]'']" "[''exclusion = '' @ e]" False] by (simp del: line_entries.simps(2))
qed

text \<open>Adding to a file whose last line has no newline - hand-edited, or saved by
  \<open>libnvmf_exclusion_write\<close>, which accepts such a text - glues the new entry to the last line.  Here the
  list excludes subsystem \<open>a\<close>; adding an exclusion of \<open>b\<close> succeeds, and afterwards neither \<open>a\<close> nor
  \<open>b\<close> is excluded.\<close>

theorem exclusion_add_glues:
  "\<exists>files'. libnvmf_exclusion_add net (Some demo_ctx) all_ok None (Some ''nqn=b'') glued_files = (None, files') \<and>
     libnvmf_exclusion_match net (Some demo_ctx) glued_files None (Some (tid_new\<lparr>subsysnqn := Some ''a''\<rparr>)) \<and>
     \<not> libnvmf_exclusion_match net (Some demo_ctx) files' None (Some (tid_new\<lparr>subsysnqn := Some ''a''\<rparr>)) \<and>
     \<not> libnvmf_exclusion_match net (Some demo_ctx) files' None (Some (tid_new\<lparr>subsysnqn := Some ''b''\<rparr>))"
proof -
  let ?old = "''[exclusions]'' @ [LF] @ ''exclusion = nqn=a''" and ?m = "''/etc/nvme/exclusions.conf''"
  let ?e = "''nqn=aexclusion = nqn=b''"
  let ?new = "lines_text [''[exclusions]'', ''exclusion = '' @ ?e]"
  have c: "clean ''a''" "clean ''b''" "clean ''aexclusion = nqn=b''" by (simp_all add: clean_def ctype_defs)
  have t: "trimmed ''nqn=a''" "trimmed ?e" by (simp_all add: trimmed_def ctype_defs)
  have v: "entry_valid net (Some ''nqn=b'')" using nqn_entry(1) [OF c(2)] by simp
  have d: "excl_dir demo_ctx None = Some ''/etc/nvme''"
    by (simp add: excl_dir_def excl_base_def demo_ctx_def excl_base_default_def)
  have al: "after_line ''[exclusions]'' False = True" "after_line ''exclusion = nqn=a'' True = True"
    using trim_header classify_header classify_entry [OF t(1)] by (simp_all add: after_line_def EXCL_SECTION_def EXCL_LINE_KEY_def)
  have "after_line (l @ [LF]) b = after_line l b" for l b by (simp add: after_line_def)
  then have "fold after_line (file_lines ?old) False" unfolding glued_lines by (simp only: fold_simps al)
  then have "add_scan (file_lines ?old) False False = (True, True)"
    using add_scan_fst [of "file_lines ?old" False False] add_scan_section [of False False "file_lines ?old"]
    by (cases "add_scan (file_lines ?old) False False") auto
  then have n: "add_content None (Some ?old) ''nqn=b'' = ?new"
    unfolding add_content_def option.case by (simp add: glued_lines [simplified] EXCL_LINE_KEY_def)
  have "libnvmf_exclusion_add net (Some demo_ctx) all_ok None (Some ''nqn=b'') glued_files =
      commit all_ok ?m (add_content None (glued_files ?m) ''nqn=b'') glued_files"
    by (simp add: libnvmf_exclusion_add_def v ensure_excl_dir_def d excl_path_def demo_main excl_tmp_def fits_def PATH_MAX_def
        open_tmp_def all_ok_def)
  moreover have g: "glued_files ?m = Some ?old" by (simp add: glued_files_def)
  ultimately have a: "libnvmf_exclusion_add net (Some demo_ctx) all_ok None (Some ''nqn=b'') glued_files = (None, glued_files(?m \<mapsto> ?new))"
    unfolding g n by (simp add: commit_def all_ok_def)
  have "list_all line_ok [''[exclusions]'', ''exclusion = '' @ ?e]" by (simp add: line_ok_def EXCL_LINE_MAX_def)
  then have "entries ?new = [?e]" using one_entry [OF t(2)] file_lines_text by (simp only: line_entries_LF) simp
  then have m: "libnvmf_exclusion_match net (Some demo_ctx) (glued_files(?m \<mapsto> ?new)) None (Some u) \<longleftrightarrow> entry_matches net ?e u" for u
    using match_main_update [OF demo_main, of net glued_files ?new None u] by (simp split: option.splits)
  have "line_entries [l @ [LF], x] b = line_entries [l, x] b" for l x b by simp
  then have "main_entries demo_ctx glued_files = [''nqn=a'']"
    using one_entry [OF t(1)] by (simp only: main_entries_def demo_main option.case g glued_lines) simp
  then have "libnvmf_exclusion_match net (Some demo_ctx) glued_files None (Some (tid_new\<lparr>subsysnqn := Some ''a''\<rparr>))"
    using nqn_entry(2) [OF c(1)] by (simp add: match_main split: option.splits)
  moreover have "\<not> entry_matches net ?e (tid_new\<lparr>subsysnqn := Some ''a''\<rparr>)" "\<not> entry_matches net ?e (tid_new\<lparr>subsysnqn := Some ''b''\<rparr>)"
    using nqn_entry(2) [OF c(3), of net] by simp_all
  ultimately show ?thesis using a m by blast
qed

end
