(* ===== verification/Ttlv.thy ===== *)
theory Ttlv
  imports Prelude
begin

text \<open>
  KMIP TTLV encoding, \<open>keysd/src/ttlv.c\<close>: the growing encoder buffer with its sticky error and
  its stack of open structures, and the decoder that walks items in place.

  \<open>dat\<close> is the whole memory block behind \<open>data\<close> (its size is \<open>cap\<close>), of which the first \<open>len\<close>
  bytes are in use.  \<open>fresh n\<close> is the block \<open>malloc(n)\<close> returns, with whatever it contains, or
  None.  The ghost field \<open>freed\<close> records the contents of every block at the moment it is given to
  \<open>free\<close>: the buffer may hold secrets.  A reader is the list of the bytes from \<open>p\<close> to \<open>end\<close>, an
  item's \<open>val\<close> the bytes of its padded value.
\<close>

section \<open>Numbers in big-endian order\<close>

definition pad8 :: "nat \<Rightarrow> nat" where
  "pad8 len = (len + 7) div 8 * 8"

definition put_be32 :: "u32 \<Rightarrow> bytes" where
  "put_be32 v = [ucast (drop_bit 24 v), ucast (drop_bit 16 v), ucast (drop_bit 8 v), ucast v]"

definition put_be64 :: "u64 \<Rightarrow> bytes" where
  "put_be64 v = put_be32 (ucast (drop_bit 32 v)) @ put_be32 (ucast v)"

definition get_be32 :: "bytes \<Rightarrow> u32" where
  "get_be32 p = push_bit 24 (ucast (p ! 0)) OR push_bit 16 (ucast (p ! 1)) OR
     push_bit 8 (ucast (p ! 2)) OR ucast (p ! 3)"

definition get_be64 :: "bytes \<Rightarrow> u64" where
  "get_be64 p = push_bit 32 (ucast (get_be32 p)) OR ucast (get_be32 (drop 4 p))"

section \<open>The encoder\<close>

definition TTLV_STRUCTURE :: u8 where "TTLV_STRUCTURE = 0x01"
definition TTLV_INTEGER :: u8 where "TTLV_INTEGER = 0x02"
definition TTLV_LONG :: u8 where "TTLV_LONG = 0x03"
definition TTLV_BIG_INT :: u8 where "TTLV_BIG_INT = 0x04"
definition TTLV_ENUM :: u8 where "TTLV_ENUM = 0x05"
definition TTLV_BOOL :: u8 where "TTLV_BOOL = 0x06"
definition TTLV_TEXT :: u8 where "TTLV_TEXT = 0x07"
definition TTLV_BYTES :: u8 where "TTLV_BYTES = 0x08"
definition TTLV_DATE_TIME :: u8 where "TTLV_DATE_TIME = 0x09"
definition TTLV_INTERVAL :: u8 where "TTLV_INTERVAL = 0x0a"

lemmas ttlv_types = TTLV_STRUCTURE_def TTLV_INTEGER_def TTLV_LONG_def TTLV_BIG_INT_def TTLV_ENUM_def
  TTLV_BOOL_def TTLV_TEXT_def TTLV_BYTES_def TTLV_DATE_TIME_def TTLV_INTERVAL_def

definition TTLV_HDR_LEN :: nat where "TTLV_HDR_LEN = 8"
definition TTLV_MAX_DEPTH :: nat where "TTLV_MAX_DEPTH = 16"
definition SIZE_MAX :: nat where "SIZE_MAX = 2 ^ 64 - 1"
definition UINT32_MAX :: nat where "UINT32_MAX = 2 ^ 32 - 1"

text \<open>\<open>opens\<close> holds the first \<open>depth\<close> entries of the array \<open>open\<close>.\<close>

record ttlv_buf =
  dat :: bytes
  len :: nat
  cap :: nat
  err :: "errno option"
  opens :: "nat list"
  freed :: "bytes list"

definition ttlv_buf_init :: "ttlv_buf \<Rightarrow> ttlv_buf" where
  "ttlv_buf_init b = b\<lparr>dat := [], len := 0, cap := 0, err := None, opens := []\<rparr>"

definition explicit_bzero :: "nat \<Rightarrow> bytes \<Rightarrow> bytes" where
  "explicit_bzero n p = blit 0 (replicate n 0) p"

definition ttlv_buf_free :: "ttlv_buf \<Rightarrow> ttlv_buf" where
  "ttlv_buf_free b = ttlv_buf_init (if dat b \<noteq> [] then b\<lparr>freed := freed b @ [explicit_bzero (cap b) (dat b)]\<rparr> else b)"

text \<open>The doubling loop; the capacity it starts from is never 0.\<close>

function grow :: "nat \<Rightarrow> nat \<Rightarrow> nat \<Rightarrow> nat option" where
  "grow n blen c =
     (if 0 < c \<and> n > c - blen then (if c > SIZE_MAX div 2 then None else grow n blen (c * 2))
      else Some c)"
  by pat_completeness auto
termination by (relation "measure (\<lambda>(n, blen, c). n + blen - c)") auto

declare grow.simps [simp del]

text \<open>The new state and the offset of the reserved bytes, None for NULL.\<close>

definition reserve :: "(nat \<Rightarrow> bytes option) \<Rightarrow> ttlv_buf \<Rightarrow> nat \<Rightarrow> ttlv_buf \<times> nat option" where
  "reserve fresh b n =
     (if err b \<noteq> None then (b, None)
      else
        (let room = (if n > cap b - len b then
               (case grow n (len b) (if cap b \<noteq> 0 then cap b else 256) of
                  None \<Rightarrow> None
                | Some c \<Rightarrow> (case fresh c of
                     None \<Rightarrow> None
                   | Some p \<Rightarrow>
                       Some (if dat b \<noteq> []
                             then b\<lparr>dat := blit 0 (take (len b) (dat b)) p, cap := c,
                                    freed := freed b @ [explicit_bzero (cap b) (dat b)]\<rparr>
                             else b\<lparr>dat := p, cap := c\<rparr>)))
             else Some b)
         in case room of
              None \<Rightarrow> (b\<lparr>err := Some ENOMEM\<rparr>, None)
            | Some b1 \<Rightarrow> (b1\<lparr>dat := blit (len b1) (replicate n 0) (dat b1), len := len b1 + n\<rparr>,
                          Some (len b1))))"

definition add_item ::
  "(nat \<Rightarrow> bytes option) \<Rightarrow> ttlv_buf \<Rightarrow> u32 \<Rightarrow> u8 \<Rightarrow> nat \<Rightarrow> ttlv_buf \<times> nat option" where
  "add_item fresh b tag type n =
     (if n > UINT32_MAX then ((if err b = None then b\<lparr>err := Some EOVERFLOW\<rparr> else b), None)
      else (case reserve fresh b (TTLV_HDR_LEN + pad8 n) of
              (b1, None) \<Rightarrow> (b1, None)
            | (b1, Some p) \<Rightarrow>
                (b1\<lparr>dat := blit (p + 4) (put_be32 (of_nat n))
                             (blit p (put_be32 (push_bit 8 tag OR ucast type)) (dat b1))\<rparr>,
                 Some (p + TTLV_HDR_LEN))))"

definition ttlv_begin :: "(nat \<Rightarrow> bytes option) \<Rightarrow> ttlv_buf \<Rightarrow> u32 \<Rightarrow> ttlv_buf" where
  "ttlv_begin fresh b tag =
     (if err b \<noteq> None then b
      else if length (opens b) = TTLV_MAX_DEPTH then b\<lparr>err := Some E2BIG\<rparr>
      else (case add_item fresh b tag TTLV_STRUCTURE 0 of
              (b1, None) \<Rightarrow> b1
            | (b1, Some p) \<Rightarrow> b1\<lparr>opens := opens b1 @ [len b]\<rparr>))"

definition ttlv_end :: "ttlv_buf \<Rightarrow> ttlv_buf" where
  "ttlv_end b =
     (if err b \<noteq> None then b
      else if opens b = [] then b\<lparr>err := Some EINVAL\<rparr>
      else (let start = last (opens b); n = len b - start - TTLV_HDR_LEN; b1 = b\<lparr>opens := butlast (opens b)\<rparr>
            in if n > UINT32_MAX then b1\<lparr>err := Some EOVERFLOW\<rparr>
               else b1\<lparr>dat := blit (start + 4) (put_be32 (of_nat n)) (dat b1)\<rparr>))"

text \<open>What the adders share: the item, and its value at the returned pointer.\<close>

definition put_value :: "ttlv_buf \<times> nat option \<Rightarrow> bytes \<Rightarrow> ttlv_buf" where
  "put_value r v = (case r of (b, None) \<Rightarrow> b | (b, Some p) \<Rightarrow> b\<lparr>dat := blit p v (dat b)\<rparr>)"

definition ttlv_add_int :: "(nat \<Rightarrow> bytes option) \<Rightarrow> ttlv_buf \<Rightarrow> u32 \<Rightarrow> u32 \<Rightarrow> ttlv_buf" where
  "ttlv_add_int fresh b tag v = put_value (add_item fresh b tag TTLV_INTEGER 4) (put_be32 v)"

definition ttlv_add_long :: "(nat \<Rightarrow> bytes option) \<Rightarrow> ttlv_buf \<Rightarrow> u32 \<Rightarrow> u64 \<Rightarrow> ttlv_buf" where
  "ttlv_add_long fresh b tag v = put_value (add_item fresh b tag TTLV_LONG 8) (put_be64 v)"

definition ttlv_add_enum :: "(nat \<Rightarrow> bytes option) \<Rightarrow> ttlv_buf \<Rightarrow> u32 \<Rightarrow> u32 \<Rightarrow> ttlv_buf" where
  "ttlv_add_enum fresh b tag v = put_value (add_item fresh b tag TTLV_ENUM 4) (put_be32 v)"

definition ttlv_add_bool :: "(nat \<Rightarrow> bytes option) \<Rightarrow> ttlv_buf \<Rightarrow> u32 \<Rightarrow> bool \<Rightarrow> ttlv_buf" where
  "ttlv_add_bool fresh b tag v = put_value (add_item fresh b tag TTLV_BOOL 8) (put_be64 (of_bool v))"

definition add_string :: "(nat \<Rightarrow> bytes option) \<Rightarrow> ttlv_buf \<Rightarrow> u32 \<Rightarrow> u8 \<Rightarrow> bytes \<Rightarrow> ttlv_buf" where
  "add_string fresh b tag type v = put_value (add_item fresh b tag type (length v)) v"

definition ttlv_add_text :: "(nat \<Rightarrow> bytes option) \<Rightarrow> ttlv_buf \<Rightarrow> u32 \<Rightarrow> string \<Rightarrow> ttlv_buf" where
  "ttlv_add_text fresh b tag s = add_string fresh b tag TTLV_TEXT (map of_char s)"

definition ttlv_add_bytes :: "(nat \<Rightarrow> bytes option) \<Rightarrow> ttlv_buf \<Rightarrow> u32 \<Rightarrow> bytes \<Rightarrow> ttlv_buf" where
  "ttlv_add_bytes fresh b tag v = add_string fresh b tag TTLV_BYTES v"

definition ttlv_add_date_time :: "(nat \<Rightarrow> bytes option) \<Rightarrow> ttlv_buf \<Rightarrow> u32 \<Rightarrow> u64 \<Rightarrow> ttlv_buf" where
  "ttlv_add_date_time fresh b tag v = put_value (add_item fresh b tag TTLV_DATE_TIME 8) (put_be64 v)"

definition ttlv_add_interval :: "(nat \<Rightarrow> bytes option) \<Rightarrow> ttlv_buf \<Rightarrow> u32 \<Rightarrow> u32 \<Rightarrow> ttlv_buf" where
  "ttlv_add_interval fresh b tag v = put_value (add_item fresh b tag TTLV_INTERVAL 4) (put_be32 v)"

section \<open>The decoder\<close>

record ttlv_item =
  itag :: u32
  itype :: u8
  ilen :: u32
  ival :: bytes

definition ttlv_reader_init :: "bytes \<Rightarrow> nat \<Rightarrow> bytes" where
  "ttlv_reader_init buf n = (if n \<noteq> 0 then take n buf else [])"

definition fixed_len :: "u8 \<Rightarrow> u32" where
  "fixed_len type =
     (if type = TTLV_INTEGER \<or> type = TTLV_ENUM \<or> type = TTLV_INTERVAL then 4
      else if type = TTLV_LONG \<or> type = TTLV_BOOL \<or> type = TTLV_DATE_TIME then 8
      else 0)"

text \<open>\<open>Inl\<close> is the error (the reader keeps its place), \<open>Inr None\<close> the end (0), and otherwise the
  item with the advanced reader (1).\<close>

definition ttlv_next :: "bytes \<Rightarrow> (ttlv_item \<times> bytes) option res" where
  "ttlv_next r =
     (let avail = length r
      in if avail = 0 then Inr None
         else if avail < TTLV_HDR_LEN then Inl EBADMSG
         else
           (let hdr = get_be32 r; tag = drop_bit 8 hdr; type = ucast (hdr AND 0xff); n = get_be32 (drop 4 r);
                fixed = fixed_len type; padded = pad8 (unat n)
            in if type < TTLV_STRUCTURE \<or> type > TTLV_INTERVAL then Inl EBADMSG
               else if fixed \<noteq> 0 \<and> n \<noteq> fixed then Inl EBADMSG
               else if (type = TTLV_STRUCTURE \<or> type = TTLV_BIG_INT) \<and> n mod 8 \<noteq> 0 then Inl EBADMSG
               else if padded > avail - TTLV_HDR_LEN then Inl EBADMSG
               else Inr (Some (\<lparr>itag = tag, itype = type, ilen = n,
                                ival = take padded (drop TTLV_HDR_LEN r)\<rparr>,
                               drop (TTLV_HDR_LEN + padded) r))))"

lemma ttlv_next_shorter: "ttlv_next r = Inr (Some (it, r')) \<Longrightarrow> length r' < length r"
  by (auto simp: ttlv_next_def Let_def TTLV_HDR_LEN_def split: if_splits)

function ttlv_find :: "bytes \<Rightarrow> u32 \<Rightarrow> (ttlv_item \<times> bytes) option res" where
  "ttlv_find r tag = (case ttlv_next r of
      Inl e \<Rightarrow> Inl e
    | Inr None \<Rightarrow> Inr None
    | Inr (Some (it, r')) \<Rightarrow> if itag it = tag then Inr (Some (it, r')) else ttlv_find r' tag)"
  by pat_completeness auto
termination by (relation "measure (\<lambda>(r, tag). length r)") (auto dest: ttlv_next_shorter)

declare ttlv_find.simps [simp del]

definition ttlv_open :: "ttlv_item \<Rightarrow> bytes res" where
  "ttlv_open it = (if itype it \<noteq> TTLV_STRUCTURE then Inl EBADMSG
                   else Inr (ttlv_reader_init (ival it) (unat (ilen it))))"

definition ttlv_get_int :: "ttlv_item \<Rightarrow> u32 res" where
  "ttlv_get_int it = (if itype it \<noteq> TTLV_INTEGER then Inl EBADMSG else Inr (get_be32 (ival it)))"

definition ttlv_get_long :: "ttlv_item \<Rightarrow> u64 res" where
  "ttlv_get_long it = (if itype it \<noteq> TTLV_LONG then Inl EBADMSG else Inr (get_be64 (ival it)))"

definition ttlv_get_enum :: "ttlv_item \<Rightarrow> u32 res" where
  "ttlv_get_enum it = (if itype it \<noteq> TTLV_ENUM then Inl EBADMSG else Inr (get_be32 (ival it)))"

definition ttlv_get_bool :: "ttlv_item \<Rightarrow> bool res" where
  "ttlv_get_bool it =
     (if itype it \<noteq> TTLV_BOOL then Inl EBADMSG
      else if get_be64 (ival it) > 1 then Inl EBADMSG
      else Inr (get_be64 (ival it) \<noteq> 0))"

section \<open>Reference: items as trees\<close>

datatype ttlv =
    TStruct u32 "ttlv list" | TInt u32 u32 | TLong u32 u64 | TEnum u32 u32 | TBool u32 bool
  | TText u32 string | TBytes u32 bytes | TDate u32 u64 | TInterval u32 u32

definition hdr :: "u32 \<Rightarrow> u8 \<Rightarrow> nat \<Rightarrow> bytes" where
  "hdr tag type n = put_be32 (push_bit 8 tag OR ucast type) @ put_be32 (of_nat n)"

definition leaf :: "u32 \<Rightarrow> u8 \<Rightarrow> bytes \<Rightarrow> bytes" where
  "leaf tag type v = hdr tag type (length v) @ v @ replicate (pad8 (length v) - length v) 0"

fun ttlv_enc :: "ttlv \<Rightarrow> bytes" where
  "ttlv_enc (TStruct t xs) =
     hdr t TTLV_STRUCTURE (length (concat (map ttlv_enc xs))) @ concat (map ttlv_enc xs)"
| "ttlv_enc (TInt t v) = leaf t TTLV_INTEGER (put_be32 v)"
| "ttlv_enc (TLong t v) = leaf t TTLV_LONG (put_be64 v)"
| "ttlv_enc (TEnum t v) = leaf t TTLV_ENUM (put_be32 v)"
| "ttlv_enc (TBool t v) = leaf t TTLV_BOOL (put_be64 (of_bool v))"
| "ttlv_enc (TText t s) = leaf t TTLV_TEXT (map of_char s)"
| "ttlv_enc (TBytes t v) = leaf t TTLV_BYTES v"
| "ttlv_enc (TDate t v) = leaf t TTLV_DATE_TIME (put_be64 v)"
| "ttlv_enc (TInterval t v) = leaf t TTLV_INTERVAL (put_be32 v)"

text \<open>A caller that writes a tree: \<open>ttlv_begin\<close>, the children, \<open>ttlv_end\<close>.\<close>

fun emit :: "(nat \<Rightarrow> bytes option) \<Rightarrow> ttlv_buf \<Rightarrow> ttlv \<Rightarrow> ttlv_buf" where
  "emit fresh b (TStruct t xs) = ttlv_end (foldl (\<lambda>c x. emit fresh c x) (ttlv_begin fresh b t) xs)"
| "emit fresh b (TInt t v) = ttlv_add_int fresh b t v"
| "emit fresh b (TLong t v) = ttlv_add_long fresh b t v"
| "emit fresh b (TEnum t v) = ttlv_add_enum fresh b t v"
| "emit fresh b (TBool t v) = ttlv_add_bool fresh b t v"
| "emit fresh b (TText t s) = ttlv_add_text fresh b t s"
| "emit fresh b (TBytes t v) = ttlv_add_bytes fresh b t v"
| "emit fresh b (TDate t v) = ttlv_add_date_time fresh b t v"
| "emit fresh b (TInterval t v) = ttlv_add_interval fresh b t v"

text \<open>Trees the format can hold: 24-bit tags, lengths of 32 bits, at most \<open>d\<close> levels.\<close>

fun ttlv_ok :: "nat \<Rightarrow> ttlv \<Rightarrow> bool" where
  "ttlv_ok d (TStruct t xs) \<longleftrightarrow> unat t < 2 ^ 24 \<and> 0 < d \<and> list_all (ttlv_ok (d - 1)) xs \<and>
     length (concat (map ttlv_enc xs)) \<le> UINT32_MAX"
| "ttlv_ok d (TText t s) \<longleftrightarrow> unat t < 2 ^ 24 \<and> length s \<le> UINT32_MAX"
| "ttlv_ok d (TBytes t v) \<longleftrightarrow> unat t < 2 ^ 24 \<and> length v \<le> UINT32_MAX"
| "ttlv_ok d (TInt t v) \<longleftrightarrow> unat t < 2 ^ 24"
| "ttlv_ok d (TLong t v) \<longleftrightarrow> unat t < 2 ^ 24"
| "ttlv_ok d (TEnum t v) \<longleftrightarrow> unat t < 2 ^ 24"
| "ttlv_ok d (TBool t v) \<longleftrightarrow> unat t < 2 ^ 24"
| "ttlv_ok d (TDate t v) \<longleftrightarrow> unat t < 2 ^ 24"
| "ttlv_ok d (TInterval t v) \<longleftrightarrow> unat t < 2 ^ 24"

lemma length_put [simp]: "length (put_be32 v) = 4" "length (put_be64 w) = 8"
  by (simp_all add: put_be32_def put_be64_def)

lemma length_hdr [simp]: "length (hdr t y n) = 8" by (simp add: hdr_def)

lemma pad8_facts: "n \<le> pad8 n" "8 dvd pad8 n" "pad8 0 = 0" "pad8 4 = 8" "pad8 8 = 8" "pad8 n < n + 8"
proof -
  have "(n + 7) div 8 * 8 + (n + 7) mod 8 = n + 7" by simp
  moreover have "(n + 7) mod 8 < 8" by simp
  ultimately show "n \<le> pad8 n" "pad8 n < n + 8" unfolding pad8_def by linarith+
qed (simp_all add: pad8_def)

lemma pad8_dvd: "8 dvd n \<Longrightarrow> pad8 n = n"
  by (auto simp: pad8_def elim!: dvdE)

lemma length_leaf [simp]: "length (leaf t y v) = 8 + pad8 (length v)"
  using pad8_facts(1) [of "length v"] by (simp add: leaf_def)

lemma enc_dvd: "8 dvd length (ttlv_enc x)"
proof (induction x rule: ttlv_enc.induct)
  case (1 t xs)
  then have "8 dvd length (concat (map ttlv_enc xs))"
    by (induction xs) auto
  then show ?case by simp
qed (simp_all add: pad8_facts(2))

section \<open>The encoder writes the tree\<close>

text \<open>The invariant of the buffer, and what it holds.\<close>

definition buf_ok :: "ttlv_buf \<Rightarrow> bool" where
  "buf_ok b \<longleftrightarrow> length (dat b) = cap b \<and> len b \<le> cap b"

definition used :: "ttlv_buf \<Rightarrow> bytes" where
  "used b = take (len b) (dat b)"

lemma length_used: "buf_ok b \<Longrightarrow> length (used b) = len b"
  by (simp add: buf_ok_def used_def)

text \<open>Memory that never runs out.\<close>

definition plenty :: "(nat \<Rightarrow> bytes option) \<Rightarrow> bool" where
  "plenty fresh \<longleftrightarrow> (\<forall>n. \<exists>p. fresh n = Some p \<and> length p = n)"

lemma grow_ok:
  assumes "0 < c" "n + blen \<le> 2 ^ 63" "blen \<le> c"
  shows "\<exists>c'. grow n blen c = Some c' \<and> n + blen \<le> c'"
  using assms
proof (induction n blen c rule: grow.induct)
  case (1 n blen c)
  show ?case
  proof (cases "n > c - blen")
    case True
    then have "\<not> c > SIZE_MAX div 2" using "1.prems" by (simp add: SIZE_MAX_def)
    then show ?thesis using "1.IH" "1.prems" True by (subst grow.simps) auto
  next
    case False
    then show ?thesis using "1.prems" by (subst grow.simps) auto
  qed
qed

lemma take_blit_within: "off + length v \<le> n \<Longrightarrow> n \<le> length buf \<Longrightarrow> take n (blit off v buf) = blit off v (take n buf)"
proof -
  assume "off + length v \<le> n" "n \<le> length buf"
  then obtain k where "n = off + length v + k" by (auto simp: le_iff_add)
  then show ?thesis using \<open>n \<le> length buf\<close> by (simp add: blit_def min_absorb1 take_drop ac_simps)
qed

lemma blit_at_append: "length a = off \<Longrightarrow> length v \<le> length c \<Longrightarrow>
  blit off v (a @ c) = a @ v @ drop (length v) c"
  by (simp add: blit_def)

lemma reserve_ok:
  assumes "plenty fresh" "buf_ok b" "err b = None" "len b + n \<le> 2 ^ 63"
  shows "\<exists>b'. reserve fresh b n = (b', Some (len b)) \<and> buf_ok b' \<and> err b' = None \<and> opens b' = opens b \<and>
    len b' = len b + n \<and> used b' = used b @ replicate n 0"
proof -
  have fin: "buf_ok c \<and> used (c\<lparr>dat := blit (len c) (replicate n 0) (dat c), len := len c + n\<rparr>) = used c @ replicate n 0
      \<and> buf_ok (c\<lparr>dat := blit (len c) (replicate n 0) (dat c), len := len c + n\<rparr>)"
    if "length (dat c) = cap c" "len c + n \<le> cap c" for c
    using that by (auto simp: buf_ok_def used_def length_blit) (simp add: blit_def)
  show ?thesis
  proof (cases "n > cap b - len b")
    case True
    let ?c = "if cap b \<noteq> 0 then cap b else 256"
    have lc: "len b \<le> ?c" "0 < ?c" using assms(2) by (auto simp: buf_ok_def)
    obtain c where c: "grow n (len b) ?c = Some c" "n + len b \<le> c"
      using grow_ok [OF lc(2) _ lc(1), of n] assms(4) by auto
    obtain p where p: "fresh c = Some p" "length p = c" using assms(1) by (auto simp: plenty_def)
    define b1 where "b1 = (if dat b \<noteq> []
      then b\<lparr>dat := blit 0 (take (len b) (dat b)) p, cap := c, freed := freed b @ [explicit_bzero (cap b) (dat b)]\<rparr>
      else b\<lparr>dat := p, cap := c\<rparr>)"
    have lb: "len b \<le> length (dat b)" using assms(2) by (simp add: buf_ok_def)
    have b1: "length (dat b1) = cap b1" "len b1 = len b" "len b1 + n \<le> cap b1" "err b1 = None" "opens b1 = opens b"
      "used b1 = used b"
      using p c(2) lb assms(3) by (auto simp: b1_def length_blit used_def blit_def min_def)
    have "reserve fresh b n = (b1\<lparr>dat := blit (len b1) (replicate n 0) (dat b1), len := len b1 + n\<rparr>, Some (len b1))"
      using True c(1) p(1) assms(3) by (simp add: reserve_def b1_def Let_def split del: if_split)
    then show ?thesis using fin [OF b1(1,3)] b1 by auto
  next
    case False
    then have "len b + n \<le> cap b" using assms(2) by (auto simp: buf_ok_def)
    then show ?thesis using fin [of b] False assms by (auto simp: reserve_def Let_def buf_ok_def)
  qed
qed

lemma add_item_ok:
  assumes "plenty fresh" "buf_ok b" "err b = None" "len b + 8 + pad8 n \<le> 2 ^ 63" "n \<le> UINT32_MAX"
  shows "\<exists>b'. add_item fresh b tag type n = (b', Some (len b + 8)) \<and> buf_ok b' \<and> err b' = None \<and>
    opens b' = opens b \<and> len b' = len b + 8 + pad8 n \<and> used b' = used b @ hdr tag type n @ replicate (pad8 n) 0"
proof -
  obtain c where c: "reserve fresh b (8 + pad8 n) = (c, Some (len b))" "buf_ok c" "err c = None" "opens c = opens b"
    "len c = len b + (8 + pad8 n)" "used c = used b @ replicate (8 + pad8 n) 0"
    using reserve_ok [OF assms(1-3), of "8 + pad8 n"] assms(4) by auto
  let ?d = "blit (len b + 4) (put_be32 (of_nat n)) (blit (len b) (put_be32 (push_bit 8 tag OR ucast type)) (dat c))"
  have lc: "len c \<le> length (dat c)" using c(2) by (simp add: buf_ok_def)
  have ub: "length (used b) = len b" by (rule length_used [OF assms(2)])
  have "take (len c) ?d = blit (len b + 4) (put_be32 (of_nat n))
      (blit (len b) (put_be32 (push_bit 8 tag OR ucast type)) (used c))"
    using lc c(5) by (simp add: take_blit_within length_blit used_def)
  also have "\<dots> = used b @ hdr tag type n @ replicate (pad8 n) 0"
    using ub blit_at_append [of "used b @ put_be32 (push_bit 8 tag OR ucast type)" "len b + 4"
        "put_be32 (of_nat n)" "replicate (4 + pad8 n) 0"]
    by (simp add: c(6) blit_at_append hdr_def drop_replicate)
  finally show ?thesis using assms(5) c lc
    by (auto simp: add_item_def TTLV_HDR_LEN_def not_less buf_ok_def used_def length_blit)
qed

lemma put_value_ok:
  assumes "plenty fresh" "buf_ok b" "err b = None" "len b + length (leaf tag type v) \<le> 2 ^ 63" "length v \<le> UINT32_MAX"
  shows "\<exists>b'. put_value (add_item fresh b tag type (length v)) v = b' \<and> buf_ok b' \<and> err b' = None \<and>
    opens b' = opens b \<and> used b' = used b @ leaf tag type v"
proof -
  obtain c where c: "add_item fresh b tag type (length v) = (c, Some (len b + 8))" "buf_ok c" "err c = None"
    "opens c = opens b" "len c = len b + 8 + pad8 (length v)"
    "used c = used b @ hdr tag type (length v) @ replicate (pad8 (length v)) 0"
    using add_item_ok [OF assms(1-3) _ assms(5)] assms(4) by auto
  have lc: "len c \<le> length (dat c)" using c(2) by (simp add: buf_ok_def)
  have "take (len c) (blit (len b + 8) v (dat c)) = blit (len b + 8) v (used c)"
    using lc c(5) pad8_facts(1) [of "length v"] by (simp add: take_blit_within used_def)
  also have "\<dots> = used b @ leaf tag type v"
    using length_used [OF assms(2)] pad8_facts(1) [of "length v"]
      blit_at_append [of "used b @ hdr tag type (length v)" "len b + 8" v "replicate (pad8 (length v)) 0"]
    by (simp add: c(6) leaf_def)
  finally show ?thesis using c lc pad8_facts(1) [of "length v"]
    by (auto simp: put_value_def buf_ok_def used_def length_blit)
qed

lemma ttlv_begin_ok:
  assumes "plenty fresh" "buf_ok b" "err b = None" "len b + 8 \<le> 2 ^ 63" "length (opens b) < 16"
  shows "buf_ok (ttlv_begin fresh b t) \<and> err (ttlv_begin fresh b t) = None \<and>
    opens (ttlv_begin fresh b t) = opens b @ [len b] \<and> used (ttlv_begin fresh b t) = used b @ hdr t TTLV_STRUCTURE 0"
proof -
  obtain c where "add_item fresh b t TTLV_STRUCTURE 0 = (c, Some (len b + 8))" "buf_ok c" "err c = None"
    "opens c = opens b" "used c = used b @ hdr t TTLV_STRUCTURE 0 @ replicate (pad8 0) 0"
    using add_item_ok [OF assms(1-3), of 0] assms(4) by (auto simp: pad8_facts)
  then show ?thesis using assms
    by (auto simp: ttlv_begin_def TTLV_MAX_DEPTH_def buf_ok_def used_def pad8_facts)
qed

lemma ttlv_end_ok:
  assumes "buf_ok b" "err b = None" "opens b = os @ [length pre]" "used b = pre @ hdr t TTLV_STRUCTURE 0 @ body"
    "length body \<le> UINT32_MAX"
  shows "buf_ok (ttlv_end b) \<and> err (ttlv_end b) = None \<and> opens (ttlv_end b) = os \<and>
    used (ttlv_end b) = pre @ hdr t TTLV_STRUCTURE (length body) @ body"
proof -
  have lb: "len b = length pre + 8 + length body" using length_used [OF assms(1)] assms(4) by simp
  have dl: "length (dat b) = cap b" "len b \<le> cap b" using assms(1) by (auto simp: buf_ok_def)
  have "take (len b) (blit (length pre + 4) (put_be32 (of_nat (length body))) (dat b)) =
      blit (length pre + 4) (put_be32 (of_nat (length body))) (used b)"
    using dl lb by (simp add: take_blit_within used_def)
  also have "\<dots> = pre @ hdr t TTLV_STRUCTURE (length body) @ body"
    using blit_at_append [of "pre @ put_be32 (push_bit 8 t OR ucast TTLV_STRUCTURE)" "length pre + 4"
        "put_be32 (of_nat (length body))" "put_be32 (of_nat 0) @ body"]
    by (simp add: assms(4) hdr_def)
  finally show ?thesis using assms dl lb
    by (auto simp: ttlv_end_def Let_def TTLV_HDR_LEN_def not_less buf_ok_def used_def length_blit)
qed

text \<open>What \<open>emit\<close> establishes, and its version for the children of a structure.\<close>

definition wrote :: "ttlv_buf \<Rightarrow> bytes \<Rightarrow> ttlv_buf \<Rightarrow> bool" where
  "wrote b out b' \<longleftrightarrow> buf_ok b' \<and> err b' = None \<and> opens b' = opens b \<and> used b' = used b @ out"

lemma wrote_len: "wrote b out b' \<Longrightarrow> buf_ok b \<Longrightarrow> len b' = len b + length out"
  using length_used [of b] length_used [of b'] by (simp add: wrote_def)

lemma foldl_wrote:
  assumes "\<And>c x. x \<in> set xs \<Longrightarrow> buf_ok c \<Longrightarrow> err c = None \<Longrightarrow> opens c = opens b \<Longrightarrow>
      len c + length (enc x) \<le> m \<Longrightarrow> wrote c (enc x) (f c x)"
    and "buf_ok b" "err b = None" "len b + length (concat (map enc xs)) \<le> m"
  shows "wrote b (concat (map enc xs)) (foldl f b xs)"
  using assms
proof (induction xs arbitrary: b)
  case Nil
  then show ?case by (simp add: wrote_def)
next
  case (Cons x xs)
  have w: "wrote b (enc x) (f b x)" using Cons.prems by auto
  have "wrote (f b x) (concat (map enc xs)) (foldl f (f b x) xs)"
    using Cons.prems w wrote_len [OF w] by (intro Cons.IH) (auto simp: wrote_def)
  then show ?case using w by (auto simp: wrote_def)
qed

lemma put_value_wrote:
  assumes "plenty fresh" "buf_ok b" "err b = None" "len b + length (leaf tag type v) \<le> 2 ^ 63" "length v \<le> UINT32_MAX"
    "n = length v"
  shows "wrote b (leaf tag type v) (put_value (add_item fresh b tag type n) v)"
  using put_value_ok [OF assms(1-5)] assms(6) by (auto simp: wrote_def)

lemmas adders = ttlv_add_int_def ttlv_add_long_def ttlv_add_enum_def ttlv_add_bool_def ttlv_add_text_def
  ttlv_add_bytes_def ttlv_add_date_time_def ttlv_add_interval_def add_string_def

lemma emit_wrote:
  assumes "plenty fresh" "buf_ok b" "err b = None" "ttlv_ok d x" "length (opens b) + d \<le> 16"
    "len b + length (ttlv_enc x) \<le> 2 ^ 63"
  shows "wrote b (ttlv_enc x) (emit fresh b x)"
  using assms(2-)
proof (induction x arbitrary: b d rule: ttlv_enc.induct)
  case (1 t xs)
  let ?b = "ttlv_begin fresh b t"
  have beg: "buf_ok ?b" "err ?b = None" "opens ?b = opens b @ [len b]" "used ?b = used b @ hdr t TTLV_STRUCTURE 0"
    using ttlv_begin_ok [OF assms(1) "1.prems"(1,2), of t] "1.prems" by auto
  have lb: "len ?b = len b + 8" using length_used [OF beg(1)] length_used [OF "1.prems"(1)] beg(4) by simp
  have "wrote ?b (concat (map ttlv_enc xs)) (foldl (emit fresh) ?b xs)"
  proof (rule foldl_wrote [where m = "2 ^ 63"])
    show "wrote c (ttlv_enc x) (emit fresh c x)"
      if "x \<in> set xs" "buf_ok c" "err c = None" "opens c = opens ?b" "len c + length (ttlv_enc x) \<le> 2 ^ 63" for c x
      using "1.IH" [OF that(1-3), of "d - 1"] that "1.prems" beg(3) by (auto simp: list_all_iff)
  qed (use beg "1.prems" lb in auto)
  then show ?case
    using ttlv_end_ok [of "foldl (emit fresh) ?b xs" "opens b" "used b" t "concat (map ttlv_enc xs)"]
      beg "1.prems" length_used [OF "1.prems"(1)] by (auto simp: wrote_def)
qed (simp_all add: adders put_value_wrote assms(1) UINT32_MAX_def)

lemma get_put_be32 [simp]: "get_be32 (put_be32 v @ r) = v"
proof (rule bit_word_eqI)
  fix n assume "n < LENGTH(32)"
  then consider "n < 8" | "8 \<le> n" "n < 16" | "16 \<le> n" "n < 24" | "24 \<le> n" "n < 32" by force
  then show "bit (get_be32 (put_be32 v @ r)) n = bit v n"
    unfolding get_be32_def put_be32_def by cases (auto simp: bit_simps)
qed

lemma get_put_be64 [simp]: "get_be64 (put_be64 v @ r) = v"
proof -
  have "get_be64 (put_be64 v @ r) = push_bit 32 (ucast (ucast (drop_bit 32 v) :: u32)) OR ucast (ucast v :: u32)"
    by (simp add: get_be64_def put_be64_def)
  also have "\<dots> = v"
    by (rule bit_word_eqI) (auto simp: bit_simps)
  finally show ?thesis .
qed

lemma hdr_fields:
  fixes t :: u32 and y :: u8
  assumes "unat t < 2 ^ 24"
  shows "drop_bit 8 (push_bit 8 t OR ucast y) = t" "ucast ((push_bit 8 t OR ucast y :: u32) AND 0xff) = y"
proof -
  have hi: "\<not> bit y (8 + n)" for n using bit_imp_le_length [of y "8 + n"] by auto
  have "take_bit 24 t = t"
    using assms by (simp add: word_unat_eq_iff unsigned_take_bit_eq take_bit_nat_eq_self)
  then have "n < 24" if "bit t n" for n
    using that by (metis bit_take_bit_iff)
  then show "drop_bit 8 (push_bit 8 t OR ucast y) = t"
    using hi by (auto intro!: bit_word_eqI simp: bit_simps)
  have ff: "(0xff :: u32) = mask 8" by (simp add: mask_eq_exp_minus_1)
  show "ucast ((push_bit 8 t OR ucast y :: u32) AND 0xff) = y"
    unfolding ff by (auto intro!: bit_word_eqI simp: bit_simps)
qed

section \<open>The decoder reads the tree\<close>

text \<open>\<open>ttlv_next\<close> on a well-formed item followed by anything.\<close>

lemma ttlv_next_item:
  assumes "unat t < 2 ^ 24" "n \<le> UINT32_MAX" "TTLV_STRUCTURE \<le> y" "y \<le> TTLV_INTERVAL"
    "fixed_len y \<noteq> 0 \<longrightarrow> n = unat (fixed_len y)" "y = TTLV_STRUCTURE \<or> y = TTLV_BIG_INT \<longrightarrow> 8 dvd n"
    "length v = pad8 n"
  shows "ttlv_next (hdr t y n @ v @ r) =
    Inr (Some (\<lparr>itag = t, itype = y, ilen = of_nat n, ival = v\<rparr>, r))"
proof -
  have n: "unat (of_nat n :: u32) = n" using assms(2) by (simp add: UINT32_MAX_def unat_of_nat)
  have "8 dvd n \<Longrightarrow> (of_nat n :: u32) mod 8 = 0"
    using n by (simp add: word_unat_eq_iff unat_mod)
  moreover have "fixed_len y = of_nat n" if "fixed_len y \<noteq> 0"
    using that assms(5) n by (simp add: word_unat_eq_iff)
  ultimately show ?thesis
    using assms n hdr_fields [OF assms(1), of y]
    by (auto simp: ttlv_next_def Let_def hdr_def TTLV_HDR_LEN_def not_less [symmetric])
qed

definition read_leaf :: "ttlv_item \<Rightarrow> ttlv res" where
  "read_leaf it =
     (if itype it = TTLV_INTEGER then map_sum id (TInt (itag it)) (ttlv_get_int it)
      else if itype it = TTLV_LONG then map_sum id (TLong (itag it)) (ttlv_get_long it)
      else if itype it = TTLV_ENUM then map_sum id (TEnum (itag it)) (ttlv_get_enum it)
      else if itype it = TTLV_BOOL then map_sum id (TBool (itag it)) (ttlv_get_bool it)
      else if itype it = TTLV_TEXT then Inr (TText (itag it) (map (char_of \<circ> unat) (take (unat (ilen it)) (ival it))))
      else if itype it = TTLV_BYTES then Inr (TBytes (itag it) (take (unat (ilen it)) (ival it)))
      else if itype it = TTLV_DATE_TIME then Inr (TDate (itag it) (get_be64 (ival it)))
      else if itype it = TTLV_INTERVAL then Inr (TInterval (itag it) (get_be32 (ival it)))
      else Inl EBADMSG)"

lemma ttlv_open_shorter:
  "ttlv_next r = Inr (Some (it, r')) \<Longrightarrow> ttlv_open it = Inr q \<Longrightarrow> length q < length r"
  by (auto simp: ttlv_next_def Let_def ttlv_open_def ttlv_reader_init_def TTLV_HDR_LEN_def split: if_splits)

function read_all :: "bytes \<Rightarrow> ttlv list res" where
  "read_all r = (case ttlv_next r of
      Inl e \<Rightarrow> Inl e
    | Inr None \<Rightarrow> Inr []
    | Inr (Some (it, r')) \<Rightarrow>
        (case (case ttlv_open it of Inl e \<Rightarrow> read_leaf it | Inr q \<Rightarrow> map_sum id (TStruct (itag it)) (read_all q)) of
           Inl e \<Rightarrow> Inl e
         | Inr x \<Rightarrow> map_sum id ((#) x) (read_all r')))"
  by pat_completeness auto
termination by (relation "measure length") (auto dest: ttlv_next_shorter ttlv_open_shorter)

declare read_all.simps [simp del]

lemma read_all_Nil [simp]: "read_all [] = Inr []"
  by (subst read_all.simps) (simp add: ttlv_next_def)

lemma read_leaf_step:
  assumes "unat t < 2 ^ 24" "length v \<le> UINT32_MAX" "TTLV_STRUCTURE < y" "y \<le> TTLV_INTERVAL"
    "fixed_len y \<noteq> 0 \<longrightarrow> length v = unat (fixed_len y)" "y \<noteq> TTLV_BIG_INT"
    "read_leaf \<lparr>itag = t, itype = y, ilen = of_nat (length v),
       ival = v @ replicate (pad8 (length v) - length v) 0\<rparr> = Inr x"
  shows "read_all (leaf t y v @ r) = map_sum id ((#) x) (read_all r)"
proof -
  let ?i = "\<lparr>itag = t, itype = y, ilen = of_nat (length v), ival = v @ replicate (pad8 (length v) - length v) 0\<rparr>"
  have "ttlv_next (leaf t y v @ r) = Inr (Some (?i, r))"
    using assms pad8_facts(1) [of "length v"] by (simp add: leaf_def) (subst append_assoc [symmetric], subst ttlv_next_item, auto)
  moreover have "ttlv_open ?i = Inl EBADMSG" using assms(3) by (auto simp: ttlv_open_def)
  ultimately show ?thesis using assms(7) by (subst read_all.simps) simp
qed

lemma read_struct_step:
  assumes "unat t < 2 ^ 24" "length q \<le> UINT32_MAX" "8 dvd length q" "read_all q = Inr xs"
  shows "read_all (hdr t TTLV_STRUCTURE (length q) @ q @ r) = map_sum id ((#) (TStruct t xs)) (read_all r)"
proof -
  have "ttlv_next (hdr t TTLV_STRUCTURE (length q) @ q @ r) =
      Inr (Some (\<lparr>itag = t, itype = TTLV_STRUCTURE, ilen = of_nat (length q), ival = q\<rparr>, r))"
    using assms by (intro ttlv_next_item) (auto simp: pad8_dvd fixed_len_def ttlv_types)
  moreover have "unat (of_nat (length q) :: u32) = length q"
    using assms(2) by (simp add: UINT32_MAX_def unat_of_nat)
  ultimately show ?thesis using assms(4)
    by (subst read_all.simps) (auto simp: ttlv_open_def ttlv_reader_init_def word_unat_eq_iff)
qed

lemma char_of_byte [simp]: "char_of (unat (of_char c :: u8)) = c"
proof -
  have "unat (of_char c :: u8) = of_char c"
    using nat_of_char_less_256 [of c] by (subst of_nat_of_char [symmetric]) (simp add: unat_of_nat)
  then show ?thesis by simp
qed

lemma read_all_enc: "ttlv_ok d x \<Longrightarrow> read_all (ttlv_enc x @ r) = map_sum id ((#) x) (read_all r)"
proof (induction x arbitrary: d r rule: ttlv_enc.induct)
  case (1 t xs)
  have "read_all (concat (map ttlv_enc ys)) = Inr ys" if "set ys \<subseteq> set xs" for ys
    using that by (induction ys) (use 1 in \<open>auto simp: list_all_iff\<close>)
  moreover have "8 dvd length (concat (map ttlv_enc xs))"
    using enc_dvd by (induction xs) auto
  ultimately show ?case using "1.prems" by (simp add: read_struct_step id_def)
next
  case (5 t v)
  then show ?case unfolding ttlv_enc.simps
    by (intro read_leaf_step) (auto simp: read_leaf_def ttlv_get_bool_def ttlv_types fixed_len_def UINT32_MAX_def)
qed (auto intro!: read_leaf_step simp: read_leaf_def ttlv_get_int_def ttlv_get_long_def ttlv_get_enum_def
    ttlv_types fixed_len_def UINT32_MAX_def unat_of_nat o_def)

section \<open>Any sequence of calls\<close>

text \<open>The calls a client can make, in any order; \<open>Emit\<close> stands for a run of the adders.\<close>

datatype ttlv_call = Begin u32 | End | Emit ttlv | Free

fun ttlv_run :: "(nat \<Rightarrow> bytes option) \<Rightarrow> ttlv_buf \<Rightarrow> ttlv_call \<Rightarrow> ttlv_buf" where
  "ttlv_run fresh b (Begin t) = ttlv_begin fresh b t"
| "ttlv_run fresh b End = ttlv_end b"
| "ttlv_run fresh b (Emit x) = emit fresh b x"
| "ttlv_run fresh b Free = ttlv_buf_free b"

text \<open>The block behind the buffer has its size, every open structure lies in it, the stack of open
  structures fits its array, and every block given back to the allocator was cleared.\<close>

definition ttlv_inv :: "ttlv_buf \<Rightarrow> bool" where
  "ttlv_inv b \<longleftrightarrow> buf_ok b \<and> (\<forall>s \<in> set (opens b). s + 8 \<le> len b) \<and> length (opens b) \<le> TTLV_MAX_DEPTH \<and>
     (\<forall>p \<in> set (freed b). set p \<subseteq> {0})"

definition blocks :: "(nat \<Rightarrow> bytes option) \<Rightarrow> bool" where
  "blocks fresh \<longleftrightarrow> (\<forall>n p. fresh n = Some p \<longrightarrow> length p = n)"

lemma set_bzero: "set (explicit_bzero (length p) p) \<subseteq> {0}"
  by (auto simp: explicit_bzero_def blit_def)

lemma grow_bound: "grow n blen c = Some c' \<Longrightarrow> 0 < c \<Longrightarrow> blen \<le> c \<Longrightarrow> c \<le> c' \<and> n + blen \<le> c'"
proof (induction n blen c rule: grow.induct)
  case (1 n blen c)
  show ?case
  proof (cases "n > c - blen")
    case True
    then show ?thesis using 1 by (auto simp: grow.simps [of n blen c] split: if_splits)
  next
    case False
    then show ?thesis using "1.prems" by (auto simp: grow.simps [of n blen c])
  qed
qed

lemma extend_inv: "ttlv_inv c \<Longrightarrow> len c + n \<le> cap c \<Longrightarrow>
  ttlv_inv (c\<lparr>dat := blit (len c) (replicate n 0) (dat c), len := len c + n\<rparr>)"
  by (auto simp: ttlv_inv_def buf_ok_def length_blit)

lemma move_inv: "ttlv_inv b \<Longrightarrow> length p = c \<Longrightarrow> len b \<le> c \<Longrightarrow>
  ttlv_inv (if dat b \<noteq> [] then b\<lparr>dat := blit 0 (take (len b) (dat b)) p, cap := c,
              freed := freed b @ [explicit_bzero (cap b) (dat b)]\<rparr>
            else b\<lparr>dat := p, cap := c\<rparr>)"
  using set_bzero [of "dat b"] by (auto simp: ttlv_inv_def buf_ok_def length_blit)

lemma reserve_inv:
  assumes "blocks fresh" "ttlv_inv b" "reserve fresh b n = (b', r)"
  shows "ttlv_inv b'" "len b \<le> len b'" "opens b' = opens b" "\<And>p. r = Some p \<Longrightarrow> p = len b \<and> len b' = len b + n"
proof -
  have "ttlv_inv b' \<and> len b \<le> len b' \<and> opens b' = opens b \<and> (\<forall>p. r = Some p \<longrightarrow> p = len b \<and> len b' = len b + n)"
  proof (cases "err b = None \<and> n > cap b - len b")
    case True
    let ?c = "if cap b \<noteq> 0 then cap b else 256"
    show ?thesis
    proof (cases "\<exists>c p. grow n (len b) ?c = Some c \<and> fresh c = Some p")
      case True
      then obtain c p where c: "grow n (len b) ?c = Some c" "fresh c = Some p" by auto
      define b1 where "b1 = (if dat b \<noteq> [] then b\<lparr>dat := blit 0 (take (len b) (dat b)) p, cap := c,
          freed := freed b @ [explicit_bzero (cap b) (dat b)]\<rparr> else b\<lparr>dat := p, cap := c\<rparr>)"
      have b: "n + len b \<le> c" "length p = c"
        using grow_bound [OF c(1)] assms(1,2) c(2) by (auto simp: ttlv_inv_def buf_ok_def blocks_def split: if_splits)
      then have "ttlv_inv b1" "len b1 = len b" "cap b1 = c" "opens b1 = opens b"
        using move_inv [OF assms(2) b(2)] by (auto simp: b1_def)
      moreover have "b' = b1\<lparr>dat := blit (len b1) (replicate n 0) (dat b1), len := len b1 + n\<rparr>" "r = Some (len b1)"
        using assms(3) c \<open>err b = None \<and> n > cap b - len b\<close>
        by (auto simp: reserve_def Let_def b1_def split del: if_split)
      ultimately show ?thesis using extend_inv [of b1 n] b(1) by auto
    next
      case False
      then show ?thesis using assms(2,3) \<open>err b = None \<and> n > cap b - len b\<close>
        by (auto simp: reserve_def Let_def ttlv_inv_def buf_ok_def split: option.splits if_splits)
    qed
  next
    case False
    then show ?thesis using assms(2,3) extend_inv [OF assms(2), of n]
      by (auto simp: reserve_def Let_def ttlv_inv_def buf_ok_def split: if_splits)
  qed
  then show "ttlv_inv b'" "len b \<le> len b'" "opens b' = opens b"
    "\<And>p. r = Some p \<Longrightarrow> p = len b \<and> len b' = len b + n" by auto
qed

lemma inv_blit: "ttlv_inv b \<Longrightarrow> off + length v \<le> len b \<Longrightarrow> ttlv_inv (b\<lparr>dat := blit off v (dat b)\<rparr>)"
  by (auto simp: ttlv_inv_def buf_ok_def length_blit)

lemma add_item_inv:
  assumes "blocks fresh" "ttlv_inv b" "add_item fresh b t y n = (b', r)"
  shows "ttlv_inv b' \<and> len b \<le> len b' \<and> opens b' = opens b \<and>
    (\<forall>p. r = Some p \<longrightarrow> p = len b + 8 \<and> len b' = p + pad8 n)"
proof (cases "n > UINT32_MAX")
  case True
  then show ?thesis using assms by (auto simp: add_item_def ttlv_inv_def buf_ok_def split: if_splits)
next
  case False
  obtain c q where c: "reserve fresh b (TTLV_HDR_LEN + pad8 n) = (c, q)" by fastforce
  note c' = reserve_inv [OF assms(1,2) c]
  show ?thesis
  proof (cases q)
    case None
    then show ?thesis using False c c' assms(3) by (auto simp: add_item_def)
  next
    case (Some p)
    then have p: "p = len b" "len c = len b + (8 + pad8 n)" using c'(4) by (auto simp: TTLV_HDR_LEN_def)
    have "b' = c\<lparr>dat := blit (p + 4) (put_be32 (of_nat n)) (blit p (put_be32 (push_bit 8 t OR ucast y)) (dat c))\<rparr>"
      "r = Some (p + 8)"
      using False c Some assms(3) by (auto simp: add_item_def TTLV_HDR_LEN_def)
    then show ?thesis using c' p inv_blit [OF inv_blit [OF c'(1)], of p _ "p + 4"] by auto
  qed
qed

lemma put_value_inv:
  assumes "blocks fresh" "ttlv_inv b" "n = length v"
  shows "ttlv_inv (put_value (add_item fresh b t y n) v)"
proof (cases "add_item fresh b t y n")
  case (Pair c r)
  then show ?thesis using add_item_inv [OF assms(1,2) Pair] assms(3) pad8_facts(1) [of n]
    by (cases r) (auto simp: put_value_def intro: inv_blit)
qed

lemma ttlv_begin_inv: "blocks fresh \<Longrightarrow> ttlv_inv b \<Longrightarrow> ttlv_inv (ttlv_begin fresh b t)"
proof (cases "err b \<noteq> None \<or> length (opens b) = TTLV_MAX_DEPTH")
  case True
  then show "ttlv_inv b \<Longrightarrow> ?thesis" by (auto simp: ttlv_begin_def ttlv_inv_def buf_ok_def)
next
  case False
  assume a: "blocks fresh" "ttlv_inv b"
  obtain c r where c: "add_item fresh b t TTLV_STRUCTURE 0 = (c, r)" by fastforce
  show ?thesis using add_item_inv [OF a c] a(2) False c
    by (cases r) (auto simp: ttlv_begin_def ttlv_inv_def buf_ok_def pad8_facts)
qed

lemma ttlv_end_inv:
  assumes "ttlv_inv b" shows "ttlv_inv (ttlv_end b)"
proof (cases "err b \<noteq> None \<or> opens b = []")
  case True
  then show ?thesis using assms by (auto simp: ttlv_end_def ttlv_inv_def buf_ok_def)
next
  case False
  let ?b = "b\<lparr>opens := butlast (opens b)\<rparr>"
  have b: "ttlv_inv ?b" "last (opens b) + 8 \<le> len ?b"
    using assms False last_in_set [of "opens b"] by (auto simp: ttlv_inv_def buf_ok_def dest: in_set_butlastD)
  show ?thesis
    using b False inv_blit [OF b(1), of "last (opens b) + 4" "put_be32 w" for w]
    by (auto simp: ttlv_end_def Let_def ttlv_inv_def buf_ok_def)
qed

lemma emit_inv: "blocks fresh \<Longrightarrow> ttlv_inv b \<Longrightarrow> ttlv_inv (emit fresh b x)"
proof (induction x arbitrary: b rule: ttlv_enc.induct)
  case (1 t xs)
  have "ttlv_inv c \<Longrightarrow> set ys \<subseteq> set xs \<Longrightarrow> ttlv_inv (foldl (emit fresh) c ys)" for c ys
    by (induction ys arbitrary: c) (use 1 in auto)
  then show ?case using 1 by (simp add: ttlv_end_inv ttlv_begin_inv)
qed (simp_all add: adders put_value_inv)

lemma ttlv_free_inv: "ttlv_inv b \<Longrightarrow> ttlv_inv (ttlv_buf_free b)"
  using set_bzero [of "dat b"] by (auto simp: ttlv_buf_free_def ttlv_buf_init_def ttlv_inv_def buf_ok_def)

lemma ttlv_run_inv: "blocks fresh \<Longrightarrow> ttlv_inv b \<Longrightarrow> ttlv_inv (ttlv_run fresh b c)"
  by (cases c) (simp_all add: ttlv_begin_inv ttlv_end_inv emit_inv ttlv_free_inv)

lemma init_inv: "\<forall>p \<in> set (freed b). set p \<subseteq> {0} \<Longrightarrow> ttlv_inv (ttlv_buf_init b)"
  by (simp add: ttlv_inv_def ttlv_buf_init_def buf_ok_def)

text \<open>Once an error is set, no call but \<open>ttlv_buf_free\<close> changes the buffer.\<close>

lemma sticky_item: "err b \<noteq> None \<Longrightarrow> add_item fresh b t y n = (b, None)"
  by (simp add: add_item_def reserve_def)

lemma sticky_emit: "err b \<noteq> None \<Longrightarrow> emit fresh b x = b"
proof (induction x arbitrary: b rule: ttlv_enc.induct)
  case (1 t xs)
  have "foldl (emit fresh) b ys = b" if "set ys \<subseteq> set xs" for ys
    using that by (induction ys) (use 1 in auto)
  then show ?case using 1 by (auto simp: ttlv_begin_def ttlv_end_def)
qed (simp_all add: adders sticky_item put_value_def)

lemma sticky_run: "err b \<noteq> None \<Longrightarrow> c \<noteq> Free \<Longrightarrow> ttlv_run fresh b c = b"
  by (cases c) (auto simp: sticky_emit ttlv_begin_def ttlv_end_def)

text \<open>A whole message, written into an initialised buffer and read back.\<close>

lemma emit_all_ok:
  assumes "plenty fresh" "list_all (ttlv_ok TTLV_MAX_DEPTH) xs" "length (concat (map ttlv_enc xs)) \<le> 2 ^ 63"
  shows "let b = foldl (emit fresh) (ttlv_buf_init b0) xs
         in err b = None \<and> opens b = [] \<and> read_all (ttlv_reader_init (dat b) (len b)) = Inr xs"
proof -
  let ?i = "ttlv_buf_init b0" and ?b = "foldl (emit fresh) (ttlv_buf_init b0) xs"
  have i: "buf_ok ?i" "err ?i = None" "opens ?i = []" "len ?i = 0" "used ?i = []"
    by (auto simp: ttlv_buf_init_def buf_ok_def used_def)
  have w: "wrote ?i (concat (map ttlv_enc xs)) ?b"
  proof (rule foldl_wrote [where m = "2 ^ 63"])
    show "wrote c (ttlv_enc x) (emit fresh c x)"
      if "x \<in> set xs" "buf_ok c" "err c = None" "opens c = opens ?i" "len c + length (ttlv_enc x) \<le> 2 ^ 63" for c x
      using that assms i by (intro emit_wrote [where d = TTLV_MAX_DEPTH]) (auto simp: list_all_iff TTLV_MAX_DEPTH_def)
  qed (use i assms in auto)
  have "read_all (concat (map ttlv_enc ys)) = Inr ys" if "list_all (ttlv_ok TTLV_MAX_DEPTH) ys" for ys
    using that by (induction ys) (auto simp: read_all_enc)
  moreover have "ttlv_reader_init (dat ?b) (len ?b) = concat (map ttlv_enc xs)"
    using w i by (auto simp: wrote_def used_def ttlv_reader_init_def)
  ultimately show ?thesis using w i assms(2) by (auto simp: wrote_def Let_def)
qed

section \<open>Properties\<close>

text \<open>C9: Whatever the client writes into an initialised buffer - any trees of integers, longs, enums,
  booleans, texts, byte strings, dates and intervals, nested up to sixteen structures deep, with
  24-bit tags and lengths that fit 32 bits - is written without an error, and a reader over the
  finished message finds exactly these trees again, through any number of reallocations of the
  buffer.\<close>

theorem ttlv_roundtrip:
  assumes "plenty fresh" "list_all (ttlv_ok TTLV_MAX_DEPTH) xs" "length (concat (map ttlv_enc xs)) \<le> 2 ^ 63"
  shows "let b = foldl (emit fresh) (ttlv_buf_init b0) xs
         in err b = None \<and> opens b = [] \<and> read_all (ttlv_reader_init (dat b) (len b)) = Inr xs"
  using assms by (rule emit_all_ok)

theorem ttlv_roundtrip_witness:
  "let b = foldl (emit (\<lambda>n. Some (replicate n 0xff)))
        (ttlv_buf_init \<lparr>dat = [], len = 0, cap = 0, err = None, opens = [], freed = []\<rparr>)
        [TStruct 0x420078 [TInt 0x42006a 1, TStruct 0x42000f [TBytes 0x420093 [1, 2, 3], TBool 0x420007 True]]]
   in err b = None \<and> opens b = [] \<and> read_all (ttlv_reader_init (dat b) (len b)) =
        Inr [TStruct 0x420078 [TInt 0x42006a 1, TStruct 0x42000f [TBytes 0x420093 [1, 2, 3], TBool 0x420007 True]]]"
  by (rule ttlv_roundtrip) (simp_all add: plenty_def TTLV_MAX_DEPTH_def UINT32_MAX_def pad8_def)

text \<open>C22: Whatever calls a client makes, in any order and whether or not memory runs out: the buffer
  stays within its block, the stack of open structures within its array and every open structure
  within the buffer, and every block that went back to the allocator - on each reallocation, and in
  the end - had been overwritten with zeros over its whole size, so no key material is left
  behind.\<close>

theorem ttlv_calls_safe:
  assumes "blocks fresh" "\<forall>p \<in> set (freed b0). set p \<subseteq> {0}"
  shows "ttlv_inv (foldl (ttlv_run fresh) (ttlv_buf_init b0) cs)"
proof -
  have "ttlv_inv b \<Longrightarrow> ttlv_inv (foldl (ttlv_run fresh) b cs)" for b
    by (induction cs arbitrary: b) (simp_all add: ttlv_run_inv [OF assms(1)])
  then show ?thesis by (simp add: init_inv assms(2))
qed

theorem ttlv_calls_safe_witness:
  "ttlv_inv (foldl (ttlv_run (\<lambda>n. if n \<le> 512 then Some (replicate n 0xff) else None))
     (ttlv_buf_init \<lparr>dat = [], len = 0, cap = 0, err = None, opens = [], freed = []\<rparr>)
     [End, Begin 5, Emit (TBytes 7 (replicate 300 9)), Emit (TBytes 7 (replicate 400 9)), Free])"
  by (rule ttlv_calls_safe) (simp_all add: blocks_def)

text \<open>The first error sticks: after it no call but \<open>ttlv_buf_free\<close> changes anything of the
  buffer, so the error a client reads after a whole message is the first that happened.\<close>

theorem ttlv_error_sticky:
  assumes "err b = Some e" "Free \<notin> set cs"
  shows "foldl (ttlv_run fresh) b cs = b"
  using assms by (induction cs) (auto simp: sticky_run)

theorem ttlv_error_sticky_witness:
  "foldl (ttlv_run (\<lambda>n. None)) \<lparr>dat = [], len = 0, cap = 0, err = Some EINVAL, opens = [], freed = []\<rparr> [Begin 5, End] =
    \<lparr>dat = [], len = 0, cap = 0, err = Some EINVAL, opens = [], freed = []\<rparr>"
  by (rule ttlv_error_sticky [where e = EINVAL]) simp_all

text \<open>C31: Whatever bytes come in, an item \<open>ttlv_next\<close> returns lies wholly within them: header,
  padded value and the rest make up the input, the declared length is within the value, the type
  is one of the ten, and a value of a fixed-length type has all the bytes its getter reads.  The
  reader of an opened structure stays within the value.\<close>

theorem ttlv_next_within:
  assumes "ttlv_next r = Inr (Some (it, r'))"
  shows "r = take 8 r @ ival it @ r' \<and> length (ival it) = pad8 (unat (ilen it)) \<and> unat (ilen it) \<le> length (ival it) \<and>
    TTLV_STRUCTURE \<le> itype it \<and> itype it \<le> TTLV_INTERVAL \<and>
    (\<forall>v. ttlv_get_int it = Inr v \<or> ttlv_get_enum it = Inr v \<longrightarrow> 4 \<le> length (ival it)) \<and>
    (\<forall>v. ttlv_get_long it = Inr v \<longrightarrow> 8 \<le> length (ival it)) \<and>
    (\<forall>v. ttlv_get_bool it = Inr v \<longrightarrow> 8 \<le> length (ival it)) \<and>
    (\<forall>q. ttlv_open it = Inr q \<longrightarrow> q = ival it)"
proof -
  let ?n = "get_be32 (drop 4 r)"
  have r: "8 \<le> length r" "ilen it = ?n" "ival it = take (pad8 (unat ?n)) (drop 8 r)" "r' = drop (8 + pad8 (unat ?n)) r"
    "pad8 (unat ?n) \<le> length r - 8" "TTLV_STRUCTURE \<le> itype it" "itype it \<le> TTLV_INTERVAL"
    "fixed_len (itype it) \<noteq> 0 \<longrightarrow> ?n = fixed_len (itype it)" "itype it = TTLV_STRUCTURE \<longrightarrow> ?n mod 8 = 0"
    using assms by (auto simp: ttlv_next_def Let_def TTLV_HDR_LEN_def split: if_splits)
  have l: "length (ival it) = pad8 (unat ?n)" using r by simp
  have "r' = drop (pad8 (unat ?n)) (drop 8 r)" by (simp add: r(4) add.commute)
  then have "r = take 8 r @ ival it @ r'" by (simp only: r(3) append_take_drop_id)
  moreover have "8 dvd unat ?n" if "itype it = TTLV_STRUCTURE"
  proof -
    have "unat (?n mod 8) = 0" using r(9) that by simp
    then show ?thesis by (simp add: unat_mod dvd_eq_mod_eq_0)
  qed
  then have "q = ival it" if "ttlv_open it = Inr q" for q
    using that l r(2) by (auto simp: ttlv_open_def ttlv_reader_init_def pad8_dvd pad8_facts split: if_splits)
  moreover have "unat (ilen it) \<le> length (ival it)" using pad8_facts(1) r(2) l by simp
  moreover have "length (ival it) = pad8 (unat (ilen it))" using r(2) l by simp
  moreover have "(ttlv_get_int it = Inr v \<or> ttlv_get_enum it = Inr v \<longrightarrow> 4 \<le> length (ival it)) \<and>
      (ttlv_get_long it = Inr u \<longrightarrow> 8 \<le> length (ival it)) \<and> (ttlv_get_bool it = Inr c \<longrightarrow> 8 \<le> length (ival it))"
    for u v c
    using r(8) unfolding l
    by (simp add: fixed_len_def ttlv_get_int_def ttlv_get_enum_def ttlv_get_long_def ttlv_get_bool_def ttlv_types pad8_def)
  ultimately show ?thesis using r(6,7) by blast
qed

theorem ttlv_next_within_witness:
  "\<exists>it. ttlv_next [0x42, 0, 0x6a, 2, 0, 0, 0, 4, 0, 0, 0, 1, 0, 0, 0, 0, 9] = Inr (Some (it, [9])) \<and>
     length (ival it) = pad8 (unat (ilen it))"
proof -
  have "ttlv_next [0x42, 0, 0x6a, 2, 0, 0, 0, 4, 0, 0, 0, 1, 0, 0, 0, 0, 9] =
      Inr (Some (\<lparr>itag = 0x42006a, itype = 2, ilen = 4, ival = [0, 0, 0, 1, 0, 0, 0, 0]\<rparr>, [9]))"
    by (simp add: ttlv_next_def Let_def TTLV_HDR_LEN_def get_be32_def ttlv_types fixed_len_def pad8_def)
  then show ?thesis using ttlv_next_within by blast
qed

end
