(* ===== verification/Kmip.thy ===== *)
theory Kmip
  imports Ttlv "HOL-Library.Sublist"
begin

text \<open>
  The KMIP 1.4 messages of the key daemon, \<open>keysd/src/kmip.c\<close>: the Locate and Get requests, written
  through the encoder of theory \<open>Ttlv\<close>, and the parsers of their responses, on its decoder.

  A reader that the code copies before use (\<open>r = item\<close>) is used again from its old place; where the
  advanced reader is not looked at again (in all callers of \<open>open_struct\<close> and \<open>find_enum\<close>), the
  model does not return it.  Output buffers are the memory behind the pointer, before and after the
  call, with the size the caller states as a separate argument.
\<close>

section \<open>Constants and data\<close>

definition LOCATE_MAX_ITEMS :: u32 where "LOCATE_MAX_ITEMS = 2"

record kmip_version =
  major :: u32
  minor :: u32

definition kmip_v1_4 :: kmip_version where "kmip_v1_4 = \<lparr>major = 1, minor = 4\<rparr>"

definition KMIP_TAG_ATTRIBUTE :: u32 where "KMIP_TAG_ATTRIBUTE = 0x420008"
definition KMIP_TAG_ATTRIBUTE_NAME :: u32 where "KMIP_TAG_ATTRIBUTE_NAME = 0x42000a"
definition KMIP_TAG_ATTRIBUTE_VALUE :: u32 where "KMIP_TAG_ATTRIBUTE_VALUE = 0x42000b"
definition KMIP_TAG_BATCH_COUNT :: u32 where "KMIP_TAG_BATCH_COUNT = 0x42000d"
definition KMIP_TAG_BATCH_ITEM :: u32 where "KMIP_TAG_BATCH_ITEM = 0x42000f"
definition KMIP_TAG_KEY_BLOCK :: u32 where "KMIP_TAG_KEY_BLOCK = 0x420040"
definition KMIP_TAG_KEY_FORMAT_TYPE :: u32 where "KMIP_TAG_KEY_FORMAT_TYPE = 0x420042"
definition KMIP_TAG_KEY_MATERIAL :: u32 where "KMIP_TAG_KEY_MATERIAL = 0x420043"
definition KMIP_TAG_KEY_VALUE :: u32 where "KMIP_TAG_KEY_VALUE = 0x420045"
definition KMIP_TAG_MAXIMUM_ITEMS :: u32 where "KMIP_TAG_MAXIMUM_ITEMS = 0x42004f"
definition KMIP_TAG_NAME_TYPE :: u32 where "KMIP_TAG_NAME_TYPE = 0x420054"
definition KMIP_TAG_NAME_VALUE :: u32 where "KMIP_TAG_NAME_VALUE = 0x420055"
definition KMIP_TAG_OBJECT_TYPE :: u32 where "KMIP_TAG_OBJECT_TYPE = 0x420057"
definition KMIP_TAG_OPERATION :: u32 where "KMIP_TAG_OPERATION = 0x42005c"
definition KMIP_TAG_PROTOCOL_VERSION :: u32 where "KMIP_TAG_PROTOCOL_VERSION = 0x420069"
definition KMIP_TAG_PROTOCOL_VERSION_MAJOR :: u32 where "KMIP_TAG_PROTOCOL_VERSION_MAJOR = 0x42006a"
definition KMIP_TAG_PROTOCOL_VERSION_MINOR :: u32 where "KMIP_TAG_PROTOCOL_VERSION_MINOR = 0x42006b"
definition KMIP_TAG_REQUEST_HEADER :: u32 where "KMIP_TAG_REQUEST_HEADER = 0x420077"
definition KMIP_TAG_REQUEST_MESSAGE :: u32 where "KMIP_TAG_REQUEST_MESSAGE = 0x420078"
definition KMIP_TAG_REQUEST_PAYLOAD :: u32 where "KMIP_TAG_REQUEST_PAYLOAD = 0x420079"
definition KMIP_TAG_RESPONSE_HEADER :: u32 where "KMIP_TAG_RESPONSE_HEADER = 0x42007a"
definition KMIP_TAG_RESPONSE_MESSAGE :: u32 where "KMIP_TAG_RESPONSE_MESSAGE = 0x42007b"
definition KMIP_TAG_RESPONSE_PAYLOAD :: u32 where "KMIP_TAG_RESPONSE_PAYLOAD = 0x42007c"
definition KMIP_TAG_RESULT_MESSAGE :: u32 where "KMIP_TAG_RESULT_MESSAGE = 0x42007d"
definition KMIP_TAG_RESULT_REASON :: u32 where "KMIP_TAG_RESULT_REASON = 0x42007e"
definition KMIP_TAG_RESULT_STATUS :: u32 where "KMIP_TAG_RESULT_STATUS = 0x42007f"
definition KMIP_TAG_SECRET_DATA :: u32 where "KMIP_TAG_SECRET_DATA = 0x420085"
definition KMIP_TAG_SYMMETRIC_KEY :: u32 where "KMIP_TAG_SYMMETRIC_KEY = 0x42008f"
definition KMIP_TAG_UNIQUE_IDENTIFIER :: u32 where "KMIP_TAG_UNIQUE_IDENTIFIER = 0x420094"

lemmas kmip_tags = KMIP_TAG_ATTRIBUTE_def KMIP_TAG_ATTRIBUTE_NAME_def KMIP_TAG_ATTRIBUTE_VALUE_def
  KMIP_TAG_BATCH_COUNT_def KMIP_TAG_BATCH_ITEM_def KMIP_TAG_KEY_BLOCK_def KMIP_TAG_KEY_FORMAT_TYPE_def
  KMIP_TAG_KEY_MATERIAL_def KMIP_TAG_KEY_VALUE_def KMIP_TAG_MAXIMUM_ITEMS_def KMIP_TAG_NAME_TYPE_def
  KMIP_TAG_NAME_VALUE_def KMIP_TAG_OBJECT_TYPE_def KMIP_TAG_OPERATION_def KMIP_TAG_PROTOCOL_VERSION_def
  KMIP_TAG_PROTOCOL_VERSION_MAJOR_def KMIP_TAG_PROTOCOL_VERSION_MINOR_def KMIP_TAG_REQUEST_HEADER_def
  KMIP_TAG_REQUEST_MESSAGE_def KMIP_TAG_REQUEST_PAYLOAD_def KMIP_TAG_RESPONSE_HEADER_def
  KMIP_TAG_RESPONSE_MESSAGE_def KMIP_TAG_RESPONSE_PAYLOAD_def KMIP_TAG_RESULT_MESSAGE_def
  KMIP_TAG_RESULT_REASON_def KMIP_TAG_RESULT_STATUS_def KMIP_TAG_SECRET_DATA_def
  KMIP_TAG_SYMMETRIC_KEY_def KMIP_TAG_UNIQUE_IDENTIFIER_def

definition KMIP_OP_LOCATE :: u32 where "KMIP_OP_LOCATE = 0x08"
definition KMIP_OP_GET :: u32 where "KMIP_OP_GET = 0x0a"
definition KMIP_OBJ_SYMMETRIC_KEY :: u32 where "KMIP_OBJ_SYMMETRIC_KEY = 0x02"
definition KMIP_OBJ_SECRET_DATA :: u32 where "KMIP_OBJ_SECRET_DATA = 0x07"
definition KMIP_STATUS_SUCCESS :: u32 where "KMIP_STATUS_SUCCESS = 0x00"
definition KMIP_STATE_ANY :: u32 where "KMIP_STATE_ANY = 0x00"
definition KMIP_STATE_ACTIVE :: u32 where "KMIP_STATE_ACTIVE = 0x02"
definition KMIP_NAME_UNINTERPRETED_TEXT :: u32 where "KMIP_NAME_UNINTERPRETED_TEXT = 0x01"
definition KMIP_KEY_FORMAT_RAW :: u32 where "KMIP_KEY_FORMAT_RAW = 0x01"
definition KMIP_KEY_FORMAT_OPAQUE :: u32 where "KMIP_KEY_FORMAT_OPAQUE = 0x02"

lemmas kmip_values = KMIP_OP_LOCATE_def KMIP_OP_GET_def KMIP_OBJ_SYMMETRIC_KEY_def KMIP_OBJ_SECRET_DATA_def
  KMIP_STATUS_SUCCESS_def KMIP_STATE_ANY_def KMIP_STATE_ACTIVE_def KMIP_NAME_UNINTERPRETED_TEXT_def
  KMIP_KEY_FORMAT_RAW_def KMIP_KEY_FORMAT_OPAQUE_def

record kmip_result =
  status :: u32
  reason :: u32
  message :: bytes

definition kmip_result_zero :: kmip_result where
  "kmip_result_zero = \<lparr>status = 0, reason = 0, message = replicate 128 0\<rparr>"

section \<open>Requests\<close>

definition begin_request ::
  "(nat \<Rightarrow> bytes option) \<Rightarrow> ttlv_buf \<Rightarrow> kmip_version \<Rightarrow> u32 \<Rightarrow> ttlv_buf" where
  "begin_request fresh b v op =
     (let b = ttlv_begin fresh b KMIP_TAG_REQUEST_MESSAGE;
          b = ttlv_begin fresh b KMIP_TAG_REQUEST_HEADER;
          b = ttlv_begin fresh b KMIP_TAG_PROTOCOL_VERSION;
          b = ttlv_add_int fresh b KMIP_TAG_PROTOCOL_VERSION_MAJOR (major v);
          b = ttlv_add_int fresh b KMIP_TAG_PROTOCOL_VERSION_MINOR (minor v);
          b = ttlv_end b;
          b = ttlv_add_int fresh b KMIP_TAG_BATCH_COUNT 1;
          b = ttlv_end b;
          b = ttlv_begin fresh b KMIP_TAG_BATCH_ITEM;
          b = ttlv_add_enum fresh b KMIP_TAG_OPERATION op
      in ttlv_begin fresh b KMIP_TAG_REQUEST_PAYLOAD)"

definition end_request :: "ttlv_buf \<Rightarrow> errno option \<times> ttlv_buf" where
  "end_request b = (let b = ttlv_end (ttlv_end (ttlv_end b)) in (err b, b))"

definition add_name_attr_v1 :: "(nat \<Rightarrow> bytes option) \<Rightarrow> ttlv_buf \<Rightarrow> string \<Rightarrow> ttlv_buf" where
  "add_name_attr_v1 fresh b name =
     (let b = ttlv_begin fresh b KMIP_TAG_ATTRIBUTE;
          b = ttlv_add_text fresh b KMIP_TAG_ATTRIBUTE_NAME ''Name'';
          b = ttlv_begin fresh b KMIP_TAG_ATTRIBUTE_VALUE;
          b = ttlv_add_text fresh b KMIP_TAG_NAME_VALUE name;
          b = ttlv_add_enum fresh b KMIP_TAG_NAME_TYPE KMIP_NAME_UNINTERPRETED_TEXT
      in ttlv_end (ttlv_end b))"

definition add_state_attr_v1 :: "(nat \<Rightarrow> bytes option) \<Rightarrow> ttlv_buf \<Rightarrow> u32 \<Rightarrow> ttlv_buf" where
  "add_state_attr_v1 fresh b state =
     (let b = ttlv_begin fresh b KMIP_TAG_ATTRIBUTE;
          b = ttlv_add_text fresh b KMIP_TAG_ATTRIBUTE_NAME ''State'';
          b = ttlv_add_enum fresh b KMIP_TAG_ATTRIBUTE_VALUE state
      in ttlv_end b)"

definition kmip_build_locate ::
  "(nat \<Rightarrow> bytes option) \<Rightarrow> ttlv_buf \<Rightarrow> kmip_version \<Rightarrow> string \<Rightarrow> u32 \<Rightarrow> errno option \<times> ttlv_buf" where
  "kmip_build_locate fresh b v name state =
     (if major v \<noteq> 1 then (Some EOPNOTSUPP, b)
      else (let b = begin_request fresh b v KMIP_OP_LOCATE;
                b = ttlv_add_int fresh b KMIP_TAG_MAXIMUM_ITEMS LOCATE_MAX_ITEMS;
                b = add_name_attr_v1 fresh b name;
                b = (if state \<noteq> KMIP_STATE_ANY then add_state_attr_v1 fresh b state else b)
            in end_request b))"

definition kmip_build_get ::
  "(nat \<Rightarrow> bytes option) \<Rightarrow> ttlv_buf \<Rightarrow> kmip_version \<Rightarrow> string \<Rightarrow> errno option \<times> ttlv_buf" where
  "kmip_build_get fresh b v uid =
     (let b = begin_request fresh b v KMIP_OP_GET;
          b = ttlv_add_text fresh b KMIP_TAG_UNIQUE_IDENTIFIER uid
      in end_request b)"

section \<open>Responses\<close>

definition open_struct :: "bytes \<Rightarrow> u32 \<Rightarrow> bytes res" where
  "open_struct r tag = (case ttlv_find r tag of
      Inr (Some (it, _)) \<Rightarrow> ttlv_open it
    | _ \<Rightarrow> Inl EBADMSG)"

definition find_enum :: "bytes \<Rightarrow> u32 \<Rightarrow> u32 res" where
  "find_enum r tag = (case ttlv_find r tag of
      Inr (Some (it, _)) \<Rightarrow> ttlv_get_enum it
    | _ \<Rightarrow> Inl EBADMSG)"

text \<open>The bytes of an item's value before the padding.\<close>

definition payload_bytes :: "ttlv_item \<Rightarrow> bytes" where
  "payload_bytes it = take (unat (ilen it)) (ival it)"

text \<open>\<open>size - 1\<close> (here \<open>sz - 1\<close>) is unsigned.\<close>

definition copy_text :: "bytes \<Rightarrow> nat \<Rightarrow> ttlv_item \<Rightarrow> bytes" where
  "copy_text dst sz it =
     (let m = (if sz = 0 then SIZE_MAX else sz - 1);
          n = (if unat (ilen it) < m then unat (ilen it) else m)
      in blit n [0] (blit 0 (take n (ival it)) dst))"

definition read_failure :: "bytes \<Rightarrow> kmip_result \<Rightarrow> kmip_result" where
  "read_failure item r0 =
     (let r1 = (case ttlv_find item KMIP_TAG_RESULT_REASON of
                  Inr (Some (it, _)) \<Rightarrow> (case ttlv_get_enum it of Inr v \<Rightarrow> r0\<lparr>reason := v\<rparr> | Inl _ \<Rightarrow> r0)
                | _ \<Rightarrow> r0)
      in case ttlv_find item KMIP_TAG_RESULT_MESSAGE of
           Inr (Some (it, _)) \<Rightarrow>
             if itype it = TTLV_TEXT then r1\<lparr>message := copy_text (message r1) 128 it\<rparr> else r1
         | _ \<Rightarrow> r1)"

definition check_version :: "bytes \<Rightarrow> kmip_version \<Rightarrow> errno option" where
  "check_version h v =
     (case open_struct h KMIP_TAG_PROTOCOL_VERSION of
        Inl _ \<Rightarrow> Some EBADMSG
      | Inr ver \<Rightarrow>
          (case ttlv_find ver KMIP_TAG_PROTOCOL_VERSION_MAJOR of
             Inr (Some (it, _)) \<Rightarrow>
               (case ttlv_get_int it of
                  Inl _ \<Rightarrow> Some EBADMSG
                | Inr mj \<Rightarrow> if mj = major v then None else Some EPROTO)
           | _ \<Rightarrow> Some EBADMSG))"

text \<open>The header of the response: \<open>check_version\<close>, and the batch count.\<close>

definition check_count :: "bytes \<Rightarrow> errno option" where
  "check_count h =
     (case ttlv_find h KMIP_TAG_BATCH_COUNT of
        Inr (Some (it, _)) \<Rightarrow>
          (case ttlv_get_int it of Inl _ \<Rightarrow> Some EBADMSG | Inr n \<Rightarrow> if n \<noteq> 1 then Some EBADMSG else None)
      | _ \<Rightarrow> Some EBADMSG)"

text \<open>The batch item: Result Status first, then Operation and payload.\<close>

definition open_item :: "bytes \<Rightarrow> u32 \<Rightarrow> kmip_result \<Rightarrow> bytes res \<times> kmip_result" where
  "open_item item op r0 =
     (case find_enum item KMIP_TAG_RESULT_STATUS of
        Inl _ \<Rightarrow> (Inl EBADMSG, r0)
      | Inr st \<Rightarrow>
          (let r1 = r0\<lparr>status := st\<rparr>
           in if st \<noteq> KMIP_STATUS_SUCCESS then (Inl EREMOTEIO, read_failure item r1)
              else (case find_enum item KMIP_TAG_OPERATION of
                      Inl _ \<Rightarrow> (Inl EBADMSG, r1)
                    | Inr resp_op \<Rightarrow>
                        if resp_op \<noteq> op then (Inl EBADMSG, r1)
                        else (open_struct item KMIP_TAG_RESPONSE_PAYLOAD, r1))))"

definition open_response ::
  "bytes \<Rightarrow> nat \<Rightarrow> kmip_version \<Rightarrow> u32 \<Rightarrow> bytes res \<times> kmip_result" where
  "open_response buf n v op =
     (let r0 = kmip_result_zero
      in case open_struct (ttlv_reader_init buf n) KMIP_TAG_RESPONSE_MESSAGE of
           Inl e \<Rightarrow> (Inl e, r0)
         | Inr msg \<Rightarrow>
             (case open_struct msg KMIP_TAG_RESPONSE_HEADER of
                Inl e \<Rightarrow> (Inl e, r0)
              | Inr h \<Rightarrow>
                  (case check_version h v of
                     Some e \<Rightarrow> (Inl e, r0)
                   | None \<Rightarrow>
                       (case check_count h of
                          Some e \<Rightarrow> (Inl e, r0)
                        | None \<Rightarrow>
                            (case open_struct msg KMIP_TAG_BATCH_ITEM of
                               Inl e \<Rightarrow> (Inl e, r0)
                             | Inr item \<Rightarrow> open_item item op r0)))))"

text \<open>Result, memory behind \<open>uid\<close>, and \<open>*res\<close>.\<close>

definition kmip_parse_locate ::
  "bytes \<Rightarrow> nat \<Rightarrow> kmip_version \<Rightarrow> bytes \<Rightarrow> nat \<Rightarrow> errno option \<times> bytes \<times> kmip_result" where
  "kmip_parse_locate buf n v uid uid_size =
     (case open_response buf n v KMIP_OP_LOCATE of
        (Inl e, r) \<Rightarrow> (Some e, uid, r)
      | (Inr payload, r) \<Rightarrow>
          (case ttlv_find payload KMIP_TAG_UNIQUE_IDENTIFIER of
             Inl e \<Rightarrow> (Some e, uid, r)
           | Inr None \<Rightarrow> (Some ENOENT, uid, r)
           | Inr (Some (it, payload')) \<Rightarrow>
               if itype it \<noteq> TTLV_TEXT \<or> ilen it = 0 \<or> 0 \<in> set (payload_bytes it) then (Some EBADMSG, uid, r)
               else (case ttlv_find payload' KMIP_TAG_UNIQUE_IDENTIFIER of
                       Inl e \<Rightarrow> (Some e, uid, r)
                     | Inr (Some _) \<Rightarrow> (Some ENOTUNIQ, uid, r)
                     | Inr None \<Rightarrow>
                         if unat (ilen it) \<ge> uid_size then (Some EMSGSIZE, uid, r)
                         else (None, copy_text uid uid_size it, r))))"

text \<open>The memory behind \<open>key\<close> and \<open>*key_len\<close>.\<close>

definition read_key_block :: "bytes \<Rightarrow> bytes \<Rightarrow> nat \<Rightarrow> (bytes \<times> nat) res" where
  "read_key_block kb key key_size =
     (case find_enum kb KMIP_TAG_KEY_FORMAT_TYPE of
        Inl _ \<Rightarrow> Inl EBADMSG
      | Inr format \<Rightarrow>
          if format \<noteq> KMIP_KEY_FORMAT_RAW \<and> format \<noteq> KMIP_KEY_FORMAT_OPAQUE then Inl EOPNOTSUPP
          else (case open_struct kb KMIP_TAG_KEY_VALUE of
                  Inl _ \<Rightarrow> Inl EBADMSG
                | Inr kv \<Rightarrow>
                    (case ttlv_find kv KMIP_TAG_KEY_MATERIAL of
                       Inr (Some (it, _)) \<Rightarrow>
                         if itype it \<noteq> TTLV_BYTES \<or> ilen it = 0 then Inl EBADMSG
                         else if unat (ilen it) > key_size then Inl EMSGSIZE
                         else Inr (blit 0 (payload_bytes it) key, unat (ilen it))
                     | _ \<Rightarrow> Inl EBADMSG)))"

text \<open>What a successful Get leaves behind the pointers.\<close>

record kmip_key =
  obj_type :: u32
  key :: bytes
  key_len :: nat

definition obj_tag :: "u32 \<Rightarrow> u32 option" where
  "obj_tag ot =
     (if ot = KMIP_OBJ_SYMMETRIC_KEY then Some KMIP_TAG_SYMMETRIC_KEY
      else if ot = KMIP_OBJ_SECRET_DATA then Some KMIP_TAG_SECRET_DATA
      else None)"

text \<open>On an error \<open>*obj_type\<close> may be set; the memory behind \<open>key\<close> and \<open>key_len\<close> is as before.\<close>

definition kmip_parse_get ::
  "bytes \<Rightarrow> nat \<Rightarrow> kmip_version \<Rightarrow> bytes \<Rightarrow> nat \<Rightarrow> kmip_key res \<times> kmip_result" where
  "kmip_parse_get buf n v kbuf key_size =
     (case open_response buf n v KMIP_OP_GET of
        (Inl e, r) \<Rightarrow> (Inl e, r)
      | (Inr payload, r) \<Rightarrow>
          ((case find_enum payload KMIP_TAG_OBJECT_TYPE of
              Inl _ \<Rightarrow> Inl EBADMSG
            | Inr ot \<Rightarrow>
                (case obj_tag ot of
                   None \<Rightarrow> Inl EOPNOTSUPP
                 | Some tag \<Rightarrow>
                     (case open_struct payload tag of
                        Inl _ \<Rightarrow> Inl EBADMSG
                      | Inr obj \<Rightarrow>
                          (case open_struct obj KMIP_TAG_KEY_BLOCK of
                             Inl _ \<Rightarrow> Inl EBADMSG
                           | Inr kb \<Rightarrow>
                               map_sum id (\<lambda>(m, l). \<lparr>obj_type = ot, key = m, key_len = l\<rparr>)
                                 (read_key_block kb kbuf key_size))))), r))"

section \<open>Messages as trees\<close>

abbreviation encs :: "ttlv list \<Rightarrow> bytes" where "encs xs \<equiv> concat (map ttlv_enc xs)"

fun tag_of :: "ttlv \<Rightarrow> u32" where
  "tag_of (TStruct t _) = t"
| "tag_of (TInt t _) = t"
| "tag_of (TLong t _) = t"
| "tag_of (TEnum t _) = t"
| "tag_of (TBool t _) = t"
| "tag_of (TText t _) = t"
| "tag_of (TBytes t _) = t"
| "tag_of (TDate t _) = t"
| "tag_of (TInterval t _) = t"

definition leaf_item :: "u32 \<Rightarrow> u8 \<Rightarrow> bytes \<Rightarrow> ttlv_item" where
  "leaf_item t y v = \<lparr>itag = t, itype = y, ilen = of_nat (length v),
     ival = v @ replicate (pad8 (length v) - length v) 0\<rparr>"

text \<open>The item the decoder makes of an encoded tree.\<close>

fun item_of :: "ttlv \<Rightarrow> ttlv_item" where
  "item_of (TStruct t xs) = leaf_item t TTLV_STRUCTURE (encs xs)"
| "item_of (TInt t v) = leaf_item t TTLV_INTEGER (put_be32 v)"
| "item_of (TLong t v) = leaf_item t TTLV_LONG (put_be64 v)"
| "item_of (TEnum t v) = leaf_item t TTLV_ENUM (put_be32 v)"
| "item_of (TBool t v) = leaf_item t TTLV_BOOL (put_be64 (of_bool v))"
| "item_of (TText t s) = leaf_item t TTLV_TEXT (map of_char s)"
| "item_of (TBytes t v) = leaf_item t TTLV_BYTES v"
| "item_of (TDate t v) = leaf_item t TTLV_DATE_TIME (put_be64 v)"
| "item_of (TInterval t v) = leaf_item t TTLV_INTERVAL (put_be32 v)"

lemma ttlv_next_leaf:
  assumes "unat t < 2 ^ 24" "length v \<le> UINT32_MAX" "TTLV_STRUCTURE \<le> y" "y \<le> TTLV_INTERVAL"
    "fixed_len y \<noteq> 0 \<longrightarrow> length v = unat (fixed_len y)" "y = TTLV_STRUCTURE \<or> y = TTLV_BIG_INT \<longrightarrow> 8 dvd length v"
  shows "ttlv_next (leaf t y v @ r) = Inr (Some (leaf_item t y v, r))"
  using ttlv_next_item [OF assms, of "v @ replicate (pad8 (length v) - length v) 0" r]
    pad8_facts(1) [of "length v"] by (simp add: leaf_def leaf_item_def)

lemma encs_dvd: "8 dvd length (encs xs)"
  using enc_dvd by (induction xs) auto

lemma ttlv_next_enc: "ttlv_ok d x \<Longrightarrow> ttlv_next (ttlv_enc x @ r) = Inr (Some (item_of x, r))"
proof (cases x)
  case (TStruct t xs)
  assume "ttlv_ok d x"
  then have "ttlv_next (leaf t TTLV_STRUCTURE (encs xs) @ r) = Inr (Some (leaf_item t TTLV_STRUCTURE (encs xs), r))"
    using encs_dvd [of xs] TStruct by (intro ttlv_next_leaf) (auto simp: fixed_len_def ttlv_types)
  then show ?thesis using encs_dvd [of xs] TStruct by (simp add: leaf_def pad8_dvd)
qed (auto intro!: ttlv_next_leaf simp: fixed_len_def ttlv_types UINT32_MAX_def)

lemma itag_item_of [simp]: "itag (item_of x) = tag_of x"
  by (cases x) (simp_all add: leaf_item_def)

lemma ttlv_find_Nil [simp]: "ttlv_find [] t = Inr None"
  by (subst ttlv_find.simps) (simp add: ttlv_next_def)

text \<open>\<open>ttlv_find\<close> finds the first tree with the tag, and stops after it.\<close>

lemma ttlv_find_encs:
  "list_all (ttlv_ok d) xs \<Longrightarrow> ttlv_find (encs xs) t =
     Inr (case dropWhile (\<lambda>x. tag_of x \<noteq> t) xs of [] \<Rightarrow> None | x # ys \<Rightarrow> Some (item_of x, encs ys))"
proof (induction xs)
  case (Cons x xs)
  then show ?case by (subst ttlv_find.simps) (auto simp: ttlv_next_enc)
qed simp

definition child :: "u32 \<Rightarrow> ttlv list \<Rightarrow> ttlv option" where
  "child t xs = find (\<lambda>x. tag_of x = t) xs"

lemma child_simps [simp]:
  "child t [] = None" "child t (x # xs) = (if tag_of x = t then Some x else child t xs)"
  by (auto simp: child_def)

lemma child_dropWhile: "child t xs = (case dropWhile (\<lambda>x. tag_of x \<noteq> t) xs of [] \<Rightarrow> None | x # _ \<Rightarrow> Some x)"
  by (induction xs) auto

lemma child_ok: "list_all (ttlv_ok d) xs \<Longrightarrow> child t xs = Some x \<Longrightarrow> ttlv_ok d x \<and> tag_of x = t"
  by (induction xs) (auto split: if_splits)

definition struct_at :: "u32 \<Rightarrow> ttlv list \<Rightarrow> ttlv list option" where
  "struct_at t xs = (case child t xs of Some (TStruct _ ys) \<Rightarrow> Some ys | _ \<Rightarrow> None)"

definition enum_at :: "u32 \<Rightarrow> ttlv list \<Rightarrow> u32 option" where
  "enum_at t xs = (case child t xs of Some (TEnum _ v) \<Rightarrow> Some v | _ \<Rightarrow> None)"

definition int_at :: "u32 \<Rightarrow> ttlv list \<Rightarrow> u32 option" where
  "int_at t xs = (case child t xs of Some (TInt _ v) \<Rightarrow> Some v | _ \<Rightarrow> None)"

definition text_at :: "u32 \<Rightarrow> ttlv list \<Rightarrow> string option" where
  "text_at t xs = (case child t xs of Some (TText _ v) \<Rightarrow> Some v | _ \<Rightarrow> None)"

definition bytes_at :: "u32 \<Rightarrow> ttlv list \<Rightarrow> bytes option" where
  "bytes_at t xs = (case child t xs of Some (TBytes _ v) \<Rightarrow> Some v | _ \<Rightarrow> None)"

lemmas at_defs = struct_at_def enum_at_def int_at_def text_at_def bytes_at_def

text \<open>An error as any failed lookup of the parsers reports it.\<close>

abbreviation bad :: "'a option \<Rightarrow> 'a res" where
  "bad x \<equiv> (case x of None \<Rightarrow> Inl EBADMSG | Some v \<Rightarrow> Inr v)"

lemma struct_at_ok: "list_all (ttlv_ok d) xs \<Longrightarrow> struct_at t xs = Some ys \<Longrightarrow> list_all (ttlv_ok (d - 1)) ys"
  by (auto simp: struct_at_def dest: child_ok split: option.splits ttlv.splits)

lemma unat_len: "n \<le> UINT32_MAX \<Longrightarrow> unat (of_nat n :: u32) = n"
  by (simp add: UINT32_MAX_def unat_of_nat)

lemma find_child:
  "list_all (ttlv_ok d) xs \<Longrightarrow> (case ttlv_find (encs xs) t of Inr (Some (it, _)) \<Rightarrow> f it | _ \<Rightarrow> z) =
     (case child t xs of None \<Rightarrow> z | Some x \<Rightarrow> f (item_of x))"
  by (cases "dropWhile (\<lambda>x. tag_of x \<noteq> t) xs") (simp_all add: ttlv_find_encs child_dropWhile del: dropWhile_eq_Nil_conv)

lemma open_item_of: "ttlv_ok d x \<Longrightarrow> ttlv_open (item_of x) = (case x of TStruct _ ys \<Rightarrow> Inr (encs ys) | _ \<Rightarrow> Inl EBADMSG)"
  using encs_dvd by (cases x)
    (auto simp: ttlv_open_def leaf_item_def ttlv_types ttlv_reader_init_def unat_len pad8_dvd)

lemma open_struct_encs:
  assumes "list_all (ttlv_ok d) xs"
  shows "open_struct (encs xs) t = map_sum id (\<lambda>ys. encs ys) (bad (struct_at t xs))"
proof (cases "child t xs")
  case None
  then show ?thesis by (simp add: open_struct_def find_child [OF assms] struct_at_def)
next
  case (Some x)
  then show ?thesis using open_item_of [of d x] child_ok [OF assms Some]
    by (simp add: open_struct_def find_child [OF assms] struct_at_def split: ttlv.splits)
qed

lemma get_enum_of: "ttlv_get_enum (item_of x) = (case x of TEnum _ v \<Rightarrow> Inr v | _ \<Rightarrow> Inl EBADMSG)"
  by (cases x) (auto simp: ttlv_get_enum_def leaf_item_def ttlv_types)

lemma get_int_of: "ttlv_get_int (item_of x) = (case x of TInt _ v \<Rightarrow> Inr v | _ \<Rightarrow> Inl EBADMSG)"
  by (cases x) (auto simp: ttlv_get_int_def leaf_item_def ttlv_types)

lemma find_enum_encs: "list_all (ttlv_ok d) xs \<Longrightarrow> find_enum (encs xs) t = bad (enum_at t xs)"
  unfolding find_enum_def find_child enum_at_def by (auto simp: get_enum_of split: option.splits ttlv.splits)

section \<open>The parsers on encoded messages\<close>

text \<open>The message the parsers accept: one batch item with the answer to operation \<open>op\<close>, in the major
  version of the request, and its payload.  Items they do not know are skipped.\<close>

definition answers :: "ttlv list \<Rightarrow> kmip_version \<Rightarrow> u32 \<Rightarrow> ttlv list \<Rightarrow> bool" where
  "answers xs v op payload \<longleftrightarrow>
     (\<exists>msg h ver item.
        struct_at KMIP_TAG_RESPONSE_MESSAGE xs = Some msg \<and>
        struct_at KMIP_TAG_RESPONSE_HEADER msg = Some h \<and>
        struct_at KMIP_TAG_PROTOCOL_VERSION h = Some ver \<and>
        int_at KMIP_TAG_PROTOCOL_VERSION_MAJOR ver = Some (major v) \<and>
        int_at KMIP_TAG_BATCH_COUNT h = Some 1 \<and>
        struct_at KMIP_TAG_BATCH_ITEM msg = Some item \<and>
        enum_at KMIP_TAG_RESULT_STATUS item = Some KMIP_STATUS_SUCCESS \<and>
        enum_at KMIP_TAG_OPERATION item = Some op \<and>
        struct_at KMIP_TAG_RESPONSE_PAYLOAD item = Some payload)"

lemma check_version_encs:
  assumes "list_all (ttlv_ok d) h"
  shows "check_version (encs h) v =
    (case struct_at KMIP_TAG_PROTOCOL_VERSION h of
       None \<Rightarrow> Some EBADMSG
     | Some ver \<Rightarrow> (case int_at KMIP_TAG_PROTOCOL_VERSION_MAJOR ver of
                     None \<Rightarrow> Some EBADMSG
                   | Some mj \<Rightarrow> if mj = major v then None else Some EPROTO))"
proof (cases "struct_at KMIP_TAG_PROTOCOL_VERSION h")
  case (Some ver)
  note ok = struct_at_ok [OF assms Some]
  then show ?thesis using Some
    by (simp add: check_version_def open_struct_encs [OF assms] find_child [OF ok] int_at_def get_int_of
        split: option.splits ttlv.splits)
qed (simp add: check_version_def open_struct_encs [OF assms])

lemma check_version_None:
  "list_all (ttlv_ok d) h \<Longrightarrow> check_version (encs h) v = None \<longleftrightarrow>
     (\<exists>ver. struct_at KMIP_TAG_PROTOCOL_VERSION h = Some ver \<and>
        int_at KMIP_TAG_PROTOCOL_VERSION_MAJOR ver = Some (major v))"
  by (simp add: check_version_encs split: option.splits)

lemma check_count_encs:
  "list_all (ttlv_ok d) h \<Longrightarrow> check_count (encs h) = None \<longleftrightarrow> int_at KMIP_TAG_BATCH_COUNT h = Some 1"
  by (simp add: check_count_def find_child int_at_def get_int_of split: option.splits ttlv.splits)

lemma open_item_encs:
  assumes "list_all (ttlv_ok d) item"
  shows "fst (open_item (encs item) op r) = Inr q \<longleftrightarrow>
    enum_at KMIP_TAG_RESULT_STATUS item = Some KMIP_STATUS_SUCCESS \<and> enum_at KMIP_TAG_OPERATION item = Some op \<and>
    (\<exists>payload. struct_at KMIP_TAG_RESPONSE_PAYLOAD item = Some payload \<and> q = encs payload)"
  by (auto simp: open_item_def Let_def find_enum_encs [OF assms] open_struct_encs [OF assms] split: option.splits)

lemma reader_all [simp]: "ttlv_reader_init r (length r) = r"
  by (simp add: ttlv_reader_init_def)

lemma open_response_encs:
  assumes "list_all (ttlv_ok d) xs"
  shows "fst (open_response (encs xs) (length (encs xs)) v op) = Inr q \<longleftrightarrow>
    (\<exists>payload. answers xs v op payload \<and> q = encs payload)"
proof (cases "struct_at KMIP_TAG_RESPONSE_MESSAGE xs")
  case None
  then show ?thesis by (simp add: open_response_def open_struct_encs [OF assms] answers_def)
next
  case (Some msg)
  note m = struct_at_ok [OF assms Some]
  show ?thesis
  proof (cases "struct_at KMIP_TAG_RESPONSE_HEADER msg")
    case None
    then show ?thesis using Some m assms
      by (auto simp: open_response_def open_struct_encs answers_def)
  next
    case (Some h)
    note h = struct_at_ok [OF m Some]
    note first = \<open>struct_at KMIP_TAG_RESPONSE_MESSAGE xs = Some msg\<close> Some
    have open_msg: "open_struct (encs xs) KMIP_TAG_RESPONSE_MESSAGE = Inr (encs msg)"
      "open_struct (encs msg) KMIP_TAG_RESPONSE_HEADER = Inr (encs h)"
      using first by (simp_all add: open_struct_encs [OF assms] open_struct_encs [OF m])
    show ?thesis
    proof (cases "struct_at KMIP_TAG_BATCH_ITEM msg")
      case None
      then show ?thesis using first open_msg
        by (auto simp: open_response_def open_struct_encs [OF m] answers_def split: option.splits)
    next
      case (Some item)
      note i = struct_at_ok [OF m Some]
      have "open_response (encs xs) (length (encs xs)) v op =
          (case check_version (encs h) v of
             Some e \<Rightarrow> (Inl e, kmip_result_zero)
           | None \<Rightarrow> (case check_count (encs h) of
                Some e \<Rightarrow> (Inl e, kmip_result_zero)
              | None \<Rightarrow> open_item (encs item) op kmip_result_zero))"
        using open_msg Some by (simp add: open_response_def open_struct_encs [OF m] cong: option.case_cong)
      then have "fst (open_response (encs xs) (length (encs xs)) v op) = Inr q \<longleftrightarrow>
          check_version (encs h) v = None \<and> check_count (encs h) = None \<and>
          fst (open_item (encs item) op kmip_result_zero) = Inr q"
        by (simp split: option.split)
      then show ?thesis
        using first Some
        by (simp only: check_version_None [OF h] check_count_encs [OF h] open_item_encs [OF i] answers_def
            option.inject ex_simps simp_thms) blast
    qed
  qed
qed

lemma answers_ok: "list_all (ttlv_ok d) xs \<Longrightarrow> answers xs v op payload \<Longrightarrow> list_all (ttlv_ok (d - 1 - 1 - 1)) payload"
  unfolding answers_def using struct_at_ok by blast

lemma bytes_find:
  assumes "list_all (ttlv_ok d) xs"
  shows "(case ttlv_find (encs xs) t of
      Inr (Some (it, _)) \<Rightarrow> if itype it \<noteq> TTLV_BYTES \<or> ilen it = 0 then Inl EBADMSG
        else if unat (ilen it) > n then Inl EMSGSIZE else Inr (blit 0 (payload_bytes it) buf, unat (ilen it))
    | _ \<Rightarrow> Inl EBADMSG) =
    (case bytes_at t xs of
       None \<Rightarrow> Inl EBADMSG
     | Some k \<Rightarrow> if k = [] then Inl EBADMSG else if length k > n then Inl EMSGSIZE else Inr (blit 0 k buf, length k))"
proof (cases "child t xs")
  case (Some x)
  have "itype (item_of x) = TTLV_BYTES \<longleftrightarrow> (\<exists>u k. x = TBytes u k)"
    by (cases x) (auto simp: leaf_item_def ttlv_types)
  moreover have "unat (ilen (item_of x)) = length k" "ilen (item_of x) = 0 \<longleftrightarrow> k = []" "payload_bytes (item_of x) = k"
    if "x = TBytes u k" for u k
    using that child_ok [OF assms Some] unat_len [of "length k"]
    by (auto simp: leaf_item_def payload_bytes_def unat_eq_zero [symmetric])
  ultimately show ?thesis unfolding find_child [OF assms] using Some
    by (auto simp: bytes_at_def split: ttlv.splits)
qed (simp add: find_child [OF assms] bytes_at_def)

lemma read_key_block_encs:
  assumes "list_all (ttlv_ok d) kb"
  shows "read_key_block (encs kb) buf n = Inr (m, l) \<longleftrightarrow>
    (\<exists>f kv k. enum_at KMIP_TAG_KEY_FORMAT_TYPE kb = Some f \<and> f \<in> {KMIP_KEY_FORMAT_RAW, KMIP_KEY_FORMAT_OPAQUE} \<and>
      struct_at KMIP_TAG_KEY_VALUE kb = Some kv \<and> bytes_at KMIP_TAG_KEY_MATERIAL kv = Some k \<and>
      k \<noteq> [] \<and> length k \<le> n \<and> m = blit 0 k buf \<and> l = length k)"
proof (cases "struct_at KMIP_TAG_KEY_VALUE kb")
  case (Some kv)
  note ok = struct_at_ok [OF assms Some]
  show ?thesis using Some
    by (auto simp: read_key_block_def find_enum_encs [OF assms] open_struct_encs [OF assms] bytes_find [OF ok]
        split: option.splits if_splits)
qed (auto simp: read_key_block_def find_enum_encs [OF assms] open_struct_encs [OF assms] split: option.splits)

text \<open>The object of a Get response: the key block's material, in the structure of the object's type.\<close>

definition key_object :: "ttlv list \<Rightarrow> u32 \<Rightarrow> bytes \<Rightarrow> bool" where
  "key_object payload ot k \<longleftrightarrow>
     (\<exists>tag obj kb f kv.
        enum_at KMIP_TAG_OBJECT_TYPE payload = Some ot \<and> obj_tag ot = Some tag \<and>
        struct_at tag payload = Some obj \<and> struct_at KMIP_TAG_KEY_BLOCK obj = Some kb \<and>
        enum_at KMIP_TAG_KEY_FORMAT_TYPE kb = Some f \<and> f \<in> {KMIP_KEY_FORMAT_RAW, KMIP_KEY_FORMAT_OPAQUE} \<and>
        struct_at KMIP_TAG_KEY_VALUE kb = Some kv \<and> bytes_at KMIP_TAG_KEY_MATERIAL kv = Some k)"

lemma parse_get_payload:
  assumes "list_all (ttlv_ok d) payload"
  shows "(case find_enum (encs payload) KMIP_TAG_OBJECT_TYPE of
      Inl _ \<Rightarrow> Inl EBADMSG
    | Inr ot \<Rightarrow> (case obj_tag ot of
         None \<Rightarrow> Inl EOPNOTSUPP
       | Some tag \<Rightarrow> (case open_struct (encs payload) tag of
            Inl _ \<Rightarrow> Inl EBADMSG
          | Inr obj \<Rightarrow> (case open_struct obj KMIP_TAG_KEY_BLOCK of
               Inl _ \<Rightarrow> Inl EBADMSG
             | Inr kb \<Rightarrow> map_sum id (\<lambda>(m, l). \<lparr>obj_type = ot, key = m, key_len = l\<rparr>) (read_key_block kb buf n))))) =
      Inr r \<longleftrightarrow>
    (\<exists>ot k. key_object payload ot k \<and> k \<noteq> [] \<and> length k \<le> n \<and> r = \<lparr>obj_type = ot, key = blit 0 k buf, key_len = length k\<rparr>)"
    (is "?L = Inr r \<longleftrightarrow> ?R")
proof (cases "\<exists>ot tag obj kb. enum_at KMIP_TAG_OBJECT_TYPE payload = Some ot \<and> obj_tag ot = Some tag \<and>
    struct_at tag payload = Some obj \<and> struct_at KMIP_TAG_KEY_BLOCK obj = Some kb")
  case True
  then obtain ot tag obj kb where o: "enum_at KMIP_TAG_OBJECT_TYPE payload = Some ot" "obj_tag ot = Some tag"
    "struct_at tag payload = Some obj" "struct_at KMIP_TAG_KEY_BLOCK obj = Some kb" by blast
  note obj = struct_at_ok [OF assms o(3)]
  have "?L = map_sum id (\<lambda>(m, l). \<lparr>obj_type = ot, key = m, key_len = l\<rparr>) (read_key_block (encs kb) buf n)"
    using o by (simp add: find_enum_encs [OF assms] open_struct_encs [OF assms] open_struct_encs [OF obj])
  then have "?L = Inr r \<longleftrightarrow> (\<exists>m l. read_key_block (encs kb) buf n = Inr (m, l) \<and> r = \<lparr>obj_type = ot, key = m, key_len = l\<rparr>)"
    by (cases "read_key_block (encs kb) buf n") (auto split: prod.splits)
  then show ?thesis using o unfolding read_key_block_encs [OF struct_at_ok [OF obj o(4)]] key_object_def by auto
next
  case False
  then have "\<not> key_object payload ot k" for ot k unfolding key_object_def by blast
  moreover have no_kb: "open_struct (encs obj) KMIP_TAG_KEY_BLOCK = Inl EBADMSG"
    if "struct_at tag payload = Some obj" "obj_tag ot = Some tag" "enum_at KMIP_TAG_OBJECT_TYPE payload = Some ot"
    for ot tag obj
    using False that by (cases "struct_at KMIP_TAG_KEY_BLOCK obj")
      (simp_all add: open_struct_encs [OF struct_at_ok [OF assms that(1)]])
  have "?L \<noteq> Inr r"
    by (auto simp: find_enum_encs [OF assms] open_struct_encs [OF assms] dest: no_kb split: option.splits)
  ultimately show ?thesis by blast
qed

lemma ilen_leaf: "ilen (leaf_item t y v) = of_nat (length v)"
  by (simp add: leaf_item_def)

lemma copy_text_text:
  assumes "length s \<le> UINT32_MAX" "length s < n"
  shows "copy_text buf n (leaf_item t y (map of_char s)) = blit (length s) [0] (blit 0 (map of_char s) buf)"
proof -
  have "\<not> length s < n - 1 \<longrightarrow> n - 1 = length s" using assms(2) by linarith
  then show ?thesis using assms by (auto simp: copy_text_def leaf_item_def unat_len Let_def)
qed

lemma byte_eq [simp]: "(of_char c :: u8) = 0 \<longleftrightarrow> c = NUL"
proof
  assume "(of_char c :: u8) = 0"
  then have "char_of (unat (of_char c :: u8)) = char_of (0 :: nat)" by simp
  moreover have "char_of (0 :: nat) = NUL" by (simp add: char_of_def)
  ultimately show "c = NUL" by (simp only: char_of_byte)
qed simp

text \<open>What Locate makes of the Unique Identifiers in the payload.\<close>

definition located :: "ttlv list \<Rightarrow> bytes \<Rightarrow> nat \<Rightarrow> errno option \<times> bytes" where
  "located payload buf n =
     (case filter (\<lambda>x. tag_of x = KMIP_TAG_UNIQUE_IDENTIFIER) payload of
        [] \<Rightarrow> (Some ENOENT, buf)
      | TText _ uid # others \<Rightarrow>
          if uid = [] \<or> NUL \<in> set uid then (Some EBADMSG, buf)
          else if others \<noteq> [] then (Some ENOTUNIQ, buf)
          else if length uid \<ge> n then (Some EMSGSIZE, buf)
          else (None, blit (length uid) [0] (blit 0 (map of_char uid) buf))
      | _ \<Rightarrow> (Some EBADMSG, buf))"

lemma filter_dropWhile: "filter P xs = (case dropWhile (\<lambda>x. \<not> P x) xs of [] \<Rightarrow> [] | x # ys \<Rightarrow> x # filter P ys)"
  by (induction xs) auto

lemma dropWhile_ok: "list_all P xs \<Longrightarrow> dropWhile Q xs = x # ys \<Longrightarrow> P x \<and> list_all P ys \<and> \<not> Q x"
  by (induction xs) (auto split: if_splits)

lemma text_item:
  assumes "ttlv_ok d x"
  shows "itype (item_of x) \<noteq> TTLV_TEXT \<or> ilen (item_of x) = 0 \<or> 0 \<in> set (payload_bytes (item_of x)) \<longleftrightarrow>
    (case x of TText _ uid \<Rightarrow> uid = [] \<or> NUL \<in> set uid | _ \<Rightarrow> True)"
proof (cases x)
  case (TText t uid)
  then have l: "unat (of_nat (length uid) :: u32) = length uid" using assms by (simp add: unat_len)
  have "ilen (item_of x) = 0 \<longleftrightarrow> unat (ilen (item_of x)) = 0" by (simp only: unat_eq_zero)
  then show ?thesis using TText l by (auto simp: leaf_item_def payload_bytes_def image_iff)
qed (simp_all add: leaf_item_def ttlv_types)

lemma find_rest:
  "list_all (ttlv_ok d) ys \<Longrightarrow> (case ttlv_find (encs ys) t of Inl e \<Rightarrow> z e | Inr (Some _) \<Rightarrow> a | Inr None \<Rightarrow> b) =
     (if filter (\<lambda>x. tag_of x = t) ys \<noteq> [] then a else b)"
  by (cases "dropWhile (\<lambda>x. tag_of x \<noteq> t) ys")
    (simp_all add: ttlv_find_encs filter_dropWhile [of "\<lambda>x. tag_of x = t" ys] del: dropWhile_eq_Nil_conv filter_empty_conv)

lemma parse_locate_payload:
  assumes "list_all (ttlv_ok d) payload"
  shows "(case ttlv_find (encs payload) KMIP_TAG_UNIQUE_IDENTIFIER of
       Inl e \<Rightarrow> (Some e, buf, r)
     | Inr None \<Rightarrow> (Some ENOENT, buf, r)
     | Inr (Some (it, payload')) \<Rightarrow>
         if itype it \<noteq> TTLV_TEXT \<or> ilen it = 0 \<or> 0 \<in> set (payload_bytes it) then (Some EBADMSG, buf, r)
         else (case ttlv_find payload' KMIP_TAG_UNIQUE_IDENTIFIER of
                 Inl e \<Rightarrow> (Some e, buf, r)
               | Inr (Some _) \<Rightarrow> (Some ENOTUNIQ, buf, r)
               | Inr None \<Rightarrow>
                   if unat (ilen it) \<ge> n then (Some EMSGSIZE, buf, r)
                   else (None, copy_text buf n it, r))) =
    (fst (located payload buf n), snd (located payload buf n), r)" (is "?L = ?R")
proof (cases "dropWhile (\<lambda>x. tag_of x \<noteq> KMIP_TAG_UNIQUE_IDENTIFIER) payload")
  case Nil
  then show ?thesis
    by (simp add: ttlv_find_encs [OF assms] located_def filter_dropWhile [of _ payload]
        del: dropWhile_eq_Nil_conv filter_empty_conv)
next
  case (Cons x ys)
  note ok = dropWhile_ok [OF assms Cons]
  let ?others = "filter (\<lambda>x. tag_of x = KMIP_TAG_UNIQUE_IDENTIFIER) ys"
  have f: "filter (\<lambda>x. tag_of x = KMIP_TAG_UNIQUE_IDENTIFIER) payload = x # ?others"
    using Cons by (simp add: filter_dropWhile [of _ payload])
  have "?L = (if case x of TText _ uid \<Rightarrow> uid = [] \<or> NUL \<in> set uid | _ \<Rightarrow> True then (Some EBADMSG, buf, r)
      else if ?others \<noteq> [] then (Some ENOTUNIQ, buf, r)
      else if unat (ilen (item_of x)) \<ge> n then (Some EMSGSIZE, buf, r)
      else (None, copy_text buf n (item_of x), r))"
    unfolding ttlv_find_encs [OF assms] Cons list.case sum.case option.case prod.case
      text_item [OF conjunct1 [OF ok]] find_rest [OF conjunct1 [OF conjunct2 [OF ok]]] by (rule refl)
  then show ?thesis using ok unfolding located_def f
    by (cases x) (auto simp: ilen_leaf unat_len copy_text_text)
qed









lemma answers_unique: "answers xs v op p \<Longrightarrow> answers xs v op q \<Longrightarrow> p = q"
  by (auto simp: answers_def)

lemma open_struct_error: "open_struct r t = Inl e \<Longrightarrow> e = EBADMSG"
  by (auto simp: open_struct_def ttlv_open_def split: sum.splits option.splits if_splits)

lemma open_response_error:
  assumes "open_response buf n v op = (Inl e, r)"
  shows "e \<in> {EBADMSG, EPROTO, EREMOTEIO}"
proof -
  have "check_version h v = Some x \<Longrightarrow> x \<in> {EBADMSG, EPROTO}" "check_count h = Some x \<Longrightarrow> x = EBADMSG" for h x
    by (auto simp: check_version_def check_count_def split: sum.splits option.splits if_splits)
  moreover have "fst (open_item item op s) = Inl x \<Longrightarrow> x \<in> {EBADMSG, EREMOTEIO}" for item s x
    by (auto simp: open_item_def Let_def dest: open_struct_error split: sum.splits if_splits)
  ultimately show ?thesis using assms
    by (auto simp: open_response_def dest: open_struct_error split: sum.splits option.splits)
      (metis fst_conv insert_iff singletonD)+
qed

lemma parse_get_encs:
  assumes "list_all (ttlv_ok d) xs"
  shows "(\<exists>r. kmip_parse_get (encs xs) (length (encs xs)) v buf n = (Inr k, r)) \<longleftrightarrow>
      (\<exists>payload ot m. answers xs v KMIP_OP_GET payload \<and> key_object payload ot m \<and> m \<noteq> [] \<and> length m \<le> n \<and>
         k = \<lparr>obj_type = ot, key = blit 0 m buf, key_len = length m\<rparr>)"
proof (cases "open_response (encs xs) (length (encs xs)) v KMIP_OP_GET")
  case (Pair a r)
  show ?thesis
  proof (cases a)
    case (Inl e)
    then have "\<not> answers xs v KMIP_OP_GET payload" for payload
      using Pair open_response_encs [OF assms, of v KMIP_OP_GET] by auto
    then show ?thesis using Pair Inl by (simp add: kmip_parse_get_def)
  next
    case (Inr q)
    then obtain payload where p: "answers xs v KMIP_OP_GET payload" "q = encs payload"
      using Pair open_response_encs [OF assms, of v KMIP_OP_GET q] by auto
    then show ?thesis
      using Pair Inr parse_get_payload [OF answers_ok [OF assms p(1)], of buf n k] answers_unique
      by (simp add: kmip_parse_get_def) blast
  qed
qed

lemma parse_locate_encs:
  assumes "list_all (ttlv_ok d) xs"
  shows "case kmip_parse_locate (encs xs) (length (encs xs)) v buf n of (e, m, r) \<Rightarrow>
      (\<forall>payload. answers xs v KMIP_OP_LOCATE payload \<longrightarrow> (e, m) = located payload buf n) \<and>
      ((\<nexists>payload. answers xs v KMIP_OP_LOCATE payload) \<longrightarrow>
         e \<in> {Some EBADMSG, Some EPROTO, Some EREMOTEIO} \<and> m = buf)"
proof (cases "open_response (encs xs) (length (encs xs)) v KMIP_OP_LOCATE")
  case (Pair a r)
  show ?thesis
  proof (cases a)
    case (Inl e)
    then show ?thesis using Pair open_response_encs [OF assms, of v KMIP_OP_LOCATE] open_response_error
      by (fastforce simp: kmip_parse_locate_def)
  next
    case (Inr q)
    then obtain payload where p: "answers xs v KMIP_OP_LOCATE payload" "q = encs payload"
      using Pair open_response_encs [OF assms, of v KMIP_OP_LOCATE q] by auto
    have eq: "kmip_parse_locate (encs xs) (length (encs xs)) v buf n =
        (fst (located payload buf n), snd (located payload buf n), r)"
      unfolding kmip_parse_locate_def Pair Inr prod.case sum.case p(2)
      by (rule parse_locate_payload [OF answers_ok [OF assms p(1)]])
    have "(fst (located payload buf n), snd (located payload buf n)) = located payload' buf n"
      if "answers xs v KMIP_OP_LOCATE payload'" for payload'
      using answers_unique [OF p(1) that] by simp
    then show ?thesis unfolding eq prod.case using p(1) by blast
  qed
qed






lemma read_failure_encs:
  assumes "list_all (ttlv_ok d) item" "text_at KMIP_TAG_RESULT_MESSAGE item = Some text"
  shows "read_failure (encs item) (kmip_result_zero\<lparr>status := st\<rparr>) =
    \<lparr>status = st, reason = (case enum_at KMIP_TAG_RESULT_REASON item of None \<Rightarrow> 0 | Some r \<Rightarrow> r),
     message = take 127 (map of_char text) @ replicate (128 - min 127 (length text)) 0\<rparr>"
proof -
  have c: "child KMIP_TAG_RESULT_MESSAGE item = Some (TText KMIP_TAG_RESULT_MESSAGE text)"
    using assms(2) by (auto simp: text_at_def dest: child_ok [OF assms(1)] split: option.splits ttlv.splits)
  then have l: "length text \<le> UINT32_MAX" using child_ok [OF assms(1) c] by simp
  have copy: "copy_text (replicate 128 0) 128 (leaf_item t TTLV_TEXT (map of_char text)) =
      take 127 (map of_char text) @ replicate (128 - min 127 (length text)) 0" for t
    using l by (auto simp: copy_text_def leaf_item_def unat_len Let_def blit_def min_def drop_replicate
        replicate_Suc [symmetric] Suc_diff_le simp del: replicate_Suc)
  have "itype (leaf_item t TTLV_TEXT v) = TTLV_TEXT" for t v by (simp add: leaf_item_def)
  then show ?thesis
    by (simp add: read_failure_def find_child [OF assms(1)] c copy enum_at_def get_enum_of kmip_result_zero_def
        split: option.split ttlv.split)
qed

section \<open>Properties\<close>

text \<open>The trees of the two requests.\<close>

definition request_tree :: "kmip_version \<Rightarrow> u32 \<Rightarrow> ttlv list \<Rightarrow> ttlv" where
  "request_tree v op payload =
     TStruct KMIP_TAG_REQUEST_MESSAGE
       [TStruct KMIP_TAG_REQUEST_HEADER
          [TStruct KMIP_TAG_PROTOCOL_VERSION
             [TInt KMIP_TAG_PROTOCOL_VERSION_MAJOR (major v), TInt KMIP_TAG_PROTOCOL_VERSION_MINOR (minor v)],
           TInt KMIP_TAG_BATCH_COUNT 1],
        TStruct KMIP_TAG_BATCH_ITEM [TEnum KMIP_TAG_OPERATION op, TStruct KMIP_TAG_REQUEST_PAYLOAD payload]]"

definition locate_payload :: "string \<Rightarrow> u32 \<Rightarrow> ttlv list" where
  "locate_payload name state =
     [TInt KMIP_TAG_MAXIMUM_ITEMS 2,
      TStruct KMIP_TAG_ATTRIBUTE
        [TText KMIP_TAG_ATTRIBUTE_NAME ''Name'',
         TStruct KMIP_TAG_ATTRIBUTE_VALUE
           [TText KMIP_TAG_NAME_VALUE name, TEnum KMIP_TAG_NAME_TYPE KMIP_NAME_UNINTERPRETED_TEXT]]] @
     (if state = KMIP_STATE_ANY then []
      else [TStruct KMIP_TAG_ATTRIBUTE
              [TText KMIP_TAG_ATTRIBUTE_NAME ''State'', TEnum KMIP_TAG_ATTRIBUTE_VALUE state]])"

lemmas request_defs = begin_request_def end_request_def add_name_attr_v1_def add_state_attr_v1_def
  request_tree_def locate_payload_def Let_def

lemma build_locate_emit:
  "major v = 1 \<Longrightarrow> kmip_build_locate fresh b v name state =
     (let b' = emit fresh b (request_tree v KMIP_OP_LOCATE (locate_payload name state)) in (err b', b'))"
  by (simp add: kmip_build_locate_def request_defs LOCATE_MAX_ITEMS_def)

lemma build_get_emit:
  "kmip_build_get fresh b v uid =
     (let b' = emit fresh b (request_tree v KMIP_OP_GET [TText KMIP_TAG_UNIQUE_IDENTIFIER uid]) in (err b', b'))"
  by (simp add: kmip_build_get_def request_defs)

lemma pad8_small: "n \<le> 2 ^ 31 \<Longrightarrow> pad8 n \<le> 2 ^ 31 + 7"
  using pad8_facts(6) [of n] by linarith

lemma request_ok:
  assumes "length name \<le> 2 ^ 31"
  shows "ttlv_ok TTLV_MAX_DEPTH (request_tree v op (locate_payload name state))"
    "ttlv_ok TTLV_MAX_DEPTH (request_tree v op [TText KMIP_TAG_UNIQUE_IDENTIFIER name])"
    "length (ttlv_enc (request_tree v op (locate_payload name state))) \<le> 2 ^ 63"
    "length (ttlv_enc (request_tree v op [TText KMIP_TAG_UNIQUE_IDENTIFIER name])) \<le> 2 ^ 63"
  using pad8_small [OF assms] assms
  by (simp_all add: request_tree_def locate_payload_def kmip_tags TTLV_MAX_DEPTH_def UINT32_MAX_def pad8_facts)
     (simp_all add: pad8_def)

text \<open>A request carries what it should and nothing else: with memory at hand, the Locate and Get
  requests are written into a fresh buffer without an error, every structure is closed, and a server
  that reads the finished message finds exactly the request tree of the operation - for Locate the
  limit of two answers, the name, and the state filter unless the state is \<open>KMIP_STATE_ANY\<close>.\<close>

theorem kmip_requests_exact:
  assumes "plenty fresh" "length name \<le> 2 ^ 31" "major v = 1"
  shows "let (e, b) = kmip_build_locate fresh (ttlv_buf_init b0) v name state;
             (e', b') = kmip_build_get fresh (ttlv_buf_init b0) v name
         in e = None \<and> opens b = [] \<and>
            read_all (ttlv_reader_init (dat b) (len b)) =
              Inr [request_tree v KMIP_OP_LOCATE (locate_payload name state)] \<and>
            e' = None \<and> opens b' = [] \<and>
            read_all (ttlv_reader_init (dat b') (len b')) =
              Inr [request_tree v KMIP_OP_GET [TText KMIP_TAG_UNIQUE_IDENTIFIER name]]"
  using emit_all_ok [OF assms(1), of "[request_tree v KMIP_OP_LOCATE (locate_payload name state)]" b0]
    emit_all_ok [OF assms(1), of "[request_tree v KMIP_OP_GET [TText KMIP_TAG_UNIQUE_IDENTIFIER name]]" b0]
    request_ok [OF assms(2)]
  by (simp add: build_locate_emit [OF assms(3)] build_get_emit Let_def)

theorem kmip_requests_exact_witness:
  "let (e, b) = kmip_build_locate (\<lambda>n. Some (replicate n 7)) (ttlv_buf_init
         \<lparr>dat = [], len = 0, cap = 0, err = None, opens = [], freed = []\<rparr>) kmip_v1_4 ''psk-1'' KMIP_STATE_ACTIVE;
       (e', b') = kmip_build_get (\<lambda>n. Some (replicate n 7)) (ttlv_buf_init
         \<lparr>dat = [], len = 0, cap = 0, err = None, opens = [], freed = []\<rparr>) kmip_v1_4 ''psk-1''
   in e = None \<and> opens b = [] \<and>
      read_all (ttlv_reader_init (dat b) (len b)) =
        Inr [request_tree kmip_v1_4 KMIP_OP_LOCATE (locate_payload ''psk-1'' KMIP_STATE_ACTIVE)] \<and>
      e' = None \<and> opens b' = [] \<and>
      read_all (ttlv_reader_init (dat b') (len b')) =
        Inr [request_tree kmip_v1_4 KMIP_OP_GET [TText KMIP_TAG_UNIQUE_IDENTIFIER ''psk-1'']]"
  by (rule kmip_requests_exact) (simp_all add: plenty_def kmip_v1_4_def)

text \<open>C12: The response parsers read every well-formed message as KMIP means it.  Get succeeds exactly
  on an answer to Get in the major version of the request whose object is a Symmetric Key or Secret
  Data in Raw or Opaque format with a key that is neither empty nor larger than the buffer, and then
  the buffer holds that key.  Locate returns, on an answer, what the Unique Identifiers in it say (no
  object, several, or the one name), and otherwise one of the three errors of a bad answer, with the
  buffer unchanged.\<close>

theorem kmip_responses_exact:
  assumes "list_all (ttlv_ok d) xs"
  shows "((\<exists>r. kmip_parse_get (encs xs) (length (encs xs)) v buf n = (Inr k, r)) \<longleftrightarrow>
      (\<exists>payload ot m. answers xs v KMIP_OP_GET payload \<and> key_object payload ot m \<and> m \<noteq> [] \<and> length m \<le> n \<and>
         k = \<lparr>obj_type = ot, key = blit 0 m buf, key_len = length m\<rparr>)) \<and>
    (case kmip_parse_locate (encs xs) (length (encs xs)) v buf n of (e, m, r) \<Rightarrow>
      (\<forall>payload. answers xs v KMIP_OP_LOCATE payload \<longrightarrow> (e, m) = located payload buf n) \<and>
      ((\<nexists>payload. answers xs v KMIP_OP_LOCATE payload) \<longrightarrow>
         e \<in> {Some EBADMSG, Some EPROTO, Some EREMOTEIO} \<and> m = buf))"
  by (rule conjI [OF parse_get_encs [OF assms] parse_locate_encs [OF assms]])

definition sample_get :: "ttlv list" where
  "sample_get = [TStruct KMIP_TAG_RESPONSE_MESSAGE
     [TStruct KMIP_TAG_RESPONSE_HEADER
        [TStruct KMIP_TAG_PROTOCOL_VERSION
           [TInt KMIP_TAG_PROTOCOL_VERSION_MAJOR 1, TInt KMIP_TAG_PROTOCOL_VERSION_MINOR 4],
         TDate 0x420092 1700000000, TInt KMIP_TAG_BATCH_COUNT 1],
      TStruct KMIP_TAG_BATCH_ITEM
        [TEnum KMIP_TAG_OPERATION KMIP_OP_GET, TEnum KMIP_TAG_RESULT_STATUS 0,
         TStruct KMIP_TAG_RESPONSE_PAYLOAD
           [TEnum KMIP_TAG_OBJECT_TYPE KMIP_OBJ_SYMMETRIC_KEY, TText KMIP_TAG_UNIQUE_IDENTIFIER ''17'',
            TStruct KMIP_TAG_SYMMETRIC_KEY [TStruct KMIP_TAG_KEY_BLOCK
              [TEnum KMIP_TAG_KEY_FORMAT_TYPE KMIP_KEY_FORMAT_RAW,
               TStruct KMIP_TAG_KEY_VALUE [TBytes KMIP_TAG_KEY_MATERIAL [1, 2, 3]]]]]]]]"

theorem kmip_responses_exact_witness:
  "\<exists>r. kmip_parse_get (encs sample_get) (length (encs sample_get)) kmip_v1_4 [9, 9, 9, 9] 4 =
     (Inr \<lparr>obj_type = KMIP_OBJ_SYMMETRIC_KEY, key = [1, 2, 3, 9], key_len = 3\<rparr>, r)"
proof -
  have ok: "list_all (ttlv_ok 16) sample_get"
    by (simp add: sample_get_def kmip_tags UINT32_MAX_def pad8_def)
  obtain payload where p: "answers sample_get kmip_v1_4 KMIP_OP_GET payload"
    "key_object payload KMIP_OBJ_SYMMETRIC_KEY [1, 2, 3]"
    by (simp add: answers_def key_object_def sample_get_def at_defs kmip_tags kmip_values kmip_v1_4_def obj_tag_def)
  then have "\<exists>payload ot m. answers sample_get kmip_v1_4 KMIP_OP_GET payload \<and> key_object payload ot m \<and> m \<noteq> [] \<and>
      length m \<le> 4 \<and> \<lparr>obj_type = KMIP_OBJ_SYMMETRIC_KEY, key = [1, 2, 3, 9], key_len = 3\<rparr> =
        \<lparr>obj_type = ot, key = blit 0 m [9, 9, 9, 9], key_len = length m\<rparr>"
    by (intro exI [of _ payload] exI [of _ KMIP_OBJ_SYMMETRIC_KEY] exI [of _ "[1, 2, 3]"]) (simp add: blit_def)
  then show ?thesis by (rule iffD2 [OF conjunct1 [OF kmip_responses_exact [OF ok]]])
qed



text \<open>A failed operation is reported as such: when the batch item of a response in the right version
  carries a Result Status other than Success, both parsers return \<open>EREMOTEIO\<close> - whether or not the
  item names an operation - and keep the status, the reason if there is one, and the first 127 bytes
  of the message.\<close>

theorem kmip_failure_reported:
  assumes "list_all (ttlv_ok d) xs"
    "struct_at KMIP_TAG_RESPONSE_MESSAGE xs = Some msg" "struct_at KMIP_TAG_RESPONSE_HEADER msg = Some h"
    "struct_at KMIP_TAG_PROTOCOL_VERSION h = Some ver" "int_at KMIP_TAG_PROTOCOL_VERSION_MAJOR ver = Some (major v)"
    "int_at KMIP_TAG_BATCH_COUNT h = Some 1" "struct_at KMIP_TAG_BATCH_ITEM msg = Some item"
    "enum_at KMIP_TAG_RESULT_STATUS item = Some st" "st \<noteq> KMIP_STATUS_SUCCESS"
    "text_at KMIP_TAG_RESULT_MESSAGE item = Some text"
  shows "let res = \<lparr>status = st, reason = (case enum_at KMIP_TAG_RESULT_REASON item of None \<Rightarrow> 0 | Some r \<Rightarrow> r),
                    message = take 127 (map of_char text) @ replicate (128 - min 127 (length text)) 0\<rparr>
         in kmip_parse_get (encs xs) (length (encs xs)) v buf n = (Inl EREMOTEIO, res) \<and>
            kmip_parse_locate (encs xs) (length (encs xs)) v buf n = (Some EREMOTEIO, buf, res)"
proof -
  note m = struct_at_ok [OF assms(1,2)] and h = struct_at_ok [OF struct_at_ok [OF assms(1,2)] assms(3)]
  note i = struct_at_ok [OF m assms(7)]
  have "check_version (encs h) v = None" "check_count (encs h) = None"
    using assms(4-6) check_version_None [OF h] check_count_encs [OF h] by auto
  then have "open_response (encs xs) (length (encs xs)) v op =
      (Inl EREMOTEIO, read_failure (encs item) (kmip_result_zero\<lparr>status := st\<rparr>))" for op
    using assms(2,3,7-9) by (simp add: open_response_def open_struct_encs [OF assms(1)] open_struct_encs [OF m]
        open_item_def find_enum_encs [OF i])
  then show ?thesis
    by (simp add: kmip_parse_get_def kmip_parse_locate_def read_failure_encs [OF i assms(10)] Let_def)
qed

theorem kmip_failure_reported_witness:
  "let xs = [TStruct KMIP_TAG_RESPONSE_MESSAGE
        [TStruct KMIP_TAG_RESPONSE_HEADER
           [TStruct KMIP_TAG_PROTOCOL_VERSION [TInt KMIP_TAG_PROTOCOL_VERSION_MAJOR 1], TInt KMIP_TAG_BATCH_COUNT 1],
         TStruct KMIP_TAG_BATCH_ITEM
           [TEnum KMIP_TAG_RESULT_STATUS 1, TEnum KMIP_TAG_RESULT_REASON 4, TText KMIP_TAG_RESULT_MESSAGE ''bad'']]];
       res = \<lparr>status = 1, reason = 4, message = map of_char ''bad'' @ replicate 125 0\<rparr>
   in kmip_parse_get (encs xs) (length (encs xs)) kmip_v1_4 [] 0 = (Inl EREMOTEIO, res) \<and>
      kmip_parse_locate (encs xs) (length (encs xs)) kmip_v1_4 [] 0 = (Some EREMOTEIO, [], res)"
proof -
  let ?h = "[TStruct KMIP_TAG_PROTOCOL_VERSION [TInt KMIP_TAG_PROTOCOL_VERSION_MAJOR 1], TInt KMIP_TAG_BATCH_COUNT 1]"
  let ?i = "[TEnum KMIP_TAG_RESULT_STATUS 1, TEnum KMIP_TAG_RESULT_REASON 4, TText KMIP_TAG_RESULT_MESSAGE ''bad'']"
  let ?m = "[TStruct KMIP_TAG_RESPONSE_HEADER ?h, TStruct KMIP_TAG_BATCH_ITEM ?i]"
  have "list_all (ttlv_ok 16) [TStruct KMIP_TAG_RESPONSE_MESSAGE ?m]"
    by (simp add: kmip_tags UINT32_MAX_def pad8_def)
  then show ?thesis
    using kmip_failure_reported [of 16 "[TStruct KMIP_TAG_RESPONSE_MESSAGE ?m]" ?m ?h
        "[TInt KMIP_TAG_PROTOCOL_VERSION_MAJOR 1]" kmip_v1_4 ?i 1 "''bad''" "[]" 0]
    by (simp add: at_defs kmip_tags kmip_values kmip_v1_4_def Let_def)
qed

end
