(* ===== verification/KmipClient.thy ===== *)
theory KmipClient
  imports Prelude
begin

text \<open>
  The client of the key daemon that fetches all KMIP keys, \<open>keysd/src/kmip-client.c\<close>: one queue of
  calls per KMS, one call at a time, and retries with a growing delay.

  Times are microseconds of \<open>CLOCK_MONOTONIC\<close> in 64 bits; sums and products are taken modulo \<open>2 ^ 64\<close>
  as \<open>uint64_t\<close> does.  \<open>sd_event_now\<close> returns the time at which the event loop began the current
  iteration, which is one value \<open>now\<close> for all of a callback; before the loop runs for the first time, when
  \<open>kmip_client_new\<close> is called, it reads the clock at each call.  So \<open>queue_next\<close> takes a sequence
  \<open>clk\<close> of readings: reading \<open>2 * k\<close> is the one of its \<open>k\<close>-th round and \<open>2 * k + 1\<close> the one of \<open>call_failed\<close>
  in that round; a callback passes the constant sequence.  \<open>start k i\<close> is the result of the \<open>k\<close>-th
  attempt of this callback to send a call to the helper, here call \<open>i\<close> of the queue; \<open>tok\<close> says whether
  a new timer can be added to the event loop.  Changing the time of a timer that exists and enabling
  it again, whose results the code ignores, are taken to succeed.  A job is the number of its KMS.
  \<open>armed\<close> is the time the queue's timer is enabled for.  The status line for systemd and the log
  messages are left out.
\<close>

section \<open>State\<close>

record kmip_client_cfg =
  retry_usec :: nat
  retry_max_usec :: nat

record kmip_call =
  next_try :: nat
  delay :: nat
  cdone :: bool

record kms_queue =
  qkms :: nat
  qserver :: nat
  calls :: "kmip_call list"
  active :: "nat option"
  has_timer :: bool
  armed :: "nat option"

record kmip_client =
  queues :: "kms_queue list"
  pending :: nat

section \<open>Operations\<close>

definition call_done :: "kms_queue \<Rightarrow> nat \<Rightarrow> nat \<Rightarrow> kms_queue \<times> nat" where
  "call_done q i pend = (q\<lparr>calls := (calls q)[i := (calls q ! i)\<lparr>cdone := True\<rparr>]\<rparr>, pend - 1)"

definition call_failed :: "kmip_client_cfg \<Rightarrow> nat \<Rightarrow> kms_queue \<Rightarrow> nat \<Rightarrow> kms_queue" where
  "call_failed cfg now q i =
     (let call = calls q ! i; d = (delay call * 2) mod 2 ^ 64
      in q\<lparr>calls := (calls q)[i := call\<lparr>next_try := (now + delay call) mod 2 ^ 64,
              delay := (if d > retry_max_usec cfg then retry_max_usec cfg else d)\<rparr>]\<rparr>)"

definition end_call :: "kms_queue \<Rightarrow> kms_queue" where
  "end_call q = q\<lparr>active := None\<rparr>"

definition arm_timer :: "bool \<Rightarrow> kms_queue \<Rightarrow> nat \<Rightarrow> kms_queue" where
  "arm_timer tok q when =
     (if \<not> has_timer q then (if tok then q\<lparr>has_timer := True, armed := Some when\<rparr> else q)
      else q\<lparr>armed := Some when\<rparr>)"

text \<open>\<open>start_call\<close>, where \<open>r\<close> is the first failure of the sd-varlink calls that connect the link, attach
  it to the event loop, set its timeout and send the request: the call becomes the active one only if
  all of them succeed.\<close>

definition start_call :: "errno option \<Rightarrow> kms_queue \<Rightarrow> nat \<Rightarrow> errno option \<times> kms_queue" where
  "start_call r q i = (case r of Some e \<Rightarrow> (Some e, q) | None \<Rightarrow> (None, q\<lparr>active := Some i\<rparr>))"

text \<open>The search of \<open>queue_next\<close>: the first call that is due, or the earliest time of a later one.\<close>

fun scan :: "nat \<Rightarrow> nat \<Rightarrow> nat option \<Rightarrow> kmip_call list \<Rightarrow> nat option \<times> nat option" where
  "scan now i next [] = (None, next)"
| "scan now i next (c # cs) =
     (if cdone c then scan now (i + 1) next cs
      else if next_try c \<le> now then (Some i, next)
      else scan now (i + 1)
             (case next of None \<Rightarrow> Some (next_try c)
              | Some t \<Rightarrow> if next_try c < t then Some (next_try c) else Some t) cs)"

partial_function (option) queue_next ::
  "kmip_client_cfg \<Rightarrow> (nat \<Rightarrow> nat) \<Rightarrow> (nat \<Rightarrow> nat \<Rightarrow> errno option) \<Rightarrow> bool \<Rightarrow> nat \<Rightarrow> kms_queue \<Rightarrow> kms_queue option" where
  "queue_next cfg clk start tok k q =
     (if active q \<noteq> None then Some q
      else (case scan (clk (2 * k)) 0 None (calls q) of
              (None, None) \<Rightarrow> Some q
            | (None, Some t) \<Rightarrow> Some (arm_timer tok q t)
            | (Some i, _) \<Rightarrow>
                (case start_call (start k i) q i of
                   (None, q1) \<Rightarrow> queue_next cfg clk start tok (k + 1) q1
                 | (Some _, q1) \<Rightarrow>
                     queue_next cfg clk start tok (k + 1) (call_failed cfg (clk (2 * k + 1)) q1 i))))"

text \<open>A reply of the helper: an error, an answer without a key, or a key with the number of the server
  that gave it, if the answer has one, and the result of the import.\<close>

datatype kreply = ReplyError | ReplyNoKey | ReplyKey "nat option" "errno option"

definition on_reply ::
  "kmip_client_cfg \<Rightarrow> nat \<Rightarrow> (nat \<Rightarrow> nat \<Rightarrow> errno option) \<Rightarrow> bool \<Rightarrow> nat \<Rightarrow> kms_queue \<Rightarrow> nat \<Rightarrow> nat \<Rightarrow> kreply \<Rightarrow>
   (kms_queue \<times> nat) option" where
  "on_reply cfg now start tok nr_servers q i pend r =
     (let (q1, pend1) = (case r of
            ReplyError \<Rightarrow> (call_failed cfg now q i, pend)
          | ReplyNoKey \<Rightarrow> (call_failed cfg now q i, pend)
          | ReplyKey server imported \<Rightarrow>
              (let q0 = (case server of
                           Some s \<Rightarrow> if s < nr_servers then q\<lparr>qserver := s\<rparr> else q
                         | None \<Rightarrow> q)
               in case imported of
                    Some _ \<Rightarrow> (call_failed cfg now q0 i, pend)
                  | None \<Rightarrow> call_done q0 i pend))
      in map_option (\<lambda>q2. (q2, pend1)) (queue_next cfg (\<lambda>_. now) start tok 0 (end_call q1)))"

text \<open>\<open>on_timer\<close>: a one-shot timer is disabled when it fires.\<close>

definition on_timer ::
  "kmip_client_cfg \<Rightarrow> nat \<Rightarrow> (nat \<Rightarrow> nat \<Rightarrow> errno option) \<Rightarrow> bool \<Rightarrow> kms_queue \<Rightarrow> kms_queue option" where
  "on_timer cfg now start tok q = queue_next cfg (\<lambda>_. now) start tok 0 (q\<lparr>armed := None\<rparr>)"

definition find_queue :: "kms_queue list \<Rightarrow> nat \<Rightarrow> nat option" where
  "find_queue qs kms = (let i = length (takeWhile (\<lambda>q. qkms q \<noteq> kms) qs) in if i < length qs then Some i else None)"

text \<open>\<open>mem\<close> says whether \<open>realloc\<close> succeeds.\<close>

definition add_to_queue :: "bool \<Rightarrow> kms_queue list \<Rightarrow> nat \<Rightarrow> kmip_call \<Rightarrow> kms_queue list res" where
  "add_to_queue mem qs kms call =
     (let (qs1, i) = (case find_queue qs kms of
            Some i \<Rightarrow> (qs, i)
          | None \<Rightarrow> (qs @ [\<lparr>qkms = kms, qserver = 0, calls = [], active = None, has_timer = False, armed = None\<rparr>], length qs))
      in if \<not> mem then Inl ENOMEM
         else Inr (qs1[i := (qs1 ! i)\<lparr>calls := calls (qs1 ! i) @ [call]\<rparr>]))"

fun add_jobs :: "kmip_client_cfg \<Rightarrow> (nat \<Rightarrow> bool) \<Rightarrow> nat \<Rightarrow> kms_queue list \<Rightarrow> nat list \<Rightarrow> kms_queue list res" where
  "add_jobs cfg mem i qs [] = Inr qs"
| "add_jobs cfg mem i qs (kms # jobs) =
     (case add_to_queue (mem i) qs kms \<lparr>next_try = 0, delay = retry_usec cfg, cdone = False\<rparr> of
        Inl e \<Rightarrow> Inl e
      | Inr qs1 \<Rightarrow> add_jobs cfg mem (i + 1) qs1 jobs)"

text \<open>The final loop over the queues; \<open>clks j\<close>, \<open>starts j\<close> and \<open>toks j\<close> are the clock readings, the attempts
  and the result of adding the timer of queue \<open>j\<close>.\<close>

fun start_queues ::
  "kmip_client_cfg \<Rightarrow> (nat \<Rightarrow> nat \<Rightarrow> nat) \<Rightarrow> (nat \<Rightarrow> nat \<Rightarrow> nat \<Rightarrow> errno option) \<Rightarrow> (nat \<Rightarrow> bool) \<Rightarrow> nat \<Rightarrow>
   kms_queue list \<Rightarrow> kms_queue list option" where
  "start_queues cfg clks starts toks j [] = Some []"
| "start_queues cfg clks starts toks j (q # qs) =
     (case queue_next cfg (clks j) (starts j) (toks j) 0 q of
        None \<Rightarrow> None
      | Some q1 \<Rightarrow> map_option ((#) q1) (start_queues cfg clks starts toks (j + 1) qs))"

text \<open>\<open>calloc_c\<close> and \<open>callocs\<close> are the outcomes of allocating the client, and its calls and queues.\<close>

definition kmip_client_new ::
  "kmip_client_cfg \<Rightarrow> (nat \<Rightarrow> bool) \<Rightarrow> bool \<Rightarrow> bool \<Rightarrow> (nat \<Rightarrow> nat \<Rightarrow> nat) \<Rightarrow> (nat \<Rightarrow> nat \<Rightarrow> nat \<Rightarrow> errno option) \<Rightarrow>
   (nat \<Rightarrow> bool) \<Rightarrow> nat list \<Rightarrow> kmip_client option res" where
  "kmip_client_new cfg mem calloc_c callocs clks starts toks jobs =
     (if \<not> calloc_c then Inl ENOMEM
      else if jobs \<noteq> [] \<and> \<not> callocs then Inl ENOMEM
      else (case add_jobs cfg mem 0 [] jobs of
              Inl e \<Rightarrow> Inl e
            | Inr qs \<Rightarrow> Inr (map_option (\<lambda>qs1. \<lparr>queues = qs1, pending = length jobs\<rparr>)
                              (start_queues cfg clks starts toks 0 qs))))"

definition kmip_client_pending :: "kmip_client \<Rightarrow> nat" where
  "kmip_client_pending c = pending c"

section \<open>Events\<close>

text \<open>The client as the event loop drives it: a reply for a queue with an active call, or the timer of a
  queue at or after the time it is set for.  The flag of a step is the one of the timer, that of
  \<open>client_reach\<close> tells that no timer could not be added so far.  The clock is far from the end of its
  64 bits.\<close>

definition clock_ok :: "kmip_client_cfg \<Rightarrow> (nat \<Rightarrow> nat) \<Rightarrow> bool" where
  "clock_ok cfg clk \<longleftrightarrow> (\<forall>n. clk n + retry_max_usec cfg < 2 ^ 64)"

inductive client_step :: "kmip_client_cfg \<Rightarrow> bool \<Rightarrow> kmip_client \<Rightarrow> kmip_client \<Rightarrow> bool" for cfg tok where
  reply: "j < length (queues c) \<Longrightarrow> active (queues c ! j) = Some i \<Longrightarrow> now + retry_max_usec cfg < 2 ^ 64 \<Longrightarrow>
    on_reply cfg now start tok nr_servers (queues c ! j) i (pending c) r = Some (q, pend) \<Longrightarrow>
    client_step cfg tok c (c\<lparr>queues := (queues c)[j := q], pending := pend\<rparr>)"
| timer: "j < length (queues c) \<Longrightarrow> armed (queues c ! j) = Some t \<Longrightarrow> t \<le> now \<Longrightarrow> now + retry_max_usec cfg < 2 ^ 64 \<Longrightarrow>
    on_timer cfg now start tok (queues c ! j) = Some q \<Longrightarrow>
    client_step cfg tok c (c\<lparr>queues := (queues c)[j := q]\<rparr>)"

inductive client_reach :: "kmip_client_cfg \<Rightarrow> nat list \<Rightarrow> bool \<Rightarrow> kmip_client \<Rightarrow> bool" for cfg jobs where
  init: "\<forall>j. clock_ok cfg (clks j) \<Longrightarrow>
    kmip_client_new cfg mem calloc_c callocs clks starts toks jobs = Inr (Some c) \<Longrightarrow>
    client_reach cfg jobs (\<forall>j < length (queues c). toks j) c"
| step: "client_reach cfg jobs ok c \<Longrightarrow> client_step cfg tok c c' \<Longrightarrow> client_reach cfg jobs (ok \<and> tok) c'"

section \<open>Invariant\<close>

definition cfg_ok :: "kmip_client_cfg \<Rightarrow> bool" where
  "cfg_ok cfg \<longleftrightarrow> 0 < retry_usec cfg \<and> retry_usec cfg \<le> retry_max_usec cfg \<and> 2 * retry_max_usec cfg < 2 ^ 64"

definition call_ok :: "kmip_client_cfg \<Rightarrow> kmip_call \<Rightarrow> bool" where
  "call_ok cfg c \<longleftrightarrow> retry_usec cfg \<le> delay c \<and> delay c \<le> retry_max_usec cfg"

text \<open>A queue that will go on by itself: a call is on its way, or every call is done, or the timer is set
  for the earliest time at which one may be tried again.\<close>

definition queue_live :: "kms_queue \<Rightarrow> bool" where
  "queue_live q \<longleftrightarrow>
     (case active q of
        Some i \<Rightarrow> i < length (calls q) \<and> \<not> cdone (calls q ! i) \<and> armed q = None
      | None \<Rightarrow>
          (case armed q of
             None \<Rightarrow> list_all cdone (calls q)
           | Some t \<Rightarrow> list_ex (\<lambda>c. \<not> cdone c \<and> next_try c = t) (calls q) \<and>
               list_all (\<lambda>c. cdone c \<or> t \<le> next_try c) (calls q)))"

text \<open>A queue whose timer could not be added: no call is on its way, and nothing will start one.\<close>

definition timer_lost :: "kms_queue \<Rightarrow> bool" where
  "timer_lost q \<longleftrightarrow> active q = None \<and> \<not> has_timer q \<and> armed q = None \<and> \<not> list_all cdone (calls q)"

definition queue_ok :: "kmip_client_cfg \<Rightarrow> bool \<Rightarrow> kms_queue \<Rightarrow> bool" where
  "queue_ok cfg ok q \<longleftrightarrow> list_all (call_ok cfg) (calls q) \<and> (queue_live q \<or> \<not> ok \<and> timer_lost q)"

definition undone :: "kms_queue \<Rightarrow> nat" where
  "undone q = length (filter (\<lambda>c. \<not> cdone c) (calls q))"

definition client_ok :: "kmip_client_cfg \<Rightarrow> bool \<Rightarrow> kmip_client \<Rightarrow> bool" where
  "client_ok cfg ok c \<longleftrightarrow> list_all (queue_ok cfg ok) (queues c) \<and> pending c = sum_list (map undone (queues c))"

definition due :: "nat \<Rightarrow> kmip_call \<Rightarrow> bool" where
  "due now c \<longleftrightarrow> \<not> cdone c \<and> next_try c \<le> now"

lemma scan_due: "scan now i next cs = (Some j, n) \<Longrightarrow> i \<le> j \<and> j < i + length cs \<and> due now (cs ! (j - i))"
  by (induction now i "next" cs rule: scan.induct) (auto simp: due_def nth_Cons' split: if_splits)

lemma scan_none:
  "scan now i next cs = (None, n) \<Longrightarrow>
     (\<forall>c \<in> set cs. \<not> due now c) \<and>
     (case n of
        None \<Rightarrow> next = None \<and> list_all cdone cs
      | Some t \<Rightarrow> (next = Some t \<or> list_ex (\<lambda>c. \<not> cdone c \<and> next_try c = t) cs) \<and>
          list_all (\<lambda>c. cdone c \<or> t \<le> next_try c) cs \<and> (\<forall>u. next = Some u \<longrightarrow> t \<le> u))"
proof (induction now i "next" cs rule: scan.induct)
  case (2 now i "next" c cs)
  show ?case
  proof (cases "cdone c")
    case True
    then show ?thesis using 2 by (auto simp: due_def split: option.splits)
  next
    case False
    then have d: "\<not> next_try c \<le> now" using "2.prems" by (auto split: if_splits)
    then show ?thesis using "2.IH"(2) [OF False d] "2.prems" False
      by (fastforce simp: due_def split: option.splits if_splits)
  qed
qed (auto split: option.splits)

lemma call_failed_simps [simp]:
  "active (call_failed cfg now q i) = active q" "armed (call_failed cfg now q i) = armed q"
  "qkms (call_failed cfg now q i) = qkms q" "length (calls (call_failed cfg now q i)) = length (calls q)"
  by (simp_all add: call_failed_def Let_def)

lemma call_failed_done: "i < length (calls q) \<Longrightarrow> map cdone (calls (call_failed cfg now q i)) = map cdone (calls q)"
  by (simp add: call_failed_def Let_def map_update list_update_same_conv)

lemma call_failed_ok:
  assumes "cfg_ok cfg" "i < length (calls q)" "list_all (call_ok cfg) (calls q)" "now + retry_max_usec cfg < 2 ^ 64"
  shows "list_all (call_ok cfg) (calls (call_failed cfg now q i))"
    "now + retry_usec cfg \<le> next_try (calls (call_failed cfg now q i) ! i)"
proof -
  have c: "call_ok cfg (calls q ! i)" using assms(2,3) by (simp add: list_all_length)
  then have "(now + delay (calls q ! i)) mod 2 ^ 64 = now + delay (calls q ! i)"
    "(delay (calls q ! i) * 2) mod 2 ^ 64 = delay (calls q ! i) * 2"
    using assms(1,4) by (auto simp: call_ok_def cfg_ok_def)
  then show "list_all (call_ok cfg) (calls (call_failed cfg now q i))"
    "now + retry_usec cfg \<le> next_try (calls (call_failed cfg now q i) ! i)"
    using c assms by (auto simp: call_failed_def Let_def call_ok_def cfg_ok_def list_all_length nth_list_update)
qed

lemma filter_less:
  assumes "i < length xs" "P (xs ! i)" "\<not> P y"
  shows "length (filter P (xs[i := y])) < length (filter P xs)"
  using assms by (induction xs arbitrary: i) (auto split: nat.splits simp: nth_Cons')

text \<open>What \<open>queue_next\<close> leaves when it returns, whatever the clock does: the queue goes on by itself, or its
  first timer could not be added.\<close>

lemma settled:
  assumes "scan now 0 None (calls q) = (None, n)" "list_all (call_ok cfg) (calls q)" "active q = None" "armed q = None"
  shows "queue_ok cfg tok (case n of None \<Rightarrow> q | Some t \<Rightarrow> arm_timer tok q t)"
    "calls (case n of None \<Rightarrow> q | Some t \<Rightarrow> arm_timer tok q t) = calls q"
  using scan_none [OF assms(1)] assms(2-)
  by (auto simp: queue_ok_def queue_live_def timer_lost_def arm_timer_def list_ex_iff list_all_iff split: option.splits)

lemma queue_next_keeps:
  assumes "queue_next cfg clk start tok k q = Some q'" "cfg_ok cfg" "clock_ok cfg clk"
    "list_all (call_ok cfg) (calls q)" "active q = None" "armed q = None"
  shows "queue_ok cfg tok q' \<and> map cdone (calls q') = map cdone (calls q)"
proof -
  let ?start = "\<lambda>q. armed q = None \<and> (\<forall>i. active q = Some i \<longrightarrow> i < length (calls q) \<and> \<not> cdone (calls q ! i))"
  let ?P = "\<lambda>cfg clk start tok k q q'. cfg_ok cfg \<longrightarrow> clock_ok cfg clk \<longrightarrow> list_all (call_ok cfg) (calls q) \<longrightarrow>
      ?start q \<longrightarrow> queue_ok cfg tok q' \<and> map cdone (calls q') = map cdone (calls q)"
  have "?P cfg clk start tok k q q'"
  proof (rule queue_next.raw_induct [where P = ?P, OF _ assms(1)], goal_cases)
    case (1 rec cfg clk start tok k q q')
    note step = 1(2) and rec = 1(1)
    show ?case
    proof (intro impI, cases "active q")
      case (Some i)
      moreover assume "list_all (call_ok cfg) (calls q)" "?start q"
      ultimately show "queue_ok cfg tok q' \<and> map cdone (calls q') = map cdone (calls q)"
        using step by (auto simp: queue_ok_def queue_live_def)
    next
      case None
      assume cfg: "cfg_ok cfg" "clock_ok cfg clk" and ok: "list_all (call_ok cfg) (calls q)" and "?start q"
      then have q: "active q = None" "armed q = None" using None by auto
      obtain d n where sc: "scan (clk (2 * k)) 0 None (calls q) = (d, n)" by fastforce
      show "queue_ok cfg tok q' \<and> map cdone (calls q') = map cdone (calls q)"
      proof (cases d)
        case None
        then have "q' = (case n of None \<Rightarrow> q | Some t \<Rightarrow> arm_timer tok q t)"
          using step sc q by (cases n) simp_all
        then show ?thesis using settled [OF sc [unfolded None] ok q] by simp
      next
        case (Some i)
        then have i: "i < length (calls q)" "\<not> cdone (calls q ! i)"
          using scan_due [OF sc [unfolded Some]] by (auto simp: due_def)
        show ?thesis
        proof (cases "start k i")
          case None
          then have "rec cfg clk start tok (k + 1) (q\<lparr>active := Some i\<rparr>) = Some q'"
            using step sc Some q by (simp add: start_call_def)
          from rec [OF this] show ?thesis using cfg ok i q by simp
        next
          case (Some e)
          then have "rec cfg clk start tok (k + 1) (call_failed cfg (clk (2 * k + 1)) q i) = Some q'"
            using step sc \<open>d = Some i\<close> q by (simp add: start_call_def)
          from rec [OF this] show ?thesis
            using cfg q call_failed_ok(1) [OF cfg(1) i(1) ok, of "clk (2 * k + 1)"] call_failed_done [OF i(1)]
            by (simp add: clock_ok_def)
        qed
      qed
    qed
  qed
  then show ?thesis using assms by simp
qed

text \<open>\<open>queue_next\<close> ends: while the clock advances by less than the first retry delay, each failed attempt
  takes one call off those that could be tried.\<close>

definition clock_window :: "kmip_client_cfg \<Rightarrow> (nat \<Rightarrow> nat) \<Rightarrow> bool" where
  "clock_window cfg clk \<longleftrightarrow> clock_ok cfg clk \<and> (\<forall>n. clk 0 \<le> clk n \<and> clk n < clk 0 + retry_usec cfg)"

lemma clock_window_const:
  "cfg_ok cfg \<Longrightarrow> now + retry_max_usec cfg < 2 ^ 64 \<Longrightarrow> clock_window cfg (\<lambda>_. now)"
  by (simp add: clock_window_def clock_ok_def cfg_ok_def)

lemma queue_next_returns:
  assumes "cfg_ok cfg" "clock_window cfg clk"
  shows "list_all (call_ok cfg) (calls q) \<Longrightarrow> \<exists>q'. queue_next cfg clk start tok k q = Some q'"
proof (induction "length (filter (\<lambda>c. \<not> cdone c \<and> next_try c < clk 0 + retry_usec cfg) (calls q))" arbitrary: q k
    rule: less_induct)
  case less
  let ?F = "\<lambda>c. \<not> cdone c \<and> next_try c < clk 0 + retry_usec cfg"
  obtain d n where sc: "scan (clk (2 * k)) 0 None (calls q) = (d, n)" by fastforce
  consider "active q \<noteq> None \<or> d = None" | i where "active q = None" "d = Some i" by auto
  then show ?case
  proof cases
    case 1
    then show ?thesis using sc by (subst queue_next.simps) (auto split: option.splits)
  next
    case (2 i)
    have i: "i < length (calls q)" "due (clk (2 * k)) (calls q ! i)" using scan_due [OF sc [unfolded 2(2)]] by auto
    have w: "clk (2 * k) < clk 0 + retry_usec cfg" "clk 0 \<le> clk (2 * k + 1)"
      "clk (2 * k + 1) + retry_max_usec cfg < 2 ^ 64"
      using assms(2) by (simp_all add: clock_window_def clock_ok_def)
    show ?thesis
    proof (cases "start k i")
      case None
      then have "queue_next cfg clk start tok k q = Some (q\<lparr>active := Some i\<rparr>)"
        using sc 2 by (subst queue_next.simps, simp add: start_call_def) (subst queue_next.simps, simp)
      then show ?thesis by blast
    next
      case (Some e)
      let ?q = "call_failed cfg (clk (2 * k + 1)) q i"
      note f = call_failed_ok [OF assms(1) i(1) less.prems w(3)]
      have "calls ?q = (calls q)[i := calls ?q ! i]" using i(1) by (simp add: call_failed_def Let_def)
      then have "length (filter ?F (calls ?q)) < length (filter ?F (calls q))"
        using filter_less [OF i(1), of ?F "calls ?q ! i"] i(2) f(2) w(1,2) by (simp add: due_def)
      from less.hyps [OF this f(1), of "k + 1"] show ?thesis
        using sc 2 Some by (subst queue_next.simps) (simp add: start_call_def)
    qed
  qed
qed

lemma undone_map: "map cdone (calls q') = map cdone (calls q) \<Longrightarrow> undone q' = undone q"
proof -
  have "length (filter (\<lambda>c. \<not> cdone c) cs) = length (filter Not (map cdone cs))" for cs
    by (induction cs) auto
  then show "map cdone (calls q') = map cdone (calls q) \<Longrightarrow> undone q' = undone q" unfolding undone_def by metis
qed

lemma undone_done:
  assumes "i < length (calls q)" "\<not> cdone (calls q ! i)"
  shows "undone (fst (call_done q i p)) = undone q - 1" "0 < undone q"
proof -
  have "length (filter (\<lambda>c. \<not> cdone c) (cs[i := (cs ! i)\<lparr>cdone := True\<rparr>])) = length (filter (\<lambda>c. \<not> cdone c) cs) - 1 \<and>
      0 < length (filter (\<lambda>c. \<not> cdone c) cs)" if "i < length cs" "\<not> cdone (cs ! i)" for cs
    using that by (induction cs arbitrary: i) (auto split: nat.splits simp: nth_Cons' neq0_conv)
  from this [OF assms] show "undone (fst (call_done q i p)) = undone q - 1" "0 < undone q"
    by (simp_all add: undone_def call_done_def)
qed

lemma sum_update:
  "j < length xs \<Longrightarrow> sum_list (map f (xs[j := y])) + f (xs ! j) = sum_list (map f xs) + (f y :: nat)"
  by (induction xs arbitrary: j) (auto split: nat.splits)

lemma queue_ok_mono: "queue_ok cfg ok q \<Longrightarrow> (ok' \<Longrightarrow> ok) \<Longrightarrow> queue_ok cfg ok' q"
  by (auto simp: queue_ok_def)

lemma queue_next_ok:
  assumes "cfg_ok cfg" "clock_window cfg clk" "list_all (call_ok cfg) (calls q)" "active q = None" "armed q = None"
  shows "\<exists>q'. queue_next cfg clk start tok k q = Some q' \<and> queue_ok cfg tok q' \<and> undone q' = undone q"
proof -
  obtain q' where q': "queue_next cfg clk start tok k q = Some q'"
    using queue_next_returns [OF assms(1-3)] by blast
  then show ?thesis
    using queue_next_keeps [OF q' assms(1) _ assms(3-5)] assms(2) undone_map [of q' q] by (auto simp: clock_window_def)
qed

text \<open>A queue between two calls: the last one was marked done or failed and is no longer active.\<close>

lemma idle_next:
  assumes "cfg_ok cfg" "now + retry_max_usec cfg < 2 ^ 64" "list_all (call_ok cfg) (calls q)" "armed q = None"
  shows "\<exists>q'. queue_next cfg (\<lambda>_. now) start tok k (end_call q) = Some q' \<and> queue_ok cfg tok q' \<and> undone q' = undone q"
  using queue_next_ok [OF assms(1) clock_window_const [OF assms(1,2)], of "end_call q" start tok k] assms(3,4)
  by (simp add: end_call_def undone_def)

lemma on_reply_ok:
  assumes "cfg_ok cfg" "now + retry_max_usec cfg < 2 ^ 64" "queue_ok cfg ok q" "active q = Some i" "undone q \<le> pend"
  shows "\<exists>q' pend'. on_reply cfg now start tok nr q i pend r = Some (q', pend') \<and> queue_ok cfg tok q' \<and>
    pend' + undone q = pend + undone q'"
proof -
  have q: "i < length (calls q)" "\<not> cdone (calls q ! i)" "armed q = None" "list_all (call_ok cfg) (calls q)"
    using assms(3,4) by (auto simp: queue_ok_def queue_live_def timer_lost_def)
  have failed: "\<exists>q'. queue_next cfg (\<lambda>_. now) start tok 0 (end_call (call_failed cfg now p i)) = Some q' \<and> queue_ok cfg tok q' \<and>
      undone q' = undone q" if "calls p = calls q" "armed p = None" for p
    using idle_next [OF assms(1,2), of "call_failed cfg now p i" start tok 0] call_failed_ok [OF assms(1) _ _ assms(2), of i p]
      undone_map [OF call_failed_done, of i p cfg now] undone_map [of p q] that q by auto
  have ok: "\<exists>q'. queue_next cfg (\<lambda>_. now) start tok 0 (end_call (fst (call_done p i pend))) = Some q' \<and> queue_ok cfg tok q' \<and>
      undone q' = undone q - 1" if "calls p = calls q" "armed p = None" for p
  proof -
    have "list_all (call_ok cfg) (calls (fst (call_done p i pend)))"
      using that q by (auto simp: call_done_def list_all_length nth_list_update call_ok_def)
    then show ?thesis
      using idle_next [OF assms(1,2), of "fst (call_done p i pend)" start tok 0] undone_done(1) [of i p pend] undone_map [of p q] that q
      by (auto simp: call_done_def)
  qed
  have u: "0 < undone q" using undone_done(2) [OF q(1,2)] .
  show ?thesis
  proof (cases r)
    case (ReplyKey server imported)
    define p where "p = (case server of Some s \<Rightarrow> if s < nr then q\<lparr>qserver := s\<rparr> else q | None \<Rightarrow> q)"
    have p: "calls p = calls q" "armed p = None" using q(3) by (auto simp: p_def split: option.splits)
    show ?thesis
    proof (cases imported)
      case None
      then show ?thesis using ok [OF p] ReplyKey u assms(5)
        by (auto simp: on_reply_def Let_def p_def [symmetric] call_done_def)
    qed (use failed [OF p] ReplyKey in \<open>auto simp: on_reply_def Let_def p_def [symmetric]\<close>)
  qed (use failed [OF refl q(3)] in \<open>auto simp: on_reply_def\<close>)
qed

lemma on_timer_ok:
  assumes "cfg_ok cfg" "now + retry_max_usec cfg < 2 ^ 64" "queue_ok cfg ok q" "armed q = Some t"
  shows "\<exists>q'. on_timer cfg now start tok q = Some q' \<and> queue_ok cfg tok q' \<and> undone q' = undone q"
proof -
  have "active q = None" "list_all (call_ok cfg) (calls q)"
    using assms(3,4) by (auto simp: queue_ok_def queue_live_def timer_lost_def split: option.splits)
  then show ?thesis
    using queue_next_ok [OF assms(1) clock_window_const [OF assms(1,2)], of "q\<lparr>armed := None\<rparr>" start tok 0]
    by (simp add: on_timer_def undone_def)
qed

definition fresh_queue :: "kmip_client_cfg \<Rightarrow> kms_queue \<Rightarrow> bool" where
  "fresh_queue cfg q \<longleftrightarrow> list_all (call_ok cfg) (calls q) \<and> active q = None \<and> armed q = None"

lemma add_to_queue_ok:
  assumes "add_to_queue mem qs kms c = Inr qs'" "list_all (fresh_queue cfg) qs" "call_ok cfg c" "\<not> cdone c"
  shows "list_all (fresh_queue cfg) qs' \<and> sum_list (map undone qs') = sum_list (map undone qs) + 1"
proof -
  have upd: "list_all (fresh_queue cfg) (ps[i := (ps ! i)\<lparr>calls := calls (ps ! i) @ [c]\<rparr>]) \<and>
      sum_list (map undone (ps[i := (ps ! i)\<lparr>calls := calls (ps ! i) @ [c]\<rparr>])) = sum_list (map undone ps) + 1"
    if "list_all (fresh_queue cfg) ps" "i < length ps" for ps i
  proof -
    have "fresh_queue cfg (ps ! i)" using that by (simp add: list_all_length)
    then have "fresh_queue cfg ((ps ! i)\<lparr>calls := calls (ps ! i) @ [c]\<rparr>)" using assms(3) by (simp add: fresh_queue_def)
    then have "list_all (fresh_queue cfg) (ps[i := (ps ! i)\<lparr>calls := calls (ps ! i) @ [c]\<rparr>])"
      using that(1) by (auto simp: list_all_iff dest!: set_update_subset_insert [THEN subsetD])
    then show ?thesis using that(2) assms(4) sum_update [of i ps undone "(ps ! i)\<lparr>calls := calls (ps ! i) @ [c]\<rparr>"]
      by (simp add: undone_def)
  qed
  show ?thesis
  proof (cases "find_queue qs kms")
    case None
    let ?q = "\<lparr>qkms = kms, qserver = 0, calls = [], active = None, has_timer = False, armed = None\<rparr>"
    have "list_all (fresh_queue cfg) (qs @ [?q])" using assms(2) by (simp add: fresh_queue_def)
    from upd [OF this, of "length qs"] show ?thesis using assms(1) None
      by (auto simp: add_to_queue_def undone_def split: if_splits)
  next
    case (Some i)
    then have "i < length qs" by (auto simp: find_queue_def Let_def split: if_splits)
    from upd [OF assms(2) this] show ?thesis using assms(1) Some by (auto simp: add_to_queue_def split: if_splits)
  qed
qed

lemma add_jobs_ok:
  assumes "cfg_ok cfg"
  shows "add_jobs cfg mem i qs jobs = Inr qs' \<Longrightarrow> list_all (fresh_queue cfg) qs \<Longrightarrow>
    list_all (fresh_queue cfg) qs' \<and> sum_list (map undone qs') = sum_list (map undone qs) + length jobs"
proof (induction jobs arbitrary: i qs)
  case (Cons kms jobs)
  let ?c = "\<lparr>next_try = 0, delay = retry_usec cfg, cdone = False\<rparr>"
  obtain qs1 where q: "add_to_queue (mem i) qs kms ?c = Inr qs1" using Cons.prems(1) by (auto split: sum.splits)
  have "call_ok cfg ?c" using assms by (simp add: call_ok_def cfg_ok_def)
  then show ?case using Cons.IH [of "i + 1" qs1] Cons.prems q add_to_queue_ok [OF q Cons.prems(2)] by simp
qed simp

lemma start_queues_keeps:
  assumes "cfg_ok cfg" "\<forall>j. clock_ok cfg (clks j)"
  shows "start_queues cfg clks starts toks j qs = Some qs' \<Longrightarrow> list_all (fresh_queue cfg) qs \<Longrightarrow>
    (\<forall>i < length qs'. queue_ok cfg (toks (j + i)) (qs' ! i)) \<and> sum_list (map undone qs') = sum_list (map undone qs)"
proof (induction qs arbitrary: j qs')
  case (Cons q qs)
  then obtain q1 qs1 where q: "queue_next cfg (clks j) (starts j) (toks j) 0 q = Some q1"
    "start_queues cfg clks starts toks (j + 1) qs = Some qs1" "qs' = q1 # qs1"
    by (auto split: option.splits)
  have "queue_ok cfg (toks j) q1 \<and> undone q1 = undone q"
    using queue_next_keeps [OF q(1) assms(1)] assms(2) Cons.prems(2) undone_map [of q1 q] by (auto simp: fresh_queue_def)
  then show ?case using Cons.IH [OF q(2)] Cons.prems(2) q(3) by (auto simp: nth_Cons split: nat.splits)
qed simp

lemma start_queues_returns:
  assumes "cfg_ok cfg" "\<forall>j. clock_window cfg (clks j)"
  shows "list_all (fresh_queue cfg) qs \<Longrightarrow> \<exists>qs'. start_queues cfg clks starts toks j qs = Some qs'"
proof (induction qs arbitrary: j)
  case (Cons q qs)
  obtain q' where "queue_next cfg (clks j) (starts j) (toks j) 0 q = Some q'"
    using queue_next_returns [OF assms(1), of "clks j" q "starts j" "toks j" 0] assms(2) Cons.prems
    by (auto simp: fresh_queue_def)
  then show ?case using Cons.IH [of "j + 1"] Cons.prems by auto
qed simp

lemma undone_le:
  assumes "client_ok cfg ok c" "j < length (queues c)"
  shows "undone (queues c ! j) \<le> pending c"
  using assms member_le_sum_list [of "undone (queues c ! j)" "map undone (queues c)"] by (auto simp: client_ok_def)

lemma client_ok_update:
  assumes "client_ok cfg ok c" "j < length (queues c)" "queue_ok cfg tok q"
    "pend + undone (queues c ! j) = pending c + undone q"
  shows "client_ok cfg (ok \<and> tok) (c\<lparr>queues := (queues c)[j := q], pending := pend\<rparr>)"
proof -
  have "list_all (queue_ok cfg (ok \<and> tok)) ((queues c)[j := q])"
    using assms(1-3) by (auto simp: client_ok_def list_all_length nth_list_update intro: queue_ok_mono)
  then show ?thesis using assms(1,4) sum_update [OF assms(2), of undone q] by (simp add: client_ok_def)
qed

lemma client_step_ok:
  assumes "client_step cfg tok c c'" "cfg_ok cfg" "client_ok cfg ok c"
  shows "client_ok cfg (ok \<and> tok) c'"
  using assms(1)
proof cases
  case (reply j i now start nr r q pend)
  have ok: "queue_ok cfg ok (queues c ! j)" using assms(3) reply(2) by (simp add: client_ok_def list_all_length)
  have "queue_ok cfg tok q \<and> pend + undone (queues c ! j) = pending c + undone q"
    using on_reply_ok [OF assms(2) reply(4) ok reply(3) undone_le [OF assms(3) reply(2)], of start tok nr r] reply(5) by auto
  then show ?thesis using client_ok_update [OF assms(3) reply(2)] reply(1) by blast
next
  case (timer j t now start q)
  have ok: "queue_ok cfg ok (queues c ! j)" using assms(3) timer(2) by (simp add: client_ok_def list_all_length)
  have "queue_ok cfg tok q \<and> undone q = undone (queues c ! j)"
    using on_timer_ok [OF assms(2) timer(5) ok timer(3), of start tok] timer(6) by auto
  then show ?thesis using client_ok_update [OF assms(3) timer(2), of tok q "pending c"] timer(1) by simp
qed

lemma reach_ok:
  assumes "client_reach cfg jobs ok c" "cfg_ok cfg"
  shows "client_ok cfg ok c"
  using assms(1)
proof (induction rule: client_reach.induct)
  case (init clks mem calloc_c callocs starts toks c)
  then obtain qs qs' where q: "add_jobs cfg mem 0 [] jobs = Inr qs" "start_queues cfg clks starts toks 0 qs = Some qs'"
    "c = \<lparr>queues = qs', pending = length jobs\<rparr>"
    by (auto simp: kmip_client_new_def split: sum.splits if_splits)
  show ?case using add_jobs_ok [OF assms(2) q(1)] start_queues_keeps [OF assms(2) init(1) q(2)] q(3)
    by (auto simp: client_ok_def list_all_length intro: queue_ok_mono)
next
  case (step ok c tok c')
  then show ?case using client_step_ok assms(2) by blast
qed

section \<open>Properties\<close>

text \<open>C6: No key is forgotten while timers can be created.  Whatever the helper replies and whenever, in every
  state the client can reach each queue has a call on its way, or all its keys are imported, or its
  timer is set for exactly the earliest time at which a failed call may be tried again; if the
  creation of a timer may have failed, the only other possibility for a queue is that it has
  no timer, no call on its way and keys left.  In all cases the retry delays stay between the
  configured first delay and the configured maximum, and the number of pending keys is the number of those
  not imported yet, so it is 0 just when every key is imported.  The retry delays of the configuration
  are positive and ordered, the clock is at least the longest of them away from the end of its 64 bits,
  and a timer that exists can be enabled again.\<close>

theorem kmip_client_invariant:
  assumes "cfg_ok cfg" "client_reach cfg jobs ok c"
  shows "client_ok cfg ok c \<and> (kmip_client_pending c = 0 \<longleftrightarrow> (\<forall>q \<in> set (queues c). list_all cdone (calls q))) \<and>
    (ok \<longrightarrow> list_all queue_live (queues c))"
proof -
  have "undone q = 0 \<longleftrightarrow> list_all cdone (calls q)" for q by (auto simp: undone_def list_all_iff filter_empty_conv)
  then show ?thesis using reach_ok [OF assms(2,1)]
    by (auto simp: client_ok_def kmip_client_pending_def sum_list_eq_0_iff list_all_iff queue_ok_def)
qed

definition sample_client :: kmip_client where
  "sample_client = \<lparr>queues =
     [\<lparr>qkms = 3, qserver = 0, calls = [\<lparr>next_try = 5000101, delay = 10000000, cdone = False\<rparr>, \<lparr>next_try = 0, delay = 5000000, cdone = False\<rparr>],
       active = Some 1, has_timer = False, armed = None\<rparr>], pending = 2\<rparr>"

definition sample_cfg :: kmip_client_cfg where
  "sample_cfg = \<lparr>retry_usec = 5000000, retry_max_usec = 300000000\<rparr>"

definition sample_clock :: "nat \<Rightarrow> nat" where
  "sample_clock n = (if n = 0 then 100 else if n < 9 then 101 else 120)"

lemma sample_ok: "cfg_ok sample_cfg" "client_reach sample_cfg [3, 3] True sample_client"
proof -
  have "queue_next sample_cfg sample_clock (\<lambda>k i. if k = 0 then Some EIO else None) True 0
      \<lparr>qkms = 3, qserver = 0, calls = [\<lparr>next_try = 0, delay = 5000000, cdone = False\<rparr>, \<lparr>next_try = 0, delay = 5000000, cdone = False\<rparr>],
       active = None, has_timer = False, armed = None\<rparr> = Some (queues sample_client ! 0)"
    by (simp add: queue_next.simps start_call_def call_failed_def sample_client_def sample_cfg_def sample_clock_def)
  then have n: "kmip_client_new sample_cfg (\<lambda>_. True) True True (\<lambda>_. sample_clock) (\<lambda>j k i. if k = 0 then Some EIO else None)
      (\<lambda>_. True) [3, 3] = Inr (Some sample_client)"
    by (simp add: kmip_client_new_def add_to_queue_def find_queue_def sample_client_def sample_cfg_def)
  then show "client_reach sample_cfg [3, 3] True sample_client"
    using client_reach.init [OF _ n] by (simp add: clock_ok_def sample_cfg_def sample_clock_def)
qed (simp add: cfg_ok_def sample_cfg_def)

theorem kmip_client_invariant_witness:
  "client_ok sample_cfg True sample_client \<and> kmip_client_pending sample_client = 2"
  using kmip_client_invariant [OF sample_ok] by (simp add: kmip_client_pending_def sample_client_def)

text \<open>The state with a lost timer is reachable: the helper cannot be reached when the client starts and the
  timer cannot be added, which is only logged.  Then nothing ever starts the calls of this queue
  again: no step changes it.\<close>

lemma kmip_timer_lost_reachable:
  "client_reach sample_cfg [3] False
     \<lparr>queues = [\<lparr>qkms = 3, qserver = 0, calls = [\<lparr>next_try = 5000101, delay = 10000000, cdone = False\<rparr>],
        active = None, has_timer = False, armed = None\<rparr>], pending = 1\<rparr>" (is "client_reach _ _ _ ?c")
proof -
  have "queue_next sample_cfg sample_clock (\<lambda>k i. Some EIO) False 0
      \<lparr>qkms = 3, qserver = 0, calls = [\<lparr>next_try = 0, delay = 5000000, cdone = False\<rparr>],
       active = None, has_timer = False, armed = None\<rparr> = Some (queues ?c ! 0)"
    by (simp add: queue_next.simps start_call_def call_failed_def sample_cfg_def sample_clock_def arm_timer_def)
  then have n: "kmip_client_new sample_cfg (\<lambda>_. True) True True (\<lambda>_. sample_clock) (\<lambda>j k i. Some EIO) (\<lambda>_. False) [3] =
      Inr (Some ?c)"
    by (simp add: kmip_client_new_def add_to_queue_def find_queue_def sample_cfg_def)
  moreover have "\<not> (\<forall>j < length (queues ?c). False)" by simp
  ultimately show ?thesis
    using client_reach.init [OF _ n] by (simp only: clock_ok_def) (simp add: sample_cfg_def sample_clock_def)
qed

lemma kmip_timer_lost_forever:
  assumes "client_step cfg tok c c'" "j < length (queues c)" "timer_lost (queues c ! j)"
  shows "queues c' ! j = queues c ! j"
  using assms by cases (auto simp: timer_lost_def nth_list_update)

text \<open>C21: Every callback returns.  The loop of \<open>queue_next\<close> tries each call that is due at most once, also
  when the helper cannot be reached at all and no timer can be added: starting the client, handling any
  reply of an active call and handling the timer always end.  For the start, before the event
  loop runs, the clock may advance between any two readings for a queue, by less than the first
  retry delay in total.\<close>

theorem kmip_client_returns:
  assumes "cfg_ok cfg" "client_reach cfg jobs ok c" "j < length (queues c)" "now + retry_max_usec cfg < 2 ^ 64"
    "\<forall>n. clock_window cfg (clks n)"
  shows "kmip_client_new cfg mem calloc_c callocs clks starts toks js \<noteq> Inr None \<and>
    (active (queues c ! j) = Some i \<longrightarrow> on_reply cfg now start tok nr (queues c ! j) i (pending c) r \<noteq> None) \<and>
    (armed (queues c ! j) = Some t \<longrightarrow> on_timer cfg now start tok (queues c ! j) \<noteq> None)"
proof -
  have ok: "client_ok cfg ok c" using reach_ok [OF assms(2,1)] .
  then have q: "queue_ok cfg ok (queues c ! j)" using assms(3) by (simp add: client_ok_def list_all_length)
  have le: "undone (queues c ! j) \<le> pending c"
    using undone_le [OF ok assms(3)] .
  have "start_queues cfg clks starts toks 0 qs \<noteq> None" if "add_jobs cfg mem 0 [] js = Inr qs" for qs
    using add_jobs_ok [OF assms(1) that] start_queues_returns [OF assms(1,5), of qs starts toks 0] by auto
  then have "kmip_client_new cfg mem calloc_c callocs clks starts toks js \<noteq> Inr None"
    by (auto simp: kmip_client_new_def split: sum.splits)
  then show ?thesis
    using on_reply_ok [OF assms(1,4) q _ le, of i start tok nr r] on_timer_ok [OF assms(1,4) q, of t start tok] by auto
qed

theorem kmip_client_returns_witness:
  "on_reply sample_cfg 200 (\<lambda>k i. None) True 1 (queues sample_client ! 0) 1 (pending sample_client) ReplyError \<noteq> None \<and>
   kmip_client_new sample_cfg (\<lambda>_. True) True True (\<lambda>_. sample_clock) (\<lambda>_ _ _. Some EIO) (\<lambda>_. False) [3, 4, 3] \<noteq> Inr None"
proof -
  have "\<forall>n. clock_window sample_cfg ((\<lambda>_. sample_clock) n)"
    by (simp add: clock_window_def clock_ok_def sample_cfg_def sample_clock_def)
  from kmip_client_returns [OF sample_ok _ _ this, of 0 200 "\<lambda>_. True" True True "\<lambda>_ _ _. Some EIO" "\<lambda>_. False"
      "[3, 4, 3]" 1 "\<lambda>k i. None" True 1 ReplyError]
  show ?thesis by (simp add: sample_client_def sample_cfg_def)
qed

end
