(* ===== verification/TlsKey.thy ===== *)
theory TlsKey
  imports Base64 Crc32 Numbers Hex
begin

text \<open>
  TLS pre-shared keys, the part of \<open>libnvme/src/nvme/crypto.c\<close> that does not call OpenSSL or the
  kernel keyring: the PSK interchange format (\<open>NVMeTLSkey-1:<hmac>:<base64 of key and CRC-32>:\<close>)
  written and read, raw secrets given in hexadecimal, and the TLS identity string with the size of
  its allocation.

  \<open>mem\<close> says whether \<open>malloc\<close> succeeds.  \<open>sscanf\<close> is modelled on \<open>strto_scan\<close> of theory
  \<open>Numbers\<close>: a number is scanned after white space and an optional sign, \<open>%02x\<close> from at most two
  characters, and matching failures after the second conversion do not change the count.  The
  HMAC of \<open>derive_psk_digest\<close> is an argument.
\<close>

section \<open>Export\<close>

definition LIBNVMF_HMAC_ALG_NONE :: int where "LIBNVMF_HMAC_ALG_NONE = 0"
definition LIBNVMF_HMAC_ALG_SHA2_256 :: int where "LIBNVMF_HMAC_ALG_SHA2_256 = 1"
definition LIBNVMF_HMAC_ALG_SHA2_384 :: int where "LIBNVMF_HMAC_ALG_SHA2_384 = 2"
definition LIBNVMF_HMAC_ALG_SHA2_512 :: int where "LIBNVMF_HMAC_ALG_SHA2_512 = 3"

lemmas hmac_algs = LIBNVMF_HMAC_ALG_NONE_def LIBNVMF_HMAC_ALG_SHA2_256_def LIBNVMF_HMAC_ALG_SHA2_384_def
  LIBNVMF_HMAC_ALG_SHA2_512_def

definition KEY_BUF_LEN :: nat where "KEY_BUF_LEN = 128"

definition default_hmac :: "nat \<Rightarrow> int" where
  "default_hmac key_len =
     (if key_len = 32 then LIBNVMF_HMAC_ALG_SHA2_256
      else if key_len = 48 then LIBNVMF_HMAC_ALG_SHA2_384
      else if key_len = 64 then LIBNVMF_HMAC_ALG_SHA2_512
      else LIBNVMF_HMAC_ALG_NONE)"

text \<open>\<open>printf\<close>: \<open>%x\<close> of a byte and \<open>%02x\<close> of a number below 256.\<close>

definition hexc :: "nat \<Rightarrow> char" where
  "hexc n = ''0123456789abcdef'' ! n"

definition fmt_02x :: "nat \<Rightarrow> string" where
  "fmt_02x n = [hexc (n div 16), hexc (n mod 16)]"

definition fmt_x :: "nat \<Rightarrow> string" where
  "fmt_x n = (if n < 16 then [hexc n] else fmt_02x n)"

definition crc_bytes :: "u32 \<Rightarrow> bytes" where
  "crc_bytes crc = [ucast (crc AND 0xff), ucast (drop_bit 8 crc AND 0xff), ucast (drop_bit 16 crc AND 0xff),
     ucast (drop_bit 24 crc AND 0xff)]"

definition libnvmf_export_tls_key_versioned :: "bool \<Rightarrow> u8 \<Rightarrow> int \<Rightarrow> bytes \<Rightarrow> string res" where
  "libnvmf_export_tls_key_versioned mem version hmac key_data =
     (let key_len = length key_data
      in if (if hmac = LIBNVMF_HMAC_ALG_NONE then key_len \<noteq> 32 \<and> key_len \<noteq> 48
             else if hmac = LIBNVMF_HMAC_ALG_SHA2_256 then key_len \<noteq> 32
             else if hmac = LIBNVMF_HMAC_ALG_SHA2_384 then key_len \<noteq> 48
             else True) then Inl EINVAL
         else (let crc = shr_crc32 (shr_crc32 0 []) key_data;
                   raw_secret = key_data @ crc_bytes crc
               in if \<not> mem then Inl ENOMEM
                  else Inr (''NVMeTLSkey-'' @ fmt_x (unat version) @ '':'' @ fmt_02x (nat hmac) @ '':'' @
                            shr_base64_encode raw_secret @ '':'')))"

text \<open>The size the function allocates for a key of \<open>key_len\<close> bytes.\<close>

definition encoded_alloc :: "nat \<Rightarrow> nat" where
  "encoded_alloc key_len = (key_len + 4) * 2 + 20"

definition libnvmf_export_tls_key :: "bool \<Rightarrow> bytes \<Rightarrow> string res" where
  "libnvmf_export_tls_key mem key_data =
     libnvmf_export_tls_key_versioned mem 1
       (if length key_data = 32 then LIBNVMF_HMAC_ALG_SHA2_256 else LIBNVMF_HMAC_ALG_SHA2_384) key_data"

section \<open>Import\<close>

definition signed_scan :: "nat \<Rightarrow> string \<Rightarrow> (int \<times> string) option" where
  "signed_scan base s = map_option (\<lambda>(neg, v, r). (if neg then - int v else int v, r)) (strto_scan base s)"

text \<open>\<open>sscanf(encoded_key, "NVMeTLSkey-%d:%02x:*s", &_version, &_hmac)\<close>, None unless it returns 2.  What \<open>%d\<close> yields
  for a number that does not fit an \<open>int\<close> is undefined in C; here it is that number, which is no known version.\<close>

definition scan_tls_key :: "string \<Rightarrow> (int \<times> int) option" where
  "scan_tls_key s =
     (case shr_startswith s ''NVMeTLSkey-'' of
        None \<Rightarrow> None
      | Some r \<Rightarrow> (case signed_scan 10 r of
            None \<Rightarrow> None
          | Some (version, r1) \<Rightarrow>
              if cget r1 0 \<noteq> CHR '':'' then None
              else map_option (\<lambda>(hmac, _). (version, hmac)) (signed_scan 16 (take 2 (dropWhile isspace (tl r1))))))"

definition libnvmf_import_tls_key_versioned :: "bool \<Rightarrow> string \<Rightarrow> (int \<times> int \<times> bytes) res" where
  "libnvmf_import_tls_key_versioned mem encoded_key =
     (case scan_tls_key encoded_key of
        None \<Rightarrow> Inl EINVAL
      | Some (version, hmac) \<Rightarrow>
          if version \<noteq> 1 then Inl EINVAL
          else (let len = length encoded_key
                in if (if hmac = LIBNVMF_HMAC_ALG_NONE then len \<noteq> 65 \<and> len \<noteq> 89
                       else if hmac = LIBNVMF_HMAC_ALG_SHA2_256 then len \<noteq> 65
                       else if hmac = LIBNVMF_HMAC_ALG_SHA2_384 then len \<noteq> 89
                       else True) then Inl EINVAL
                   else (case shr_base64_decode (drop 16 encoded_key) (int len - 17) of
                           Inl _ \<Rightarrow> Inl ENOKEY
                         | Inr decoded_key \<Rightarrow>
                             (let decoded_len = int (length decoded_key) - 4
                              in if decoded_len \<noteq> 32 \<and> decoded_len \<noteq> 48 then Inl ENOKEY
                                 else (let n = nat decoded_len;
                                           crc = shr_crc32 (shr_crc32 0 []) (take n decoded_key);
                                           key_crc = ucast (decoded_key ! n) OR
                                             push_bit 8 (ucast (decoded_key ! (n + 1))) OR
                                             push_bit 16 (ucast (decoded_key ! (n + 2))) OR
                                             push_bit 24 (ucast (decoded_key ! (n + 3)))
                                       in if key_crc \<noteq> crc then Inl ENOKEY
                                          else if \<not> mem then Inl ENOMEM
                                          else Inr (version, hmac, take n decoded_key))))))"

definition libnvmf_import_tls_key :: "bool \<Rightarrow> string \<Rightarrow> (int \<times> bytes) res" where
  "libnvmf_import_tls_key mem encoded_key =
     map_sum id (\<lambda>(version, hmac, psk). (hmac, psk)) (libnvmf_import_tls_key_versioned mem encoded_key)"

section \<open>Raw secrets\<close>

text \<open>The loop over the hexadecimal digits: \<open>i\<close> is the position, \<open>buf\<close> the bytes stored so far.\<close>

function raw_secret_loop :: "string \<Rightarrow> nat \<Rightarrow> nat \<Rightarrow> bytes \<Rightarrow> bytes res" where
  "raw_secret_loop secret key_len i buf =
     (if i < length secret then
        (let hi = shr_hex_to_int (cget secret i); lo = shr_hex_to_int (cget secret (i + 1))
         in if hi < 0 \<or> lo < 0 then Inl EINVAL
            else if i \<ge> key_len * 2 then Inr buf
            else raw_secret_loop secret key_len (i + 2) (buf @ [of_int (hi * 16 + lo)]))
      else Inr buf)"
  by pat_completeness auto
termination by (relation "measure (\<lambda>(secret, key_len, i, buf). length secret - i)") auto

declare raw_secret_loop.simps [simp del]

text \<open>\<open>rnd\<close> is what \<open>getrandom_bytes\<close> leaves in the buffer, \<open>pin\<close> stands for \<open>getswordfish\<close>.\<close>

definition libnvmf_create_raw_secret ::
  "bytes res \<Rightarrow> (string \<Rightarrow> nat \<Rightarrow> bytes res) \<Rightarrow> bool \<Rightarrow> string option \<Rightarrow> nat \<Rightarrow> bytes res" where
  "libnvmf_create_raw_secret rnd pin mem secret key_len =
     (if key_len \<noteq> 32 \<and> key_len \<noteq> 48 \<and> key_len \<noteq> 64 then Inl EINVAL
      else (case (case secret of
                    None \<Rightarrow> rnd
                  | Some s \<Rightarrow>
                      if length s < 4 then Inl EINVAL
                      else if take 4 s = ''pin:'' then pin (drop 4 s) key_len
                      else (case raw_secret_loop s key_len 0 [] of
                              Inl e \<Rightarrow> Inl e
                            | Inr buf \<Rightarrow> if length buf \<noteq> key_len then Inl EINVAL else Inr buf)) of
              Inl e \<Rightarrow> Inl e
            | Inr buf \<Rightarrow> if mem then Inr (take key_len buf) else Inl ENOMEM))"

section \<open>TLS identities\<close>

text \<open>\<open>%01d\<close> and \<open>%02d\<close>.\<close>

definition fmt_d :: "int \<Rightarrow> string" where
  "fmt_d n = (if n < 0 then ''-'' @ dec_str (nat (- n)) else dec_str (nat n))"

definition fmt_02d :: "int \<Rightarrow> string" where
  "fmt_02d n = (if 0 \<le> n \<and> n < 10 then ''0'' @ fmt_d n else fmt_d n)"

definition gen_tls_identity :: "string \<Rightarrow> string \<Rightarrow> int \<Rightarrow> int \<Rightarrow> string option \<Rightarrow> string res" where
  "gen_tls_identity hostnqn subsysnqn version cipher digest =
     (if version = 0 then
        Inr (''NVMe'' @ fmt_d version @ ''R'' @ fmt_02d cipher @ '' '' @ hostnqn @ '' '' @ subsysnqn)
      else if version > 1 then Inl EINVAL
      else (case digest of
              None \<Rightarrow> Inl EINVAL
            | Some d \<Rightarrow>
                Inr (''NVMe'' @ fmt_d version @ ''R'' @ fmt_02d cipher @ '' '' @ hostnqn @ '' '' @ subsysnqn @
                     '' '' @ d)))"

definition nvme_identity_len :: "int \<Rightarrow> int \<Rightarrow> string option \<Rightarrow> string option \<Rightarrow> nat res" where
  "nvme_identity_len hmac version hostnqn subsysnqn =
     (case (hostnqn, subsysnqn) of
        (Some h, Some s) \<Rightarrow>
          (let len = length h + length s + 12
           in if version = 1
              then Inr (if hmac = LIBNVMF_HMAC_ALG_SHA2_384 then len + 66 + 32 else len + 66)
              else if version > 1 then Inl EINVAL
              else Inr len)
      | _ \<Rightarrow> Inl EINVAL)"

text \<open>\<open>mac cipher key msg\<close> is the HMAC OpenSSL computes, None if one of its calls fails.  \<open>key_len\<close> is
  the size of the buffer for it, \<open>digest_len\<close> the size of the buffer for its base64.\<close>

definition derive_psk_digest ::
  "(int \<Rightarrow> bytes \<Rightarrow> string \<Rightarrow> bytes option) \<Rightarrow> string \<Rightarrow> string \<Rightarrow> int \<Rightarrow> bytes \<Rightarrow> nat \<Rightarrow> nat \<Rightarrow> string res" where
  "derive_psk_digest mac hostnqn subsysnqn cipher retained key_len digest_len =
     (if cipher \<noteq> LIBNVMF_HMAC_ALG_SHA2_256 \<and> cipher \<noteq> LIBNVMF_HMAC_ALG_SHA2_384 then Inl EINVAL
      else (case mac cipher retained (hostnqn @ '' '' @ subsysnqn @ '' '' @ ''NVMe-over-Fabrics'') of
              None \<Rightarrow> Inl ENOKEY
            | Some psk_ctx \<Rightarrow>
                if length psk_ctx > key_len then Inl EMSGSIZE
                else if length psk_ctx * 2 > digest_len then Inl EINVAL
                else Inr (shr_base64_encode psk_ctx)))"

text \<open>\<open>derive_nvme_keys\<close> up to the identity it writes; \<open>retained\<close> is what \<open>derive_retained_key\<close> (or
  its compatible variant) returns.  The cipher is an \<open>unsigned char\<close>.\<close>

definition derive_identity ::
  "(int \<Rightarrow> bytes \<Rightarrow> string \<Rightarrow> bytes option) \<Rightarrow> bytes res \<Rightarrow> string \<Rightarrow> string \<Rightarrow> int \<Rightarrow> int \<Rightarrow> nat \<Rightarrow> string res" where
  "derive_identity mac retained hostnqn subsysnqn version hmac key_len =
     (if key_len = 0 \<or> key_len > KEY_BUF_LEN then Inl EINVAL
      else (case retained of
              Inl e \<Rightarrow> Inl e
            | Inr rk \<Rightarrow>
                (let cipher = (if hmac = LIBNVMF_HMAC_ALG_NONE then default_hmac key_len else hmac mod 256)
                 in if version = 1 then
                      (case derive_psk_digest mac hostnqn subsysnqn cipher rk key_len (2 * key_len) of
                         Inl e \<Rightarrow> Inl e
                       | Inr digest \<Rightarrow> gen_tls_identity hostnqn subsysnqn version cipher (Some digest))
                    else gen_tls_identity hostnqn subsysnqn version cipher None)))"

section \<open>Lemmas\<close>

lemma length_base64: "length (shr_base64_encode bs) = 4 * ((length bs + 2) div 3)"
proof -
  have "(5 + n) div 3 = Suc ((n + 2) div 3)" for n :: nat by presburger
  then show ?thesis
    unfolding base64_encode_rfc by (induction bs rule: rfc4648.induct) (auto simp: Let_def)
qed

definition le32 :: "bytes \<Rightarrow> u32" where
  "le32 p = ucast (p ! 0) OR push_bit 8 (ucast (p ! 1)) OR push_bit 16 (ucast (p ! 2)) OR push_bit 24 (ucast (p ! 3))"

lemma le32_crc_bytes [simp]: "le32 (crc_bytes c) = c"
proof (rule bit_word_eqI)
  have ff: "(0xff :: u32) = mask 8" by (simp add: mask_eq_exp_minus_1)
  fix n assume "n < LENGTH(32)"
  then consider "n < 8" | "8 \<le> n" "n < 16" | "16 \<le> n" "n < 24" | "24 \<le> n" "n < 32" by force
  then show "bit (le32 (crc_bytes c)) n = bit c n"
    unfolding le32_def crc_bytes_def ff by cases (auto simp: bit_simps)
qed

lemma crc_bytes_le32:
  fixes a b c d :: u8
  shows "crc_bytes (le32 [a, b, c, d]) = [a, b, c, d]"
proof -
  have ff: "(0xff :: u32) = mask 8" by (simp add: mask_eq_exp_minus_1)
  have hi: "\<not> bit x (8 + n)" "\<not> bit x (n + 8)" "8 \<le> n \<Longrightarrow> \<not> bit x n" for x :: u8 and n
    using bit_imp_le_length [of x "8 + n"] bit_imp_le_length [of x n] by (auto simp: add.commute)
  show ?thesis unfolding le32_def crc_bytes_def ff
    by (simp, intro conjI; rule bit_word_eqI) (auto simp: bit_simps hi)
qed

text \<open>The lengths the format knows: 32 bytes with no hash or SHA-256, 48 with no hash or SHA-384.\<close>

definition tls_key_ok :: "int \<Rightarrow> nat \<Rightarrow> bool" where
  "tls_key_ok hmac n \<longleftrightarrow>
     hmac = LIBNVMF_HMAC_ALG_NONE \<and> n \<in> {32, 48} \<or> hmac = LIBNVMF_HMAC_ALG_SHA2_256 \<and> n = 32 \<or>
     hmac = LIBNVMF_HMAC_ALG_SHA2_384 \<and> n = 48"

definition tls_frame :: "int \<Rightarrow> string" where
  "tls_frame hmac = ''NVMeTLSkey-1:'' @ fmt_02x (nat hmac) @ '':''"

lemma length_frame [simp]: "length (tls_frame h) = 16"
  by (simp add: tls_frame_def fmt_02x_def)

lemma tls_key_ok_hmac: "tls_key_ok h n \<Longrightarrow> h = 0 \<or> h = 1 \<or> h = 2"
  by (auto simp: tls_key_ok_def hmac_algs)

lemma digit_facts:
  "is_digit_of 10 (CHR ''1'')" "\<not> is_digit_of 10 (CHR '':'')" "\<not> isspace (CHR ''1'')" "\<not> isspace (CHR ''0'')"
  "is_digit_of 16 (CHR ''0'')" "is_digit_of 16 (CHR ''1'')" "is_digit_of 16 (CHR ''2'')"
  "digits_val 10 ''1'' = 1" "digits_val 16 ''00'' = 0" "digits_val 16 ''01'' = 1" "digits_val 16 ''02'' = 2"
  by code_simp+

lemma scan_version: "signed_scan 10 (''1:'' @ r) = Some (1, '':'' @ r)"
  by (simp add: signed_scan_def strto_scan_def strto_mag_def cget_def digit_facts)

lemma scan_hmac: "c = CHR ''0'' \<or> c = CHR ''1'' \<or> c = CHR ''2'' \<Longrightarrow>
  signed_scan 16 [CHR ''0'', c] = Some (int (digits_val 16 [CHR ''0'', c]), [])"
  by (auto simp: signed_scan_def strto_scan_def strto_mag_def cget_def digit_facts Let_def)

lemma scan_frame:
  assumes "tls_key_ok h n"
  shows "scan_tls_key (tls_frame h @ r) = Some (1, h)"
proof -
  have "scan_tls_key (''NVMeTLSkey-'' @ ''1:'' @ [CHR ''0'', c] @ r) = Some (1, int (digits_val 16 [CHR ''0'', c]))"
    if "c = CHR ''0'' \<or> c = CHR ''1'' \<or> c = CHR ''2''" for c r
    unfolding scan_tls_key_def shr_startswith_def
    using scan_version [of "[CHR ''0'', c] @ r"] scan_hmac [OF that]
    by (simp add: cget_def digit_facts)
  from this [of "hexc (nat h)" "'':'' @ r"] show ?thesis using tls_key_ok_hmac [OF assms]
    by (auto simp: tls_frame_def fmt_02x_def hexc_def digit_facts)
qed

lemma export_eq:
  "libnvmf_export_tls_key_versioned True 1 h k =
     (if tls_key_ok h (length k) then Inr (tls_frame h @ shr_base64_encode (k @ crc_bytes (shr_crc32 0 k)) @ '':'')
      else Inl EINVAL)"
  by (auto simp: libnvmf_export_tls_key_versioned_def Let_def tls_key_ok_def hmac_algs fmt_x_def hexc_def
      tls_frame_def shr_crc32_def)

lemma decode_take: "n \<le> length s \<Longrightarrow> shr_base64_decode s (int n) = shr_base64_decode (take n s) (int (length (take n s)))"
  by (simp add: shr_base64_decode_def)

lemma length_crc_bytes [simp]: "length (crc_bytes c) = 4"
  by (simp add: crc_bytes_def)

lemma crc_zero [simp]: "shr_crc32 0 [] = 0"
  by (simp add: shr_crc32_def)

lemma le32_drop:
  assumes "length bs = n + 4"
  shows "ucast (bs ! n) OR push_bit 8 (ucast (bs ! (n + 1))) OR push_bit 16 (ucast (bs ! (n + 2))) OR
      push_bit 24 (ucast (bs ! (n + 3))) = le32 (drop n bs)"
    and "le32 (drop n bs) = c \<longleftrightarrow> drop n bs = crc_bytes c"
proof -
  have "length (drop n bs) = Suc (Suc (Suc (Suc 0)))" using assms by simp
  then obtain a b d e where "drop n bs = [a, b, d, e]" unfolding length_Suc_conv by blast
  then show "le32 (drop n bs) = c \<longleftrightarrow> drop n bs = crc_bytes c" by (metis crc_bytes_le32 le32_crc_bytes)
qed (simp_all add: le32_def assms)

text \<open>What \<open>import\<close> does once the frame is scanned: \<open>p\<close> is the base64 text between frame and last
  character.\<close>

lemma import_scanned:
  assumes "scan_tls_key s = Some (1, h)"
    "length s = 65 \<and> (h = 0 \<or> h = 1) \<or> length s = 89 \<and> (h = 0 \<or> h = 2)"
    "p = take (length s - 17) (drop 16 s)"
  shows "libnvmf_import_tls_key_versioned True s =
    (case shr_base64_decode p (int (length p)) of
       Inl _ \<Rightarrow> Inl ENOKEY
     | Inr bs \<Rightarrow> if length bs \<noteq> 36 \<and> length bs \<noteq> 52 then Inl ENOKEY
         else (let n = length bs - 4
               in if drop n bs \<noteq> crc_bytes (shr_crc32 0 (take n bs)) then Inl ENOKEY else Inr (1, h, take n bs)))"
proof -
  have d: "shr_base64_decode (drop 16 s) (int (length s) - 17) = shr_base64_decode p (int (length p))"
    using decode_take [of "length s - 17" "drop 16 s"] assms(2,3) by (auto simp: of_nat_diff)
  show ?thesis
  proof (cases "shr_base64_decode p (int (length p))")
    case (Inr bs)
    have len: "int (length bs) - 4 = int m \<longleftrightarrow> length bs = m + 4" for m by auto
    show ?thesis
    proof (cases "length bs = 36 \<or> length bs = 52")
      case True
      then have n: "length bs = length bs - 4 + 4" "nat (int (length bs) - 4) = length bs - 4" by auto
      show ?thesis using assms True Inr d le32_drop [OF n(1)]
        by (auto simp: libnvmf_import_tls_key_versioned_def hmac_algs Let_def n(2))
    next
      case False
      then show ?thesis using assms Inr d
        by (auto simp: libnvmf_import_tls_key_versioned_def hmac_algs Let_def)
    qed
  qed (use assms d in \<open>auto simp: libnvmf_import_tls_key_versioned_def hmac_algs Let_def\<close>)
qed

lemma framed:
  assumes "tls_key_ok h (length k)" "length c = 4"
    "s = tls_frame h @ shr_base64_encode (k @ c) @ [z]"
  shows "length s = (if length k = 32 then 65 else 89)"
    "length s = 65 \<and> (h = 0 \<or> h = 1) \<or> length s = 89 \<and> (h = 0 \<or> h = 2)"
    "take (length s - 17) (drop 16 s) = shr_base64_encode (k @ c)"
  using assms by (auto simp: length_base64 tls_key_ok_def hmac_algs)

lemma import_framed:
  assumes "tls_key_ok h (length k)" "length c = 4"
  shows "libnvmf_import_tls_key_versioned True (tls_frame h @ shr_base64_encode (k @ c) @ [z]) =
    (if c = crc_bytes (shr_crc32 0 k) then Inr (1, h, k) else Inl ENOKEY)"
proof -
  have "length k = 32 \<or> length k = 48" using assms(1) by (auto simp: tls_key_ok_def)
  then show ?thesis
    using import_scanned [OF scan_frame [OF assms(1)] framed(2) [OF assms refl, of z] refl] assms(2)
    by (auto simp: framed(3) [OF assms refl, of z] base64.dec_enc Let_def)
qed

lemma import_sound:
  assumes "libnvmf_import_tls_key_versioned True s = Inr (v, h, k)"
  shows "v = 1 \<and> tls_key_ok h (length k) \<and> length s = (if length k = 32 then 65 else 89) \<and>
    s = take 16 s @ shr_base64_encode (k @ crc_bytes (shr_crc32 0 k)) @ [last s]"
proof -
  have sc: "scan_tls_key s = Some (1, h)" "v = 1"
    and l: "length s = 65 \<and> (h = 0 \<or> h = 1) \<or> length s = 89 \<and> (h = 0 \<or> h = 2)"
    using assms by (auto simp: libnvmf_import_tls_key_versioned_def Let_def hmac_algs
        split: option.splits if_splits sum.splits)
  define p where "p = take (length s - 17) (drop 16 s)"
  obtain bs where bs: "shr_base64_decode p (int (length p)) = Inr bs" "length bs = 36 \<or> length bs = 52"
    "drop (length bs - 4) bs = crc_bytes (shr_crc32 0 (take (length bs - 4) bs))" "k = take (length bs - 4) bs"
    using assms unfolding import_scanned [OF sc(1) l p_def]
    by (auto simp: Let_def split: sum.splits if_splits)
  have p: "p = shr_base64_encode bs" using bs(1) base64.accepts_iff by blast
  have k: "bs = k @ crc_bytes (shr_crc32 0 k)" using bs(3,4) by (metis append_take_drop_id)
  have lp: "length p = length s - 17" using l by (auto simp: p_def)
  then have "length s - 17 = 4 * ((length bs + 2) div 3)" using p length_base64 by simp
  then have "length bs = 36 \<and> length s = 65 \<or> length bs = 52 \<and> length s = 89" using bs(2) l by auto
  moreover have "length bs = length k + 4" by (subst k) simp
  ultimately have "v = 1 \<and> tls_key_ok h (length k) \<and> length s = (if length k = 32 then 65 else 89)"
    using sc(2) l by (auto simp: tls_key_ok_def hmac_algs)
  moreover have eq: "s = take 16 s @ p @ [last s]"
  proof -
    have s1: "s = take (length s - 1) s @ [last s]" using l
      by (metis append_butlast_last_id butlast_conv_take list.size(3) zero_neq_numeral)
    have "take 16 (take (length s - 1) s) = take 16 s" "drop 16 (take (length s - 1) s) = p"
      using l by (auto simp: p_def take_drop)
    then have "take (length s - 1) s = take 16 s @ p" by (metis append_take_drop_id)
    then show ?thesis using s1 by simp
  qed
  have "s = take 16 s @ shr_base64_encode (k @ crc_bytes (shr_crc32 0 k)) @ [last s]"
    using eq unfolding p by (simp only: k [symmetric])
  ultimately show ?thesis by blast
qed

lemma length_02d: "0 \<le> c \<Longrightarrow> c < 256 \<Longrightarrow> length (fmt_02d c) \<le> 3"
  by (auto simp: fmt_02d_def fmt_d_def dec_str.simps [of "nat c"] dec_str.simps [of "nat c div 10"]
      dec_str.simps [of "nat c div 10 div 10"])

section \<open>Properties\<close>

text \<open>C19: A key written in the PSK interchange format is read back as the same key with the same hash,
  and the text fits the allocation of the writer.  A key of another length than the hash calls for is
  refused.  What is accepted carries a key of a proper length whose CRC-32 is right: the text between
  the frame and the last character is the base64 of the key and its checksum, and no other text.\<close>

theorem tls_key_roundtrip:
  "(tls_key_ok h (length k) \<longrightarrow>
      (\<exists>s. libnvmf_export_tls_key_versioned True 1 h k = Inr s \<and> length s < encoded_alloc (length k) \<and>
         libnvmf_import_tls_key_versioned True s = Inr (1, h, k))) \<and>
   (\<not> tls_key_ok h (length k) \<longrightarrow> libnvmf_export_tls_key_versioned True 1 h k = Inl EINVAL) \<and>
   (libnvmf_import_tls_key_versioned True t = Inr (v, h, k) \<longrightarrow> v = 1 \<and> tls_key_ok h (length k) \<and>
      t = take 16 t @ shr_base64_encode (k @ crc_bytes (shr_crc32 0 k)) @ [last t])"
proof -
  have "\<exists>s. libnvmf_export_tls_key_versioned True 1 h k = Inr s \<and> length s < encoded_alloc (length k) \<and>
      libnvmf_import_tls_key_versioned True s = Inr (1, h, k)" if ok: "tls_key_ok h (length k)"
    using ok import_framed [OF ok, of "crc_bytes (shr_crc32 0 k)"] framed(1) [OF ok length_crc_bytes refl]
    by (auto simp: export_eq encoded_alloc_def tls_key_ok_def)
  then show ?thesis using import_sound [of t v h k] by (auto simp: export_eq)
qed

theorem tls_key_roundtrip_witness:
  "\<exists>s. libnvmf_export_tls_key_versioned True 1 1 (replicate 32 7) = Inr s \<and> length s < encoded_alloc 32 \<and>
     libnvmf_import_tls_key_versioned True s = Inr (1, 1, replicate 32 7)"
  using tls_key_roundtrip [of 1 "replicate 32 7"] by (simp add: tls_key_ok_def hmac_algs)

text \<open>C35: A key string in which any one byte of the key was changed is refused: whatever the key, the hash,
  the position and the new byte, the stored checksum no longer fits and the import fails.\<close>

theorem tls_key_corruption_detected:
  assumes "tls_key_ok h (length (a @ x # b))" "x \<noteq> y"
  shows "libnvmf_import_tls_key_versioned True
     (tls_frame h @ shr_base64_encode ((a @ y # b) @ crc_bytes (shr_crc32 0 (a @ x # b))) @ '':'') = Inl ENOKEY"
proof -
  have "shr_crc32 0 (a @ x # b) \<noteq> shr_crc32 0 (a @ y # b)" using assms(2) by (simp add: shr_crc32_byte_inj)
  then have "crc_bytes (shr_crc32 0 (a @ x # b)) \<noteq> crc_bytes (shr_crc32 0 (a @ y # b))"
    by (metis le32_crc_bytes)
  then show ?thesis using import_framed [of h "a @ y # b" "crc_bytes (shr_crc32 0 (a @ x # b))"] assms(1) by simp
qed

theorem tls_key_corruption_detected_witness:
  "libnvmf_import_tls_key_versioned True
     (tls_frame 0 @ shr_base64_encode (([] @ 9 # replicate 31 7) @ crc_bytes (shr_crc32 0 ([] @ 7 # replicate 31 7))) @ '':'') =
     Inl ENOKEY"
  by (rule tls_key_corruption_detected) (simp_all add: tls_key_ok_def hmac_algs)

text \<open>The frame is checked less strictly than it is written: with the version and the hash spelled as
  \<open>+1\<close> and \<open>1\<close>, and with any last character, the same key is accepted.\<close>

lemma tls_import_lax_frame:
  assumes "length k = 32"
  shows "libnvmf_import_tls_key_versioned True
     (''NVMeTLSkey-+1:1:'' @ shr_base64_encode (k @ crc_bytes (shr_crc32 0 k)) @ [z]) = Inr (1, 1, k)"
    (is "libnvmf_import_tls_key_versioned True ?s = _")
proof -
  have f: "digits_val 16 ''1'' = 1" "\<not> is_digit_of 16 (CHR '':'')" "\<not> isspace (CHR ''+'')" by code_simp+
  have "signed_scan 10 (''+1:1:'' @ r) = Some (1, '':1:'' @ r)" "signed_scan 16 ''1:'' = Some (1, '':'')" for r
    by (simp_all add: signed_scan_def strto_scan_def strto_mag_def cget_def digit_facts f)
  then have sc: "scan_tls_key (''NVMeTLSkey-'' @ ''+1:1:'' @ r) = Some (1, 1)" for r
    by (simp add: scan_tls_key_def shr_startswith_def cget_def digit_facts)
  have l: "length ?s = 65" using assms by (simp add: length_base64)
  then have "take (length ?s - 17) (drop 16 ?s) = shr_base64_encode (k @ crc_bytes (shr_crc32 0 k))"
    using assms by (simp add: length_base64)
  moreover have "shr_base64_decode (shr_base64_encode (k @ crc_bytes (shr_crc32 0 k))) 48 = Inr (k @ crc_bytes (shr_crc32 0 k))"
    using base64.dec_enc [of "k @ crc_bytes (shr_crc32 0 k)"] l by simp
  ultimately show ?thesis using import_scanned [of ?s 1] sc [of "shr_base64_encode (k @ crc_bytes (shr_crc32 0 k)) @ [z]"] l assms
    by (simp add: Let_def)
qed

text \<open>The TLS identity fits the buffer that is allocated for it: whatever the host and subsystem
  names, the version, the hash and the key length, and whatever the key derivation returns, if the
  size is computed and the identity is written then it is shorter than the buffer, given that the
  HMAC is as long as its hash (32 bytes for SHA-256, 48 for SHA-384).\<close>

theorem tls_identity_fits:
  assumes "\<forall>key msg d. mac LIBNVMF_HMAC_ALG_SHA2_256 key msg = Some d \<longrightarrow> length d = 32"
    "\<forall>key msg d. mac LIBNVMF_HMAC_ALG_SHA2_384 key msg = Some d \<longrightarrow> length d = 48"
    "nvme_identity_len hmac version (Some hostnqn) (Some subsysnqn) = Inr n"
    "derive_identity mac retained hostnqn subsysnqn version hmac key_len = Inr identity"
  shows "length identity < n"
proof -
  define cipher where "cipher = (if hmac = LIBNVMF_HMAC_ALG_NONE then default_hmac key_len else hmac mod 256)"
  have c: "length (fmt_02d cipher) \<le> 3"
    by (rule length_02d) (auto simp: cipher_def default_hmac_def hmac_algs)
  have v: "version = 0 \<or> version = 1" using assms(4)
    by (auto simp: derive_identity_def gen_tls_identity_def Let_def split: if_splits sum.splits)
  show ?thesis
  proof (cases "version = 0")
    case True
    then show ?thesis using assms(3,4) c
      by (auto simp: derive_identity_def gen_tls_identity_def nvme_identity_len_def Let_def cipher_def
          fmt_d_def dec_str.simps split: if_splits sum.splits)
  next
    case False
    then obtain rk digest where d: "derive_psk_digest mac hostnqn subsysnqn cipher rk key_len (2 * key_len) = Inr digest"
      "gen_tls_identity hostnqn subsysnqn 1 cipher (Some digest) = Inr identity"
      using v assms(4) by (auto simp: derive_identity_def Let_def cipher_def split: if_splits sum.splits)
    have "cipher = 1 \<or> cipher = 2" and dl: "length digest \<le> 64"
      using d(1) assms(1,2)
      by (auto simp: derive_psk_digest_def hmac_algs length_base64 split: if_splits option.splits)
    then have "length (fmt_02d cipher) = 2" by (auto simp: fmt_02d_def fmt_d_def dec_str.simps)
    then show ?thesis using d(2) dl v False assms(3)
      by (auto simp: gen_tls_identity_def nvme_identity_len_def fmt_d_def dec_str.simps Let_def)
  qed
qed

theorem tls_identity_fits_witness:
  "length ''NVMe0R01 nqn.a nqn.b'' < 22 \<and>
   derive_identity (\<lambda>c k m. if c = 1 then Some (replicate 32 0) else Some (replicate 48 0)) (Inr [])
     ''nqn.a'' ''nqn.b'' 0 1 32 = Inr ''NVMe0R01 nqn.a nqn.b''"
proof -
  have d: "derive_identity (\<lambda>c k m. if c = 1 then Some (replicate 32 0) else Some (replicate 48 0)) (Inr [])
     ''nqn.a'' ''nqn.b'' 0 1 32 = Inr ''NVMe0R01 nqn.a nqn.b''"
    by (simp add: derive_identity_def KEY_BUF_LEN_def hmac_algs gen_tls_identity_def fmt_d_def fmt_02d_def
        dec_str.simps char_of_def Let_def bit_iff_odd)
  have "length ''NVMe0R01 nqn.a nqn.b'' < 22"
    by (rule tls_identity_fits [OF _ _ _ d]) (simp_all add: hmac_algs nvme_identity_len_def)
  then show ?thesis using d by blast
qed

end
