(* ===== verification/KmipPsk.thy ===== *)
theory KmipPsk
  imports Kmip TlsKey
begin

text \<open>
  Fetching a pre-shared key from a KMS, \<open>keysd/src/kmip-psk.c\<close>: the conversion of a key object into
  the PSK interchange format, the dialogue with one server (Locate, then Get), and the walk over the
  servers of a KMS until one gives a final answer.

  The outside world is an argument: \<open>connect\<close> is the result of \<open>kmip_tls_connect\<close>, \<open>xchg i req\<close> what
  \<open>kmip_tls_exchange\<close> returns for the \<open>i\<close>-th request of the dialogue (an error or the bytes of the
  response), \<open>start s\<close> the result of \<open>dmn_resolve\<close> for server \<open>s\<close>, and a \<open>reply\<close> what the name lookup
  of a server reports and when.  \<open>psk\<close>, \<open>uid\<close> and \<open>key\<close> are the memory behind the C arrays.  Clearing
  and freeing of local buffers on the way out, and the log messages, have no result and are left out.
\<close>

section \<open>Key objects\<close>

definition KMIP_PSK_MAX :: nat where "KMIP_PSK_MAX = 128"
definition KMIP_KEY_MAX :: nat where "KMIP_KEY_MAX = 256"

abbreviation text_of :: "bytes \<Rightarrow> string" where "text_of b \<equiv> map (\<lambda>x. char_of (unat x)) b"

text \<open>The loop that drops trailing newlines.\<close>

function strip_newlines :: "bytes \<Rightarrow> nat \<Rightarrow> nat" where
  "strip_newlines data n =
     (if n \<noteq> 0 \<and> (data ! (n - 1) = 0x0a \<or> data ! (n - 1) = 0x0d) then strip_newlines data (n - 1) else n)"
  by pat_completeness auto
termination by (relation "measure snd") auto

declare strip_newlines.simps [simp del]

definition psk_from_secret_data :: "bool \<Rightarrow> bytes \<Rightarrow> nat \<Rightarrow> bytes \<Rightarrow> errno option \<times> bytes" where
  "psk_from_secret_data mem data n0 psk =
     (let n = strip_newlines data n0
      in if n = 0 \<or> n \<ge> KMIP_PSK_MAX \<or> 0 \<in> set (take n data) then (Some EMEDIUMTYPE, psk)
         else (let psk1 = blit n [0] (blit 0 (take n data) psk)
               in case libnvmf_import_tls_key_versioned mem (text_of (take n data)) of
                    Inl _ \<Rightarrow> (Some EMEDIUMTYPE, replicate KMIP_PSK_MAX 0)
                  | Inr _ \<Rightarrow> (None, psk1)))"

definition psk_from_symmetric_key :: "bool \<Rightarrow> bytes \<Rightarrow> nat \<Rightarrow> bytes \<Rightarrow> errno option \<times> bytes" where
  "psk_from_symmetric_key mem data n psk =
     (if n \<noteq> 32 \<and> n \<noteq> 48 then (Some EMEDIUMTYPE, psk)
      else (case libnvmf_export_tls_key mem (take n data) of
              Inl e \<Rightarrow> (Some e, psk)
            | Inr encoded \<Rightarrow>
                if length encoded < KMIP_PSK_MAX then (None, blit 0 (map of_char encoded @ [0]) psk)
                else (Some EMEDIUMTYPE, psk)))"

definition kmip_psk_from_object :: "bool \<Rightarrow> u32 \<Rightarrow> bytes \<Rightarrow> nat \<Rightarrow> bytes \<Rightarrow> errno option \<times> bytes" where
  "kmip_psk_from_object mem ot data n psk =
     (if ot = KMIP_OBJ_SECRET_DATA then psk_from_secret_data mem data n psk
      else if ot = KMIP_OBJ_SYMMETRIC_KEY then psk_from_symmetric_key mem data n psk
      else (Some EMEDIUMTYPE, psk))"

section \<open>The dialogue with one server\<close>

text \<open>\<open>exchange\<close>: the request is freed whatever the outcome.\<close>

definition exchange ::
  "(nat \<Rightarrow> bytes \<Rightarrow> bytes res) \<Rightarrow> nat \<Rightarrow> ttlv_buf \<Rightarrow> bytes res \<times> ttlv_buf" where
  "exchange xchg i req = (xchg i (take (len req) (dat req)), ttlv_buf_init (ttlv_buf_free req))"

text \<open>A C string in an array: the bytes before the first NUL.\<close>

definition cstr :: "bytes \<Rightarrow> string" where
  "cstr b = text_of (takeWhile (\<lambda>x. x \<noteq> 0) b)"

definition get_from_server ::
  "(nat \<Rightarrow> bytes option) \<Rightarrow> bool \<Rightarrow> errno option \<Rightarrow> (nat \<Rightarrow> bytes \<Rightarrow> bytes res) \<Rightarrow> ttlv_buf \<Rightarrow> bytes \<Rightarrow> bytes \<Rightarrow>
   string \<Rightarrow> bytes \<Rightarrow> errno option \<times> bytes" where
  "get_from_server fresh mem connect xchg req0 uid0 key0 name psk =
     (if \<not> mem then (Some ENOMEM, psk)
      else if connect \<noteq> None then (connect, psk)
      else
        (let v = kmip_v1_4;
             (ret, req) = kmip_build_locate fresh (ttlv_buf_init req0) v name KMIP_STATE_ACTIVE;
             (r1, req1) = (case ret of Some e \<Rightarrow> (Inl e, req) | None \<Rightarrow> exchange xchg 0 req);
             (ret1, uid) = (case r1 of
                Inl e \<Rightarrow> (Some e, uid0)
              | Inr resp \<Rightarrow> (case kmip_parse_locate resp (length resp) v uid0 128 of (e, u, _) \<Rightarrow> (e, u)))
         in case ret1 of
              Some e \<Rightarrow> (Some e, psk)
            | None \<Rightarrow>
                (let (ret2, req2) = kmip_build_get fresh req1 v (cstr uid);
                     r2 = (case ret2 of Some e \<Rightarrow> Inl e | None \<Rightarrow> fst (exchange xchg 1 req2))
                 in case (case r2 of
                            Inl e \<Rightarrow> Inl e
                          | Inr resp \<Rightarrow> fst (kmip_parse_get resp (length resp) v key0 KMIP_KEY_MAX)) of
                      Inl e \<Rightarrow> (Some (if e = EOPNOTSUPP then EMEDIUMTYPE else e), psk)
                    | Inr k \<Rightarrow> kmip_psk_from_object mem (obj_type k) (key k) (key_len k) psk)))"

section \<open>The walk over the servers\<close>

definition final_error :: "errno \<Rightarrow> bool" where
  "final_error e \<longleftrightarrow> e = ENOENT \<or> e = ENOTUNIQ \<or> e = EMEDIUMTYPE \<or> e = ENOMEM"

text \<open>\<open>nr\<close> is \<open>kms->nr_servers\<close>, \<open>timeout\<close> is \<open>kms->timeout_ms\<close>.\<close>

record kmip_get =
  gfirst :: nat
  gn :: nat
  deadline :: int
  gret :: "errno option"

definition server_index :: "nat \<Rightarrow> kmip_get \<Rightarrow> nat" where
  "server_index nr g = (gfirst g + gn g) mod nr"

text \<open>The lookup of a server: \<open>start s\<close> is None when the lookup was started; \<open>now s\<close> the clock then.
  The second component is the result.\<close>

function next_server ::
  "nat \<Rightarrow> int \<Rightarrow> (nat \<Rightarrow> errno option) \<Rightarrow> (nat \<Rightarrow> int) \<Rightarrow> kmip_get \<Rightarrow> kmip_get \<times> errno option" where
  "next_server nr timeout start now g =
     (if gn g < nr then
        (let s = server_index nr g; g1 = g\<lparr>deadline := now s + timeout\<rparr>
         in case start s of
              None \<Rightarrow> (g1, None)
            | Some e \<Rightarrow> next_server nr timeout start now (g1\<lparr>gret := Some e, gn := gn g + 1\<rparr>))
      else (g, gret g))"
  by pat_completeness auto
termination by (relation "measure (\<lambda>(nr, timeout, start, now, g). nr - gn g)") auto

declare next_server.simps [simp del]

text \<open>What the lookup of a server reports: success, an EAI error, or \<open>EAI_SYSTEM\<close> with errno (None for
  0), at a time.\<close>

datatype gai = GaiOk | GaiError | GaiSystem "errno option"

record reply =
  rgai :: gai
  rtime :: int

datatype outcome = Waiting kmip_get | Done "errno option" bytes nat

text \<open>\<open>getsrv s left psk\<close> is \<open>get_from_server\<close> on server \<open>s\<close> with that much time left.\<close>

definition on_resolved ::
  "nat \<Rightarrow> int \<Rightarrow> (nat \<Rightarrow> errno option) \<Rightarrow> (nat \<Rightarrow> int) \<Rightarrow> (nat \<Rightarrow> int \<Rightarrow> bytes \<Rightarrow> errno option \<times> bytes) \<Rightarrow>
   kmip_get \<Rightarrow> reply \<Rightarrow> outcome" where
  "on_resolved nr timeout start now getsrv g r =
     (let s = server_index nr g; psk0 = replicate KMIP_PSK_MAX 0; left = deadline g - rtime r;
          (ret, psk) = (case rgai r of
             GaiSystem e \<Rightarrow> (Some (case e of Some x \<Rightarrow> x | None \<Rightarrow> EHOSTUNREACH), psk0)
           | GaiError \<Rightarrow> (Some EHOSTUNREACH, psk0)
           | GaiOk \<Rightarrow> if left \<le> 0 then (Some ETIMEDOUT, psk0) else getsrv s left psk0);
          g1 = g\<lparr>gret := ret\<rparr>
      in case ret of
           None \<Rightarrow> Done None psk s
         | Some e \<Rightarrow>
             if final_error e then Done (Some e) psk s
             else (case next_server nr timeout start now (g1\<lparr>gn := gn g1 + 1\<rparr>) of
                     (g2, None) \<Rightarrow> Waiting g2
                   | (g2, Some e2) \<Rightarrow> Done (Some e2) psk (server_index nr g2)))"

definition kmip_get_psk ::
  "bool \<Rightarrow> nat \<Rightarrow> int \<Rightarrow> (nat \<Rightarrow> errno option) \<Rightarrow> (nat \<Rightarrow> int) \<Rightarrow> nat \<Rightarrow> kmip_get res" where
  "kmip_get_psk mem nr timeout start now first =
     (if nr = 0 then Inl EHOSTUNREACH
      else if \<not> mem then Inl ENOMEM
      else (case next_server nr timeout start now
                   \<lparr>gfirst = (if first < nr then first else 0), gn = 0, deadline = 0, gret = Some EHOSTUNREACH\<rparr> of
              (g, None) \<Rightarrow> Inr g
            | (g, Some e) \<Rightarrow> Inl e))"

lemma next_server_waiting:
  "next_server nr timeout start now g = (g', None) \<Longrightarrow> gret g \<noteq> None \<Longrightarrow>
     gn g \<le> gn g' \<and> gn g' < nr \<and> gfirst g' = gfirst g \<and> start (server_index nr g') = None \<and>
     deadline g' = now (server_index nr g') + timeout \<and>
     (\<forall>j. gn g \<le> j \<and> j < gn g' \<longrightarrow> start ((gfirst g + j) mod nr) \<noteq> None)"
proof (induction nr timeout start now g rule: next_server.induct)
  case (1 nr timeout start now g)
  let ?s = "server_index nr g" and ?g = "g\<lparr>deadline := now (server_index nr g) + timeout\<rparr>"
  have lt: "gn g < nr" using "1.prems" by (subst (asm) next_server.simps) (auto split: if_splits)
  show ?case
  proof (cases "start ?s")
    case None
    then have "g' = ?g" using "1.prems"(1) lt by (subst (asm) next_server.simps) (simp add: Let_def)
    then show ?thesis using None lt by (auto simp: server_index_def)
  next
    case (Some e)
    then have n: "next_server nr timeout start now (?g\<lparr>gret := Some e, gn := gn g + 1\<rparr>) = (g', None)"
      using "1.prems"(1) lt by (subst (asm) next_server.simps) (simp add: Let_def)
    from "1.IH" [OF lt refl refl Some n] show ?thesis using Some
      by (auto simp: server_index_def not_less_eq_eq) (metis le_antisym not_less_eq_eq option.simps(3))
  qed
qed

lemma next_server_exhausted:
  "next_server nr timeout start now g = (g', Some e) \<Longrightarrow> gn g \<le> nr \<Longrightarrow>
     gn g' = nr \<and> gfirst g' = gfirst g \<and>
     (\<forall>j. gn g \<le> j \<and> j < nr \<longrightarrow> start ((gfirst g + j) mod nr) \<noteq> None) \<and>
     Some e = (if gn g < nr then start ((gfirst g + (nr - 1)) mod nr) else gret g)"
proof (induction nr timeout start now g rule: next_server.induct)
  case (1 nr timeout start now g)
  let ?s = "server_index nr g" and ?g = "g\<lparr>deadline := now (server_index nr g) + timeout\<rparr>"
  show ?case
  proof (cases "gn g < nr")
    case lt: True
    obtain x where x: "start ?s = Some x"
      using "1.prems"(1) lt by (subst (asm) next_server.simps) (auto simp: Let_def split: option.splits)
    then have n: "next_server nr timeout start now (?g\<lparr>gret := Some x, gn := gn g + 1\<rparr>) = (g', Some e)"
      using "1.prems"(1) lt by (subst (asm) next_server.simps) (simp add: Let_def)
    have i: "gn g' = nr \<and> gfirst g' = gfirst g \<and>
        (\<forall>j. gn g + 1 \<le> j \<and> j < nr \<longrightarrow> start ((gfirst g + j) mod nr) \<noteq> None) \<and>
        Some e = (if gn g + 1 < nr then start ((gfirst g + (nr - 1)) mod nr) else Some x)"
      using "1.IH" [OF lt refl refl x n] lt by (simp split: if_splits)
    have "start ((gfirst g + j) mod nr) \<noteq> None" if "gn g \<le> j" "j < nr" for j
      using i x that by (cases "j = gn g") (auto simp: server_index_def)
    moreover have "gn g = nr - 1" if "\<not> gn g + 1 < nr" using that lt by linarith
    ultimately show ?thesis using i x lt by (auto simp: server_index_def split: if_splits)
  next
    case False
    then show ?thesis using "1.prems" by (subst (asm) next_server.simps) auto
  qed
qed

text \<open>The whole walk: the lookup of the current server is answered until the callback is called.\<close>

lemma on_resolved_waiting:
  "on_resolved nr timeout start now getsrv g r = Waiting g' \<Longrightarrow> gn g < gn g' \<and> gn g' < nr"
  by (auto simp: on_resolved_def Let_def split: prod.splits option.splits if_splits dest: next_server_waiting)

function kmip_walk ::
  "nat \<Rightarrow> int \<Rightarrow> (nat \<Rightarrow> errno option) \<Rightarrow> (nat \<Rightarrow> int) \<Rightarrow> (nat \<Rightarrow> int \<Rightarrow> bytes \<Rightarrow> errno option \<times> bytes) \<Rightarrow>
   (nat \<Rightarrow> reply) \<Rightarrow> kmip_get \<Rightarrow> errno option \<times> bytes \<times> nat" where
  "kmip_walk nr timeout start now getsrv replies g =
     (case on_resolved nr timeout start now getsrv g (replies (server_index nr g)) of
        Done r p s \<Rightarrow> (r, p, s)
      | Waiting g' \<Rightarrow> kmip_walk nr timeout start now getsrv replies g')"
  by pat_completeness auto
termination
  by (relation "measure (\<lambda>(nr, timeout, start, now, getsrv, replies, g). nr - gn g)")
    (auto dest!: on_resolved_waiting)

declare kmip_walk.simps [simp del]

text \<open>The answer of a server whose lookup was started, and what the walk is to make of all of them.\<close>

definition server_result ::
  "int \<Rightarrow> (nat \<Rightarrow> int) \<Rightarrow> (nat \<Rightarrow> int \<Rightarrow> bytes \<Rightarrow> errno option \<times> bytes) \<Rightarrow> (nat \<Rightarrow> reply) \<Rightarrow> nat \<Rightarrow> errno option \<times> bytes" where
  "server_result timeout now getsrv replies s =
     (let left = now s + timeout - rtime (replies s); psk0 = replicate KMIP_PSK_MAX 0
      in case rgai (replies s) of
           GaiSystem e \<Rightarrow> (Some (case e of Some x \<Rightarrow> x | None \<Rightarrow> EHOSTUNREACH), psk0)
         | GaiError \<Rightarrow> (Some EHOSTUNREACH, psk0)
         | GaiOk \<Rightarrow> if left \<le> 0 then (Some ETIMEDOUT, psk0) else getsrv s left psk0)"

definition decisive :: "(nat \<Rightarrow> errno option) \<Rightarrow> (nat \<Rightarrow> errno option \<times> bytes) \<Rightarrow> nat \<Rightarrow> bool" where
  "decisive start res s \<longleftrightarrow> start s = None \<and> (case fst (res s) of None \<Rightarrow> True | Some e \<Rightarrow> final_error e)"

definition server_error :: "(nat \<Rightarrow> errno option) \<Rightarrow> (nat \<Rightarrow> errno option \<times> bytes) \<Rightarrow> nat \<Rightarrow> errno option" where
  "server_error start res s = (case start s of Some e \<Rightarrow> Some e | None \<Rightarrow> fst (res s))"

lemma find_skip:
  "a \<le> b \<Longrightarrow> b \<le> n \<Longrightarrow> (\<forall>j. a \<le> j \<and> j < b \<longrightarrow> \<not> P (f j)) \<Longrightarrow> find P (map f [a..<n]) = find P (map f [b..<n])"
  by (induction b rule: dec_induct) (auto simp: upt_conv_Cons)

lemma on_resolved_result:
  assumes "deadline g = now (server_index nr g) + timeout" "server_index nr g = s"
  shows "on_resolved nr timeout start now getsrv g (replies s) =
    (case server_result timeout now getsrv replies s of
       (None, psk) \<Rightarrow> Done None psk s
     | (Some e, psk) \<Rightarrow>
         if final_error e then Done (Some e) psk s
         else (case next_server nr timeout start now (g\<lparr>gret := Some e, gn := gn g + 1\<rparr>) of
                 (g2, None) \<Rightarrow> Waiting g2
               | (g2, Some e2) \<Rightarrow> Done (Some e2) psk (server_index nr g2)))"
  using assms
  by (auto simp: on_resolved_def server_result_def Let_def split: prod.splits option.splits gai.splits)

lemma kmip_walk_spec:
  assumes "gn g < nr" "start (server_index nr g) = None" "deadline g = now (server_index nr g) + timeout"
    "res = server_result timeout now getsrv replies"
  shows "case find (decisive start res) (map (\<lambda>j. (gfirst g + j) mod nr) [gn g..<nr]) of
      Some s \<Rightarrow> kmip_walk nr timeout start now getsrv replies g = (fst (res s), snd (res s), s)
    | None \<Rightarrow> fst (kmip_walk nr timeout start now getsrv replies g) = server_error start res ((gfirst g + (nr - 1)) mod nr) \<and>
        snd (snd (kmip_walk nr timeout start now getsrv replies g)) = gfirst g mod nr"
  using assms(1-3)
proof (induction "nr - gn g" arbitrary: g rule: less_induct)
  case less
  let ?s = "server_index nr g" and ?f = "\<lambda>j. (gfirst g + j) mod nr"
  have s: "?f (gn g) = ?s" by (simp add: server_index_def)
  have split: "find (decisive start res) (map ?f [gn g..<nr]) =
      (if decisive start res ?s then Some ?s else find (decisive start res) (map ?f [gn g + 1..<nr]))"
    using less.prems(1) s by (simp add: upt_conv_Cons)
  note on = on_resolved_result [of g now nr timeout ?s start getsrv replies, OF less.prems(3) refl, folded assms(4)]
  show ?case
  proof (cases "decisive start res ?s")
    case True
    then show ?thesis using on split less.prems(2)
      by (subst kmip_walk.simps) (cases "res ?s"; auto simp: decisive_def kmip_walk.simps [of nr timeout start now getsrv replies g]
          split: option.splits)
  next
    case False
    then obtain e psk where e: "res ?s = (Some e, psk)" "\<not> final_error e"
      using less.prems(2) by (cases "res ?s") (auto simp: decisive_def split: option.splits)
    obtain g2 x where n: "next_server nr timeout start now (g\<lparr>gret := Some e, gn := gn g + 1\<rparr>) = (g2, x)" by fastforce
    show ?thesis
    proof (cases x)
      case None
      note w = next_server_waiting [OF n [unfolded None], simplified]
      have "kmip_walk nr timeout start now getsrv replies g = kmip_walk nr timeout start now getsrv replies g2"
        using on e n None by (subst kmip_walk.simps) simp
      moreover have "find (decisive start res) (map ?f [gn g + 1..<nr]) = find (decisive start res) (map ?f [gn g2..<nr])"
        using w by (intro find_skip) (auto simp: decisive_def)
      moreover have "nr - gn g2 < nr - gn g" using w less.prems(1) by auto
      ultimately show ?thesis using less.hyps [of g2] w split False by (simp split: option.splits)
    next
      case (Some e2)
      note w = next_server_exhausted [OF n [unfolded Some], simplified]
      have k: "kmip_walk nr timeout start now getsrv replies g = (Some e2, psk, server_index nr g2)"
        using on e n Some by (subst kmip_walk.simps) simp
      have "find (decisive start res) (map ?f [gn g + 1..<nr]) = find (decisive start res) (map ?f [nr..<nr])"
        using w less.prems(1) by (intro find_skip) (auto simp: decisive_def)
      moreover have "Some e2 = server_error start res ((gfirst g + (nr - 1)) mod nr)"
      proof (cases "gn g + 1 < nr")
        case True
        then show ?thesis using w by (auto simp: server_error_def split: option.splits)
      next
        case last: False
        then have "nr - 1 = gn g" using less.prems(1) by linarith
        then show ?thesis using w last less.prems e(1) s by (auto simp: server_error_def)
      qed
      ultimately show ?thesis using k w less.prems(1) split False by (simp add: server_index_def)
    qed
  qed
qed

section \<open>Fetching a stored key\<close>

text \<open>A KMIP server that carries out operation \<open>op\<close>: its reply is the encoding of well-formed items that answer
  the operation with success and a payload that satisfies \<open>P\<close>.  The items may hold anything else besides,
  such as the time stamp and the result message.\<close>

definition kmip_reply :: "bytes res \<Rightarrow> u32 \<Rightarrow> (ttlv list \<Rightarrow> bool) \<Rightarrow> bool" where
  "kmip_reply r op P \<longleftrightarrow>
     (\<exists>d xs payload. r = Inr (encs xs) \<and> list_all (ttlv_ok d) xs \<and> answers xs kmip_v1_4 op payload \<and> P payload)"

definition one_object :: "string \<Rightarrow> ttlv list \<Rightarrow> bool" where
  "one_object uid payload \<longleftrightarrow>
     filter (\<lambda>x. tag_of x = KMIP_TAG_UNIQUE_IDENTIFIER) payload = [TText KMIP_TAG_UNIQUE_IDENTIFIER uid]"

text \<open>A reply of this kind, with the items in the order of the repository's own test server,
  \<open>keysd/tests/kmip-responses.c\<close>.\<close>

definition response_tree :: "u32 \<Rightarrow> ttlv list \<Rightarrow> ttlv list" where
  "response_tree op payload =
     [TStruct KMIP_TAG_RESPONSE_MESSAGE
        [TStruct KMIP_TAG_RESPONSE_HEADER
           [TStruct KMIP_TAG_PROTOCOL_VERSION
              [TInt KMIP_TAG_PROTOCOL_VERSION_MAJOR 1, TInt KMIP_TAG_PROTOCOL_VERSION_MINOR 4],
            TDate 0x420092 1760000000, TInt KMIP_TAG_BATCH_COUNT 1],
         TStruct KMIP_TAG_BATCH_ITEM
           [TEnum KMIP_TAG_OPERATION op, TEnum KMIP_TAG_RESULT_STATUS KMIP_STATUS_SUCCESS,
            TStruct KMIP_TAG_RESPONSE_PAYLOAD payload]]]"

definition object_payload :: "string \<Rightarrow> u32 \<Rightarrow> u32 \<Rightarrow> bytes \<Rightarrow> ttlv list" where
  "object_payload uid ot tag k =
     [TEnum KMIP_TAG_OBJECT_TYPE ot, TText KMIP_TAG_UNIQUE_IDENTIFIER uid,
      TStruct tag [TStruct KMIP_TAG_KEY_BLOCK
        [TEnum KMIP_TAG_KEY_FORMAT_TYPE KMIP_KEY_FORMAT_RAW,
         TStruct KMIP_TAG_KEY_VALUE [TBytes KMIP_TAG_KEY_MATERIAL k]]]]"

lemma response_answers: "answers (response_tree op payload) kmip_v1_4 op payload"
  by (simp add: answers_def response_tree_def at_defs kmip_tags kmip_v1_4_def)

lemma pad8_le: "n \<le> 256 \<Longrightarrow> pad8 n \<le> 263"
  using pad8_facts(6) [of n] by linarith

lemma response_ok:
  assumes "length uid \<le> 256"
  shows "list_all (ttlv_ok 16) (response_tree op [TText KMIP_TAG_UNIQUE_IDENTIFIER uid])"
    "length k \<le> 256 \<Longrightarrow> list_all (ttlv_ok 16) (response_tree op
       (object_payload uid ot KMIP_TAG_SYMMETRIC_KEY k))"
  using assms pad8_le [of "length uid"] pad8_le [of "length k"]
  by (simp_all add: response_tree_def object_payload_def kmip_tags UINT32_MAX_def pad8_facts)

lemma key_object_payload:
  "key_object (object_payload uid KMIP_OBJ_SYMMETRIC_KEY KMIP_TAG_SYMMETRIC_KEY k) KMIP_OBJ_SYMMETRIC_KEY k"
  by (simp add: key_object_def object_payload_def at_defs kmip_tags kmip_values obj_tag_def)

lemma response_reply:
  assumes "length uid \<le> 256" "length k \<le> 256"
  shows "kmip_reply (Inr (encs (response_tree KMIP_OP_LOCATE [TText KMIP_TAG_UNIQUE_IDENTIFIER uid]))) KMIP_OP_LOCATE (one_object uid)"
    "kmip_reply (Inr (encs (response_tree KMIP_OP_GET (object_payload uid KMIP_OBJ_SYMMETRIC_KEY KMIP_TAG_SYMMETRIC_KEY k))))
      KMIP_OP_GET (\<lambda>p. key_object p KMIP_OBJ_SYMMETRIC_KEY k)"
  using response_ok [OF assms(1)] response_answers key_object_payload assms(2)
  by (fastforce simp: kmip_reply_def one_object_def)+

text \<open>What the parsers make of such replies.\<close>

lemma locate_reply:
  assumes "kmip_reply r KMIP_OP_LOCATE (one_object uid)" "uid \<noteq> []" "NUL \<notin> set uid" "length uid < 128" "length ubuf = 128"
  obtains l c where "r = Inr l"
    "kmip_parse_locate l (length l) kmip_v1_4 ubuf 128 = (None, map of_char uid @ 0 # drop (length uid + 1) ubuf, c)"
proof -
  obtain d xs payload where x: "r = Inr (encs xs)" "list_all (ttlv_ok d) xs" "answers xs kmip_v1_4 KMIP_OP_LOCATE payload"
    "one_object uid payload"
    using assms(1) by (auto simp: kmip_reply_def)
  have "located payload ubuf 128 = (None, map of_char uid @ 0 # drop (length uid + 1) ubuf)"
    using x(4) assms(2-5) by (simp add: located_def one_object_def blit_def)
  moreover obtain e m c where p: "kmip_parse_locate (encs xs) (length (encs xs)) kmip_v1_4 ubuf 128 = (e, m, c)"
    using prod_cases3 by blast
  moreover have "(e, m) = located payload ubuf 128"
    using parse_locate_encs [OF x(2), of kmip_v1_4 ubuf 128] p x(3) by simp
  ultimately show ?thesis using x(1) that [of "encs xs" c] by simp
qed

lemma get_reply:
  assumes "kmip_reply r KMIP_OP_GET (\<lambda>p. key_object p ot k)" "k \<noteq> []" "length k \<le> KMIP_KEY_MAX"
  obtains g c where "r = Inr g"
    "kmip_parse_get g (length g) kmip_v1_4 kbuf KMIP_KEY_MAX = (Inr \<lparr>obj_type = ot, key = k @ drop (length k) kbuf, key_len = length k\<rparr>, c)"
proof -
  obtain d xs payload where x: "r = Inr (encs xs)" "list_all (ttlv_ok d) xs" "answers xs kmip_v1_4 KMIP_OP_GET payload"
    "key_object payload ot k"
    using assms(1) by (auto simp: kmip_reply_def)
  have "blit 0 k kbuf = k @ drop (length k) kbuf" by (simp add: blit_def)
  then show ?thesis
    using iffD2 [OF parse_get_encs [OF x(2)]] x(1,3,4) assms(2,3) that by metis
qed

lemma reader_take: "ttlv_reader_init d n = take n d"
  by (simp add: ttlv_reader_init_def)

lemma cstr_text:
  assumes "NUL \<notin> set s"
  shows "cstr (map of_char s @ 0 # r) = s"
proof -
  have "takeWhile (\<lambda>x. x \<noteq> 0) (map of_char s @ (0 :: u8) # r) = map of_char s"
    using assms by (simp add: takeWhile_append2 takeWhile_append)
  then show ?thesis by (simp add: cstr_def o_def)
qed

lemma locate_sent:
  assumes "plenty fresh" "length name \<le> 2 ^ 31"
  shows "\<exists>b. kmip_build_locate fresh (ttlv_buf_init b0) kmip_v1_4 name KMIP_STATE_ACTIVE = (None, b) \<and>
    read_all (take (len b) (dat b)) = Inr [request_tree kmip_v1_4 KMIP_OP_LOCATE (locate_payload name KMIP_STATE_ACTIVE)]"
  using emit_all_ok [OF assms(1), of "[request_tree kmip_v1_4 KMIP_OP_LOCATE (locate_payload name KMIP_STATE_ACTIVE)]" b0]
    request_ok [OF assms(2)] build_locate_emit [of kmip_v1_4 fresh "ttlv_buf_init b0" name KMIP_STATE_ACTIVE]
  by (simp add: Let_def reader_take kmip_v1_4_def)

lemma get_sent:
  assumes "plenty fresh" "length uid \<le> 2 ^ 31"
  shows "\<exists>b. kmip_build_get fresh (ttlv_buf_init b0) kmip_v1_4 uid = (None, b) \<and>
    read_all (take (len b) (dat b)) = Inr [request_tree kmip_v1_4 KMIP_OP_GET [TText KMIP_TAG_UNIQUE_IDENTIFIER uid]]"
  using emit_all_ok [OF assms(1), of "[request_tree kmip_v1_4 KMIP_OP_GET [TText KMIP_TAG_UNIQUE_IDENTIFIER uid]]" b0]
    request_ok [OF assms(2)] by (simp add: build_get_emit Let_def reader_take)

lemma base64_no_NUL: "NUL \<notin> set (shr_base64_encode bs)"
proof -
  have "\<forall>c \<in> set base64_table. c \<noteq> NUL" by code_simp
  moreover have "length base64_table = 64" by code_simp
  ultimately have "p < 64 \<Longrightarrow> sext p \<noteq> NUL" for p by (metis nth_mem sext_def)
  then have "\<forall>p \<in> set (sexts bs). sext p \<noteq> NUL" using sexts_less by blast
  then have "NUL \<notin> sext ` set (sexts bs)" by (metis imageE)
  then show ?thesis by (simp add: base64_encode_rfc rfc4648_sexts)
qed

lemma export_no_NUL:
  assumes "libnvmf_export_tls_key_versioned True 1 h k = Inr s"
  shows "NUL \<notin> set s"
proof -
  have s: "s = tls_frame h @ shr_base64_encode (k @ crc_bytes (shr_crc32 0 k)) @ '':''" and "tls_key_ok h (length k)"
    using assms by (auto simp: export_eq split: if_splits)
  then have "NUL \<notin> set (tls_frame h)"
    using tls_key_ok_hmac by (fastforce simp: tls_frame_def fmt_02x_def hexc_def)
  then show ?thesis using s base64_no_NUL by simp
qed

text \<open>A symmetric key of 32 or 48 bytes becomes the interchange string of that key.\<close>

lemma psk_of_symmetric_key:
  assumes "length k = 32 \<or> length k = 48" "length psk = 128"
  shows "\<exists>s. kmip_psk_from_object True KMIP_OBJ_SYMMETRIC_KEY (k @ r) (length k) psk =
      (None, map of_char s @ 0 # drop (length s + 1) psk) \<and> NUL \<notin> set s \<and> length s < 128 \<and>
    libnvmf_import_tls_key True s = Inr (if length k = 32 then 1 else 2, k)"
proof -
  let ?h = "if length k = 32 then 1 else 2 :: int"
  have ok: "tls_key_ok ?h (length k)" using assms(1) by (auto simp: tls_key_ok_def hmac_algs)
  define s where "s = tls_frame ?h @ shr_base64_encode (k @ crc_bytes (shr_crc32 0 k)) @ '':''"
  have e: "libnvmf_export_tls_key_versioned True 1 ?h k = Inr s" by (simp add: export_eq ok s_def)
  then have "libnvmf_export_tls_key True k = Inr s" by (auto simp: libnvmf_export_tls_key_def hmac_algs split: if_splits)
  moreover have "length s < 128"
    unfolding s_def using framed(1) [OF ok length_crc_bytes refl] by simp
  moreover have "libnvmf_import_tls_key True s = Inr (?h, k)"
    unfolding s_def libnvmf_import_tls_key_def using import_framed [OF ok length_crc_bytes, of "shr_crc32 0 k"] by simp
  ultimately show ?thesis using assms export_no_NUL [OF e]
    by (intro exI [of _ s])
      (auto simp: kmip_psk_from_object_def kmip_values psk_from_symmetric_key_def KMIP_PSK_MAX_def blit_def)
qed

lemma strip_newlines_le: "strip_newlines data n \<le> n"
proof (induction data n rule: strip_newlines.induct)
  case (1 data n)
  then show ?case by (subst strip_newlines.simps) (auto intro: order_trans)
qed

lemma of_char_text [simp]: "of_char (char_of (unat (x :: u8))) = x"
proof -
  have "of_char (char_of (unat x)) = (of_nat (of_char (char_of (unat x))) :: u8)" by (simp only: of_nat_of_char)
  also have "\<dots> = of_nat (unat x mod 256)" by (simp only: of_char_of)
  also have "\<dots> = x" using unsigned_less [of x, where 'a = nat] by simp
  finally show ?thesis .
qed

lemma text_NUL: "char_of (unat (x :: u8)) = NUL \<longleftrightarrow> x = 0"
  by (metis byte_eq of_char_text)

section \<open>Properties\<close>

text \<open>C2: A key stored on a KMS arrives.  The server may answer a Locate request for the name with any
  well-formed reply that says success and whose payload holds one Unique Identifier, and a Get request for that
  identifier with any well-formed reply that says success and whose payload holds a symmetric key of 32 or 48
  bytes in Raw or Opaque format.  Then, with memory and the connection, the dialogue succeeds and leaves a
  string from which the TLS key import reads exactly the stored key, with SHA-256 or SHA-384 by
  its length.  The identifier is a string of 1 to 127 bytes, as the code's buffer demands, and the name is no
  longer than 2 ^ 31 bytes.\<close>

theorem kmip_fetches_stored_key:
  assumes "plenty fresh"
    "\<forall>req. read_all req = Inr [request_tree kmip_v1_4 KMIP_OP_LOCATE (locate_payload name KMIP_STATE_ACTIVE)] \<longrightarrow>
       kmip_reply (xchg 0 req) KMIP_OP_LOCATE (one_object uid)"
    "\<forall>req. read_all req = Inr [request_tree kmip_v1_4 KMIP_OP_GET [TText KMIP_TAG_UNIQUE_IDENTIFIER uid]] \<longrightarrow>
       kmip_reply (xchg 1 req) KMIP_OP_GET (\<lambda>p. key_object p KMIP_OBJ_SYMMETRIC_KEY k)"
    "uid \<noteq> []" "NUL \<notin> set uid" "length uid < 128" "length name \<le> 2 ^ 31" "length k = 32 \<or> length k = 48"
    "length ubuf = 128" "length kbuf = 256" "length psk = 128"
  shows "\<exists>psk'. get_from_server fresh True None xchg rbuf ubuf kbuf name psk = (None, psk') \<and>
    libnvmf_import_tls_key True (cstr psk') = Inr (if length k = 32 then 1 else 2, k)"
proof -
  obtain b where b: "kmip_build_locate fresh (ttlv_buf_init rbuf) kmip_v1_4 name KMIP_STATE_ACTIVE = (None, b)"
    "kmip_reply (xchg 0 (take (len b) (dat b))) KMIP_OP_LOCATE (one_object uid)"
    using locate_sent [OF assms(1,7), of rbuf] assms(2) by blast
  have lu: "length uid \<le> 2 ^ 31" using assms(6) by auto
  obtain c where c: "kmip_build_get fresh (ttlv_buf_init (ttlv_buf_free b)) kmip_v1_4 uid = (None, c)"
    "kmip_reply (xchg 1 (take (len c) (dat c))) KMIP_OP_GET (\<lambda>p. key_object p KMIP_OBJ_SYMMETRIC_KEY k)"
    using get_sent [OF assms(1) lu, of "ttlv_buf_free b"] assms(3) by blast
  obtain l r where l: "xchg 0 (take (len b) (dat b)) = Inr l"
    "kmip_parse_locate l (length l) kmip_v1_4 ubuf 128 = (None, map of_char uid @ 0 # drop (length uid + 1) ubuf, r)"
    using locate_reply [OF b(2) assms(4-6,9)] by metis
  have k: "k \<noteq> []" "length k \<le> KMIP_KEY_MAX" using assms(8) by (auto simp: KMIP_KEY_MAX_def)
  obtain g r' where g: "xchg 1 (take (len c) (dat c)) = Inr g" "kmip_parse_get g (length g) kmip_v1_4 kbuf KMIP_KEY_MAX =
      (Inr \<lparr>obj_type = KMIP_OBJ_SYMMETRIC_KEY, key = k @ drop (length k) kbuf, key_len = length k\<rparr>, r')"
    using get_reply [OF c(2) k] by metis
  obtain s where s: "kmip_psk_from_object True KMIP_OBJ_SYMMETRIC_KEY (k @ drop (length k) kbuf) (length k) psk =
      (None, map of_char s @ 0 # drop (length s + 1) psk)" "NUL \<notin> set s"
    "libnvmf_import_tls_key True s = Inr (if length k = 32 then 1 else 2, k)"
    using psk_of_symmetric_key [OF assms(8,11)] by blast
  have "get_from_server fresh True None xchg rbuf ubuf kbuf name psk = (None, map of_char s @ 0 # drop (length s + 1) psk)"
    using b c l g s(1) by (simp add: get_from_server_def exchange_def Let_def cstr_text [OF assms(5)])
  then show ?thesis using s(2,3) cstr_text by auto
qed

theorem kmip_fetches_stored_key_witness:
  "\<exists>psk'. get_from_server (\<lambda>n. Some (replicate n 0)) True None
      (\<lambda>i req. Inr (encs (if i = 0 then response_tree KMIP_OP_LOCATE [TText KMIP_TAG_UNIQUE_IDENTIFIER ''17'']
         else response_tree KMIP_OP_GET (object_payload ''17'' KMIP_OBJ_SYMMETRIC_KEY KMIP_TAG_SYMMETRIC_KEY (replicate 32 5)))))
      \<lparr>dat = [], len = 0, cap = 0, err = None, opens = [], freed = []\<rparr>
      (replicate 128 1) (replicate 256 1) ''tls-psk'' (replicate 128 0) = (None, psk') \<and>
    libnvmf_import_tls_key True (cstr psk') = Inr (1, replicate 32 5)"
  using kmip_fetches_stored_key [where uid = "''17''" and k = "replicate 32 5" and name = "''tls-psk''" and
      fresh = "\<lambda>n. Some (replicate n 0)" and ubuf = "replicate 128 1" and kbuf = "replicate 256 1" and
      psk = "replicate 128 0" and rbuf = "\<lparr>dat = [], len = 0, cap = 0, err = None, opens = [], freed = []\<rparr>" and
      xchg = "\<lambda>i req. Inr (encs (if i = 0 then response_tree KMIP_OP_LOCATE [TText KMIP_TAG_UNIQUE_IDENTIFIER ''17'']
         else response_tree KMIP_OP_GET (object_payload ''17'' KMIP_OBJ_SYMMETRIC_KEY KMIP_TAG_SYMMETRIC_KEY (replicate 32 5))))"]
    response_reply [of "''17''" "replicate 32 5"]
  by (simp add: plenty_def)

text \<open>C18: The servers of a KMS are asked in order, beginning with the preferred one and wrapping around,
  and the first whose answer settles the matter decides: a success, or an error that would be the same
  on every server (no such key, several, not a PSK, no memory).  The callback gets the result, the key
  and the index of that server.  When no server settles it, the error is that of the last one.  If not
  even one lookup can be started, the call itself fails with the last error.\<close>

theorem kmip_walk_order:
  assumes "0 < nr" "first < nr" "res = server_result timeout now getsrv replies"
    "order = map (\<lambda>j. (first + j) mod nr) [0..<nr]"
  shows "case kmip_get_psk True nr timeout start now first of
      Inl e \<Rightarrow> (\<forall>s \<in> set order. start s \<noteq> None) \<and> Some e = start (last order)
    | Inr g \<Rightarrow> (case find (decisive start res) order of
          Some s \<Rightarrow> kmip_walk nr timeout start now getsrv replies g = (fst (res s), snd (res s), s)
        | None \<Rightarrow> fst (kmip_walk nr timeout start now getsrv replies g) = server_error start res (last order))"
proof -
  let ?g0 = "\<lparr>gfirst = first, gn = 0, deadline = 0, gret = Some EHOSTUNREACH\<rparr>"
  have last: "last order = (first + (nr - 1)) mod nr" using assms(1,4) by (simp add: last_map last_upt)
  obtain g x where n: "next_server nr timeout start now ?g0 = (g, x)" by fastforce
  show ?thesis
  proof (cases x)
    case None
    note w = next_server_waiting [OF n [unfolded None], simplified]
    have "find (decisive start res) order = find (decisive start res) (map (\<lambda>j. (first + j) mod nr) [gn g..<nr])"
      unfolding assms(4) using w by (intro find_skip) (auto simp: decisive_def)
    moreover have "kmip_get_psk True nr timeout start now first = Inr g"
      using assms(1,2) n None by (simp add: kmip_get_psk_def)
    ultimately show ?thesis
      using kmip_walk_spec [of g nr start now timeout res getsrv replies] w assms(3) last by (auto split: option.splits)
  next
    case (Some e)
    note w = next_server_exhausted [OF n [unfolded Some], simplified]
    have "kmip_get_psk True nr timeout start now first = Inl e"
      using assms(1,2) n Some by (simp add: kmip_get_psk_def)
    then show ?thesis using w assms(1) last by (auto simp: assms(4))
  qed
qed

theorem kmip_walk_order_witness:
  "kmip_walk 3 1000 (\<lambda>s. None) (\<lambda>s. 0) (\<lambda>s left psk. if s = 0 then (None, [7]) else (Some EREMOTEIO, psk))
     (\<lambda>s. \<lparr>rgai = GaiOk, rtime = 10\<rparr>) \<lparr>gfirst = 2, gn = 0, deadline = 1000, gret = Some EHOSTUNREACH\<rparr> = (None, [7], 0)"
proof -
  have g: "kmip_get_psk True 3 1000 (\<lambda>s. None) (\<lambda>s. 0) 2 =
      Inr \<lparr>gfirst = 2, gn = 0, deadline = 1000, gret = Some EHOSTUNREACH\<rparr>"
    by (simp add: kmip_get_psk_def next_server.simps)
  show ?thesis
    using kmip_walk_order [of 3 2 "server_result 1000 (\<lambda>s. 0) (\<lambda>s left psk. if s = 0 then (None, [7]) else (Some EREMOTEIO, psk))
        (\<lambda>s. \<lparr>rgai = GaiOk, rtime = 10\<rparr>)" 1000 "\<lambda>s. 0" "\<lambda>s left psk. if s = 0 then (None, [7]) else (Some EREMOTEIO, psk)"
        "\<lambda>s. \<lparr>rgai = GaiOk, rtime = 10\<rparr>" "map (\<lambda>j. (2 + j) mod 3) [0..<3]" "\<lambda>s. None"]
    by (simp add: g upt_rec server_result_def decisive_def final_error_def)
qed

text \<open>C34: Whatever object a KMS returns: when the conversion succeeds the PSK is a NUL-terminated string
  that the TLS key import accepts; when it fails the caller's buffer is as it was or all zeros, so
  that a rejected object leaves nothing behind.\<close>

theorem kmip_psk_valid_or_cleared:
  assumes "length psk = 128" "n \<le> length data"
  shows "case kmip_psk_from_object True ot data n psk of (e, psk') \<Rightarrow>
      length psk' = 128 \<and>
      (e = None \<longrightarrow> (\<exists>s r. psk' = map of_char s @ 0 # r \<and> NUL \<notin> set s \<and>
         (\<exists>hk. libnvmf_import_tls_key True s = Inr hk))) \<and>
      (e \<noteq> None \<longrightarrow> psk' = psk \<or> psk' = replicate 128 0)"
proof (cases "ot = KMIP_OBJ_SECRET_DATA")
  case True
  let ?m = "strip_newlines data n"
  have m: "?m \<le> length data" using strip_newlines_le [of data n] assms(2) by linarith
  have zero: "0 \<notin> set (take ?m data) \<Longrightarrow> NUL \<notin> set (text_of (take ?m data))"
    by (auto simp: text_NUL eq_commute [of NUL])
  show ?thesis
  proof (cases "?m = 0 \<or> ?m \<ge> 128 \<or> 0 \<in> set (take ?m data)")
    case bad: True
    then show ?thesis using True assms by (auto simp: kmip_psk_from_object_def psk_from_secret_data_def KMIP_PSK_MAX_def)
  next
    case good: False
    define t where "t = text_of (take ?m data)"
    have "blit ?m [0] (blit 0 (take ?m data) psk) = map of_char t @ 0 # drop (?m + 1) psk"
      using good m assms(1) by (simp add: blit_def o_def min_absorb1 t_def)
    then have e: "kmip_psk_from_object True ot data n psk =
        (case libnvmf_import_tls_key_versioned True t of
           Inl _ \<Rightarrow> (Some EMEDIUMTYPE, replicate 128 0)
         | Inr _ \<Rightarrow> (None, map of_char t @ 0 # drop (?m + 1) psk))"
      using True good unfolding t_def
      by (simp add: kmip_psk_from_object_def psk_from_secret_data_def KMIP_PSK_MAX_def Let_def split: sum.split)
    have "NUL \<notin> set t" "length t = ?m" using zero good m by (auto simp: t_def)
    then show ?thesis using e good assms(1)
      by (cases "libnvmf_import_tls_key_versioned True t")
        (auto simp: libnvmf_import_tls_key_def intro!: exI [of _ t])
  qed
next
  case False
  show ?thesis
  proof (cases "ot = KMIP_OBJ_SYMMETRIC_KEY \<and> (n = 32 \<or> n = 48)")
    case True
    then have k: "length (take n data) = n" "data = take n data @ drop n data" using assms(2) by auto
    obtain s where "kmip_psk_from_object True KMIP_OBJ_SYMMETRIC_KEY data n psk =
        (None, map of_char s @ 0 # drop (length s + 1) psk)" "NUL \<notin> set s" "length s < 128"
      "libnvmf_import_tls_key True s = Inr (if n = 32 then 1 else 2, take n data)"
      using psk_of_symmetric_key [of "take n data" psk "drop n data"] k True assms(1) by auto
    then show ?thesis using True assms(1) by auto
  next
    case other: False
    then show ?thesis using False assms by (auto simp: kmip_psk_from_object_def psk_from_symmetric_key_def)
  qed
qed

theorem kmip_psk_valid_or_cleared_witness:
  "fst (kmip_psk_from_object True KMIP_OBJ_SECRET_DATA [0x41, 0x0a] 2 (replicate 128 0)) = Some EMEDIUMTYPE \<and>
   length (snd (kmip_psk_from_object True KMIP_OBJ_SECRET_DATA [0x41, 0x0a] 2 (replicate 128 0))) = 128"
proof -
  have "strip_newlines [0x41, 0x0a] 2 = 1" by (simp add: strip_newlines.simps)
  then have "fst (kmip_psk_from_object True KMIP_OBJ_SECRET_DATA [0x41, 0x0a] 2 (replicate 128 0)) = Some EMEDIUMTYPE"
    by (simp add: kmip_psk_from_object_def psk_from_secret_data_def KMIP_PSK_MAX_def
        libnvmf_import_tls_key_versioned_def scan_tls_key_def shr_startswith_def)
  then show ?thesis using kmip_psk_valid_or_cleared [of "replicate 128 0" 2 "[0x41, 0x0a]" KMIP_OBJ_SECRET_DATA]
    by (simp add: split_beta)
qed

end
