(* ===== verification/Sha256.thy ===== *)
theory Sha256
  imports Prelude
begin

text \<open>
  SHA-256 and HMAC-SHA256, \<open>shared/sha256-util.c\<close>.  The context is the C struct: the chaining
  value, the count of processed bytes, and the 128-byte buffer with its fill level.  A memory
  copy into the buffer is \<open>blit\<close>, which makes the list longer when it leaves the buffer: the
  invariant's \<open>length (buffer ctx) = 128\<close> therefore says that no copy does.

  The lemmas show that however the data is cut into updates, and wherever it lies in memory, the
  context represents the concatenation, and that the final step hashes the padded message of
  FIPS 180-2.  The compression function is the one of the source.
\<close>

section \<open>Words and blocks\<close>

definition sha256_K :: "u32 list" where
  "sha256_K =
    0x428a2f98 # 0x71374491 # 0xb5c0fbcf # 0xe9b5dba5 # 0x3956c25b # 0x59f111f1 # 0x923f82a4 # 0xab1c5ed5 #
     0xd807aa98 # 0x12835b01 # 0x243185be # 0x550c7dc3 # 0x72be5d74 # 0x80deb1fe # 0x9bdc06a7 # 0xc19bf174 #
     0xe49b69c1 # 0xefbe4786 # 0x0fc19dc6 # 0x240ca1cc # 0x2de92c6f # 0x4a7484aa # 0x5cb0a9dc # 0x76f988da #
     0x983e5152 # 0xa831c66d # 0xb00327c8 # 0xbf597fc7 # 0xc6e00bf3 # 0xd5a79147 # 0x06ca6351 # 0x14292967 #
     0x27b70a85 # 0x2e1b2138 # 0x4d2c6dfc # 0x53380d13 # 0x650a7354 # 0x766a0abb # 0x81c2c92e # 0x92722c85 #
     0xa2bfe8a1 # 0xa81a664b # 0xc24b8b70 # 0xc76c51a3 # 0xd192e819 # 0xd6990624 # 0xf40e3585 # 0x106aa070 #
     0x19a4c116 # 0x1e376c08 # 0x2748774c # 0x34b0bcb5 # 0x391c0cb3 # 0x4ed8aa4a # 0x5b9cca4f # 0x682e6ff3 #
     0x748f82ee # 0x78a5636f # 0x84c87814 # 0x8cc70208 # 0x90befffa # 0xa4506ceb # 0xbef9a3f7 # 0xc67178f2 # []"

definition CYCLIC :: "u32 \<Rightarrow> nat \<Rightarrow> u32" where
  "CYCLIC w s = drop_bit s w OR push_bit (32 - s) w"

definition sha_Ch :: "u32 \<Rightarrow> u32 \<Rightarrow> u32 \<Rightarrow> u32" where
  "sha_Ch x y z = (x AND y) XOR (NOT x AND z)"

definition sha_Maj :: "u32 \<Rightarrow> u32 \<Rightarrow> u32 \<Rightarrow> u32" where
  "sha_Maj x y z = (x AND y) XOR (x AND z) XOR (y AND z)"

definition sha_S0 :: "u32 \<Rightarrow> u32" where "sha_S0 x = CYCLIC x 2 XOR CYCLIC x 13 XOR CYCLIC x 22"
definition sha_S1 :: "u32 \<Rightarrow> u32" where "sha_S1 x = CYCLIC x 6 XOR CYCLIC x 11 XOR CYCLIC x 25"
definition sha_R0 :: "u32 \<Rightarrow> u32" where "sha_R0 x = CYCLIC x 7 XOR CYCLIC x 18 XOR drop_bit 3 x"
definition sha_R1 :: "u32 \<Rightarrow> u32" where "sha_R1 x = CYCLIC x 17 XOR CYCLIC x 19 XOR drop_bit 10 x"

text \<open>\<open>SWAP\<close> of a word in memory: four bytes, most significant first, in either byte order.\<close>

definition be32 :: "bytes \<Rightarrow> u32" where
  "be32 bs = push_bit 24 (ucast (bs ! 0)) OR push_bit 16 (ucast (bs ! 1)) OR
     push_bit 8 (ucast (bs ! 2)) OR ucast (bs ! 3)"

definition to_be32 :: "u32 \<Rightarrow> bytes" where
  "to_be32 w = [ucast (drop_bit 24 w), ucast (drop_bit 16 w), ucast (drop_bit 8 w), ucast w]"

text \<open>The message schedule: sixteen words of the block, then 48 computed ones.\<close>

fun sched_ext :: "nat \<Rightarrow> u32 list \<Rightarrow> u32 list" where
  "sched_ext 0 W = W"
| "sched_ext (Suc n) W =
     (let t = length W
      in sched_ext n (W @ [sha_R1 (W ! (t - 2)) + W ! (t - 7) + sha_R0 (W ! (t - 15)) + W ! (t - 16)]))"

definition sha_sched :: "bytes \<Rightarrow> u32 list" where
  "sha_sched block = sched_ext 48 (map (\<lambda>t. be32 (drop (4 * t) block)) [0..<16])"

type_synonym sha_regs = "u32 \<times> u32 \<times> u32 \<times> u32 \<times> u32 \<times> u32 \<times> u32 \<times> u32"

fun sha_round :: "sha_regs \<Rightarrow> u32 \<times> u32 \<Rightarrow> sha_regs" where
  "sha_round (a, b, c, d, e, f, g, h) (k, w) =
     (let T1 = h + sha_S1 e + sha_Ch e f g + k + w; T2 = sha_S0 a + sha_Maj a b c
      in (T1 + T2, a, b, c, d + T1, e, f, g))"

fun sha_add :: "sha_regs \<Rightarrow> sha_regs \<Rightarrow> sha_regs" where
  "sha_add (a, b, c, d, e, f, g, h) (a', b', c', d', e', f', g', h') =
     (a + a', b + b', c + c', d + d', e + e', f + f', g + g', h + h')"

definition sha_block :: "sha_regs \<Rightarrow> bytes \<Rightarrow> sha_regs" where
  "sha_block st block = sha_add (foldl sha_round st (zip sha256_K (sha_sched block))) st"

text \<open>The loop over the blocks, \<open>nwords\<close> counting down by sixteen.\<close>

function sha_blocks :: "sha_regs \<Rightarrow> bytes \<Rightarrow> sha_regs" where
  "sha_blocks st bs = (if bs = [] then st else sha_blocks (sha_block st (take 64 bs)) (drop 64 bs))"
  by pat_completeness auto
termination by (relation "measure (length \<circ> snd)") auto

declare sha_blocks.simps [simp del]

section \<open>The context\<close>

record sha256_ctx =
  H :: "u32 list"
  total64 :: u64
  buflen :: nat
  buffer :: bytes

definition regs_of :: "u32 list \<Rightarrow> sha_regs" where
  "regs_of h = (h ! 0, h ! 1, h ! 2, h ! 3, h ! 4, h ! 5, h ! 6, h ! 7)"

fun regs_list :: "sha_regs \<Rightarrow> u32 list" where
  "regs_list (a, b, c, d, e, f, g, h) = [a, b, c, d, e, f, g, h]"

definition sha256_process_block :: "bytes \<Rightarrow> nat \<Rightarrow> sha256_ctx \<Rightarrow> sha256_ctx" where
  "sha256_process_block buf len ctx =
     ctx\<lparr>total64 := total64 ctx + of_nat len,
         H := regs_list (sha_blocks (regs_of (H ctx)) (take len buf))\<rparr>"

definition shr_sha256_init :: "sha256_ctx \<Rightarrow> sha256_ctx" where
  "shr_sha256_init ctx = ctx\<lparr>
     H := [0x6a09e667, 0xbb67ae85, 0x3c6ef372, 0xa54ff53a,
           0x510e527f, 0x9b05688c, 0x1f83d9ab, 0x5be0cd19],
     total64 := 0, buflen := 0\<rparr>"

text \<open>\<open>shr_sha256_update\<close> in its three parts; each returns the context and the data that is
  left.  First, what goes behind already buffered bytes.\<close>

definition sha256_update_buffered :: "bytes \<Rightarrow> sha256_ctx \<Rightarrow> sha256_ctx \<times> bytes" where
  "sha256_update_buffered dat ctx =
     (if buflen ctx \<noteq> 0 then
        (let len = length dat;
             left_over = buflen ctx;
             add = (if 128 - left_over > len then len else 128 - left_over);
             ctx1 = ctx\<lparr>buffer := blit left_over (take add dat) (buffer ctx), buflen := left_over + add\<rparr>;
             ctx2 = (if buflen ctx1 > 64 then
                       (let c = (sha256_process_block (buffer ctx1) (buflen ctx1 div 64 * 64) ctx1)
                                  \<lparr>buflen := buflen ctx1 mod 64\<rparr>
                        in c\<lparr>buffer := blit 0 (take (buflen c) (drop ((left_over + add) div 64 * 64) (buffer c)))
                                         (buffer c)\<rparr>)
                     else ctx1)
         in (ctx2, drop add dat))
      else (ctx, dat))"

text \<open>Then the complete blocks, from the data itself when it is aligned, else through the
  buffer.  \<open>addr\<close> is the address of the data.\<close>

function sha256_unaligned_loop :: "bytes \<Rightarrow> sha256_ctx \<Rightarrow> sha256_ctx \<times> bytes" where
  "sha256_unaligned_loop dat ctx =
     (if length dat > 64 then
        (let c = ctx\<lparr>buffer := blit 0 (take 64 dat) (buffer ctx)\<rparr>
         in sha256_unaligned_loop (drop 64 dat) (sha256_process_block (buffer c) 64 c))
      else (ctx, dat))"
  by pat_completeness auto
termination by (relation "measure (length \<circ> fst)") auto

declare sha256_unaligned_loop.simps [simp del]

definition sha256_update_blocks :: "nat \<Rightarrow> bytes \<Rightarrow> sha256_ctx \<Rightarrow> sha256_ctx \<times> bytes" where
  "sha256_update_blocks addr dat ctx =
     (let len = length dat
      in if len \<ge> 64 then
           (if addr mod 4 = 0
            then (sha256_process_block dat (len div 64 * 64) ctx, drop (len div 64 * 64) dat)
            else sha256_unaligned_loop dat ctx)
         else (ctx, dat))"

text \<open>Last, the rest goes into the buffer.\<close>

definition sha256_update_rest :: "bytes \<Rightarrow> sha256_ctx \<Rightarrow> sha256_ctx" where
  "sha256_update_rest dat ctx =
     (if length dat > 0 then
        (let left_over = buflen ctx;
             ctx1 = ctx\<lparr>buffer := blit left_over dat (buffer ctx)\<rparr>;
             left_over1 = left_over + length dat
         in if left_over1 \<ge> 64 then
              (let c = sha256_process_block (buffer ctx1) 64 ctx1
               in c\<lparr>buffer := blit 0 (take (left_over1 - 64) (drop 64 (buffer c))) (buffer c),
                    buflen := left_over1 - 64\<rparr>)
            else ctx1\<lparr>buflen := left_over1\<rparr>)
      else ctx)"

definition shr_sha256_update :: "nat \<Rightarrow> bytes \<Rightarrow> sha256_ctx \<Rightarrow> sha256_ctx" where
  "shr_sha256_update addr dat ctx =
     (case sha256_update_buffered dat ctx of (ctx1, dat1) \<Rightarrow>
        (case sha256_update_blocks (addr + (length dat - length dat1)) dat1 ctx1 of
           (ctx2, dat2) \<Rightarrow> sha256_update_rest dat2 ctx2))"

definition fillbuf :: bytes where
  "fillbuf = 0x80 # replicate 63 0"

definition total_low :: "u64 \<Rightarrow> u32" where "total_low t = ucast t"
definition total_high :: "u64 \<Rightarrow> u32" where "total_high t = ucast (drop_bit 32 t)"

definition shr_sha256_final :: "sha256_ctx \<Rightarrow> sha256_ctx \<times> bytes" where
  "shr_sha256_final ctx =
     (let bytes = buflen ctx;
          ctx1 = ctx\<lparr>total64 := total64 ctx + of_nat bytes\<rparr>;
          pad = (if bytes \<ge> 56 then 64 + 56 - bytes else 56 - bytes);
          buf1 = blit bytes (take pad fillbuf) (buffer ctx1);
          buf2 = blit ((bytes + pad + 4) div 4 * 4) (to_be32 (push_bit 3 (total_low (total64 ctx1)))) buf1;
          buf3 = blit ((bytes + pad) div 4 * 4)
                   (to_be32 (push_bit 3 (total_high (total64 ctx1)) OR drop_bit 29 (total_low (total64 ctx1)))) buf2;
          ctx2 = sha256_process_block buf3 (bytes + pad + 8) (ctx1\<lparr>buffer := buf3\<rparr>)
      in (ctx2, concat (map (\<lambda>i. to_be32 (H ctx2 ! i)) [0..<8])))"

text \<open>\<open>stack\<close> is the uninitialised context on the stack.\<close>

definition shr_sha256 :: "sha256_ctx \<Rightarrow> nat \<Rightarrow> bytes \<Rightarrow> bytes" where
  "shr_sha256 stack addr dat =
     snd (shr_sha256_final (shr_sha256_update addr dat (shr_sha256_init stack)))"

text \<open>HMAC: the paddings are fresh arrays on the stack, at some addresses; \<open>shr_assert\<close>
  stops the program on an empty key.\<close>

definition shr_hmac_sha256_raw ::
  "sha256_ctx \<Rightarrow> (nat \<Rightarrow> nat) \<Rightarrow> bytes \<Rightarrow> bytes \<Rightarrow> bytes option" where
  "shr_hmac_sha256_raw stack addr key dat =
     (if length key > 0 then
        (let key1 = (if length key > 64 then shr_sha256 stack (addr 0) key else key);
             inner_padding = map (\<lambda>b. b XOR 0x36) (blit 0 key1 (replicate 64 0));
             outer_padding = map (\<lambda>b. b XOR 0x5c) (blit 0 key1 (replicate 64 0));
             h1 = shr_sha256_update (addr 2) dat
                    (shr_sha256_update (addr 1) inner_padding (shr_sha256_init stack));
             (h2, out) = shr_sha256_final h1;
             h3 = shr_sha256_update (addr 4) out
                    (shr_sha256_update (addr 3) outer_padding (shr_sha256_init h2))
         in Some (snd (shr_sha256_final h3)))
      else None)"

section \<open>Reference: FIPS 180-2 on a whole message\<close>

definition sha_H0 :: "u32 list" where
  "sha_H0 = [0x6a09e667, 0xbb67ae85, 0x3c6ef372, 0xa54ff53a,
             0x510e527f, 0x9b05688c, 0x1f83d9ab, 0x5be0cd19]"

definition to_be64 :: "u64 \<Rightarrow> bytes" where
  "to_be64 w = map (\<lambda>k. ucast (drop_bit k w)) [56, 48, 40, 32, 24, 16, 8, 0]"

definition sha_pad :: "bytes \<Rightarrow> bytes" where
  "sha_pad m = m @ 0x80 # replicate ((119 - length m mod 64) mod 64) 0 @ to_be64 (of_nat (8 * length m))"

definition chain :: "u32 list \<Rightarrow> bytes \<Rightarrow> u32 list" where
  "chain h bs = regs_list (sha_blocks (regs_of h) bs)"

definition sha256_fips :: "bytes \<Rightarrow> bytes" where
  "sha256_fips m = concat (map to_be32 (chain sha_H0 (sha_pad m)))"

definition hmac_fips :: "bytes \<Rightarrow> bytes \<Rightarrow> bytes" where
  "hmac_fips key m =
     (let k = (if length key > 64 then sha256_fips key else key); k0 = k @ replicate (64 - length k) 0
      in sha256_fips (map (\<lambda>b. b XOR 0x5c) k0 @ sha256_fips (map (\<lambda>b. b XOR 0x36) k0 @ m)))"

lemma regs_of_list [simp]: "regs_of (regs_list r) = r"
  by (cases r rule: regs_list.cases) (simp add: regs_of_def)

lemma chain_length [simp]: "length (chain h bs) = 8"
  unfolding chain_def by (cases "sha_blocks (regs_of h) bs" rule: regs_list.cases) simp

lemma sha_blocks_append:
  "64 dvd length x \<Longrightarrow> sha_blocks st (x @ y) = sha_blocks (sha_blocks st x) y"
proof (induction st x rule: sha_blocks.induct)
  case (1 st x)
  show ?case
  proof (cases "x = []")
    case False
    then have l: "64 \<le> length x" using "1.prems" by (auto intro: dvd_imp_le)
    then have "sha_blocks st (x @ y) = sha_blocks (sha_block st (take 64 x)) (drop 64 x @ y)"
      using False by (subst sha_blocks.simps) simp
    also have "\<dots> = sha_blocks (sha_blocks (sha_block st (take 64 x)) (drop 64 x)) y"
      using False l "1.prems" by (intro "1.IH") (simp_all add: dvd_diff_nat)
    also have "\<dots> = sha_blocks (sha_blocks st x) y" using False by (subst (3) sha_blocks.simps) simp
    finally show ?thesis .
  qed (simp add: sha_blocks.simps)
qed

lemma chain_append: "64 dvd length x \<Longrightarrow> chain h (x @ y) = chain (chain h x) y"
  by (simp add: chain_def sha_blocks_append)

lemma process_block_fields [simp]:
  "H (sha256_process_block buf len ctx) = chain (H ctx) (take len buf)"
  "total64 (sha256_process_block buf len ctx) = total64 ctx + of_nat len"
  "buflen (sha256_process_block buf len ctx) = buflen ctx"
  "buffer (sha256_process_block buf len ctx) = buffer ctx"
  by (simp_all add: sha256_process_block_def chain_def)

section \<open>What a context represents\<close>

text \<open>\<open>k\<close> blocks of the message are hashed, the rest (at most one full block) is buffered.\<close>

definition sha_rep_at :: "nat \<Rightarrow> bytes \<Rightarrow> sha256_ctx \<Rightarrow> bool" where
  "sha_rep_at k m ctx \<longleftrightarrow> 64 * k \<le> length m \<and> H ctx = chain sha_H0 (take (64 * k) m) \<and>
     total64 ctx = of_nat (64 * k) \<and> buflen ctx = length m - 64 * k \<and> buflen ctx \<le> 64 \<and>
     length (buffer ctx) = 128 \<and> take (buflen ctx) (buffer ctx) = drop (64 * k) m"

definition sha_rep :: "bytes \<Rightarrow> sha256_ctx \<Rightarrow> bool" where
  "sha_rep m ctx \<longleftrightarrow> (\<exists>k. sha_rep_at k m ctx)"

lemma sha_rep_init: "length (buffer ctx) = 128 \<Longrightarrow> sha_rep [] (shr_sha256_init ctx)"
  unfolding sha_rep_def
  by (rule exI [of _ 0])
    (simp add: sha_rep_at_def shr_sha256_init_def sha_H0_def chain_def sha_blocks.simps regs_of_def)

text \<open>The bytes that follow the hashed part, hashed as whole blocks.\<close>

lemma sha_rep_advance:
  assumes "sha_rep_at k m ctx" "length (take (buflen ctx) (buffer ctx) @ x) = 64 * j"
    and "H ctx' = chain (H ctx) (take (buflen ctx) (buffer ctx) @ x)"
    and "total64 ctx' = total64 ctx + of_nat (64 * j)" "buflen ctx' = length y" "length y \<le> 64"
    and "length (buffer ctx') = 128" "take (length y) (buffer ctx') = y"
  shows "sha_rep_at (k + j) (m @ x @ y) ctx'"
proof -
  have m: "m = take (64 * k) m @ take (buflen ctx) (buffer ctx)"
    using assms(1) append_take_drop_id [of "64 * k" m] unfolding sha_rep_at_def by metis
  have lk: "length (take (64 * k) m) = 64 * k" using assms(1) by (simp add: sha_rep_at_def)
  have lm: "length m + length x = 64 * (k + j)"
    using arg_cong [OF m, of length] assms(2) lk by simp
  have t: "take (64 * (k + j)) (m @ x @ y) = take (64 * k) m @ (take (buflen ctx) (buffer ctx) @ x)"
    using lm m by simp
  have "H ctx' = chain sha_H0 (take (64 * (k + j)) (m @ x @ y))"
    unfolding t using assms(1,3) lk by (subst chain_append) (simp_all add: sha_rep_at_def)
  moreover have "total64 ctx' = of_nat (64 * (k + j))"
    using assms(1,4) by (simp add: sha_rep_at_def algebra_simps)
  moreover have "drop (64 * (k + j)) (m @ x @ y) = y" using lm by simp
  moreover have "64 * (k + j) \<le> length (m @ x @ y)" using lm by simp
  moreover have "length (m @ x @ y) - 64 * (k + j) = length y" using lm by simp
  ultimately show ?thesis using assms(5-8) by (simp add: sha_rep_at_def)
qed

lemma take_blit_0: "length xs \<le> length buf \<Longrightarrow> n \<le> length xs \<Longrightarrow> take n (blit 0 xs buf) = take n xs"
  by (simp add: blit_def)

lemma update_buffered_rep:
  assumes "sha_rep m ctx" "sha256_update_buffered dat ctx = (ctx', dat')"
  shows "\<exists>x. dat = x @ dat' \<and> sha_rep (m @ x) ctx' \<and> (dat' \<noteq> [] \<longrightarrow> buflen ctx' = 0)"
proof (cases "buflen ctx = 0")
  case True
  then show ?thesis using assms by (intro exI [of _ "[]"]) (auto simp: sha256_update_buffered_def)
next
  case False
  obtain k where k: "sha_rep_at k m ctx" using assms(1) by (auto simp: sha_rep_def)
  define b where "b = buflen ctx"
  define add where "add = (if 128 - b > length dat then length dat else 128 - b)"
  define x where "x = take add dat"
  define buf where "buf = blit b x (buffer ctx)"
  have b: "0 < b" "b \<le> 64" "length (buffer ctx) = 128" "add \<le> length dat" "add \<le> 128 - b"
    using k False by (auto simp: b_def sha_rep_at_def add_def)
  have x: "length x = add" "dat = x @ drop add dat" using b by (simp_all add: x_def)
  have lbuf: "length buf = 128" using b x by (simp add: buf_def length_blit)
  have tbuf: "take (b + add) buf = take b (buffer ctx) @ x"
    using b x take_blit_end [of b "buffer ctx" x] by (simp add: buf_def)
  have dat': "dat' = drop add dat"
    using assms(2) False
    by (simp add: sha256_update_buffered_def Let_def b_def [symmetric] add_def [symmetric])
  show ?thesis
  proof (cases "b + add > 64")
    case True
    let ?q = "(b + add) div 64 * 64" and ?r = "(b + add) mod 64"
    define y where "y = drop ?q (take (b + add) buf)"
    have ctx': "H ctx' = chain (H ctx) (take ?q buf)" "total64 ctx' = total64 ctx + of_nat ?q"
      "buflen ctx' = ?r" "buffer ctx' = blit 0 (take ?r (drop ?q buf)) buf"
      using assms(2) False True
      by (auto simp: sha256_update_buffered_def Let_def b_def [symmetric] add_def [symmetric]
          x_def [symmetric] buf_def [symmetric])
    have q: "?q \<le> b + add" "b + add - ?q = ?r" by (simp_all add: minus_div_mult_eq_mod)
    have y: "y = take ?r (drop ?q buf)" "length y = ?r" using q b lbuf
      by (simp_all add: y_def drop_take del: minus_div_mult_eq_mod)
    have split: "take (b + add) buf = take ?q buf @ y"
      using q unfolding y_def by (metis append_take_drop_id min.absorb1 take_take)
    have "0 < (b + add) div 64" using True by (simp add: div_greater_zero_iff)
    then have bq: "b \<le> ?q" using b by linarith
    define x1 where "x1 = drop b (take ?q buf)"
    have "take b (take ?q buf) = take b (buffer ctx)"
      using arg_cong [OF tbuf, of "take b"] bq b by (simp add: min_absorb1)
    then have x1: "take ?q buf = take b (buffer ctx) @ x1"
      using append_take_drop_id [of b "take ?q buf"] by (simp add: x1_def)
    then have "x = x1 @ y" using split tbuf by simp
    note x1 = this x1
    have "sha_rep_at (k + (b + add) div 64) (m @ x1 @ y) ctx'"
    proof (rule sha_rep_advance [OF k])
      show "length (take (buflen ctx) (buffer ctx) @ x1) = 64 * ((b + add) div 64)"
        using arg_cong [OF x1(2), of length] q b lbuf by (simp add: b_def mult.commute)
      show "H ctx' = chain (H ctx) (take (buflen ctx) (buffer ctx) @ x1)"
        using ctx'(1) x1(2) by (simp add: b_def)
      show "total64 ctx' = total64 ctx + of_nat (64 * ((b + add) div 64))"
        using ctx'(2) by (simp add: mult.commute)
      show "buflen ctx' = length y" "length y \<le> 64" using ctx'(3) y(2)
        by (simp_all add: less_imp_le)
      have r: "?r \<le> 128" using mod_less_divisor [of 64 "b + add"] by linarith
      have ly: "length (take ?r (drop ?q buf)) = ?r" using y by simp
      show "length (buffer ctx') = 128" using ctx'(4) lbuf ly r by (simp only: length_blit add_0)
      show "take (length y) (buffer ctx') = y"
        using ctx'(4) y ly lbuf r take_blit_0 [of "take ?r (drop ?q buf)" buf ?r] by simp
    qed
    moreover have "buflen ctx' = 0" if "dat' \<noteq> []"
      using that dat' b ctx'(3) by (auto simp: add_def split: if_splits)
    ultimately show ?thesis using x x1(1) dat' by (metis sha_rep_def)
  next
    case le: False
    have "ctx' = ctx\<lparr>buffer := buf, buflen := b + add\<rparr>"
      using assms(2) False le
      by (auto simp: sha256_update_buffered_def Let_def b_def [symmetric] add_def [symmetric]
          x_def [symmetric] buf_def [symmetric])
    then have "sha_rep_at k (m @ x) ctx'"
      using k le lbuf tbuf x by (auto simp: sha_rep_at_def b_def)
    moreover have "dat' = []" using dat' le b by (auto simp: add_def split: if_splits)
    ultimately show ?thesis using x dat' by (metis append_Nil2 sha_rep_def)
  qed
qed

lemma rep_at_empty_buffer:
  assumes "sha_rep_at k m ctx" "buflen ctx = 0" "length x = 64 * j"
    and "H ctx' = chain (H ctx) x" "total64 ctx' = total64 ctx + of_nat (64 * j)"
    and "buflen ctx' = 0" "length (buffer ctx') = 128"
  shows "sha_rep_at (k + j) (m @ x) ctx'"
  using sha_rep_advance [OF assms(1), of x j ctx' "[]"] assms(2-7) by simp

lemma unaligned_loop_rep:
  assumes "sha_rep m ctx" "buflen ctx = 0" "sha256_unaligned_loop dat ctx = (ctx', dat')"
  shows "\<exists>x. dat = x @ dat' \<and> sha_rep (m @ x) ctx' \<and> buflen ctx' = 0 \<and> length dat' \<le> 64"
  using assms
proof (induction dat ctx arbitrary: m rule: sha256_unaligned_loop.induct)
  case (1 dat ctx)
  show ?case
  proof (cases "length dat > 64")
    case True
    obtain k where k: "sha_rep_at k m ctx" using "1.prems"(1) by (auto simp: sha_rep_def)
    let ?c = "ctx\<lparr>buffer := blit 0 (take 64 dat) (buffer ctx)\<rparr>"
    let ?p = "sha256_process_block (buffer ?c) 64 ?c"
    have l: "length (take 64 dat) = 64" "length (buffer ctx) = 128"
      using True k by (simp_all add: sha_rep_at_def)
    have "sha_rep_at (k + 1) (m @ take 64 dat) ?p"
      by (rule rep_at_empty_buffer [OF k "1.prems"(2)])
        (use l "1.prems"(2) in \<open>simp_all add: length_blit take_blit_0\<close>)
    then have p: "sha_rep (m @ take 64 dat) ?p" by (auto simp: sha_rep_def)
    have "sha256_unaligned_loop (drop 64 dat) ?p = (ctx', dat')"
      using "1.prems"(3) True by (subst (asm) sha256_unaligned_loop.simps) (simp add: Let_def)
    then obtain x where x: "drop 64 dat = x @ dat'" "sha_rep ((m @ take 64 dat) @ x) ctx'"
      "buflen ctx' = 0" "length dat' \<le> 64"
      using "1.IH" [OF True refl p] "1.prems"(2) by auto
    have "dat = (take 64 dat @ x) @ dat'" using x(1) append_take_drop_id [of 64 dat] by simp
    then show ?thesis using x(2-4) by (intro exI [of _ "take 64 dat @ x"]) simp
  next
    case False
    then show ?thesis using "1.prems"
      by (intro exI [of _ "[]"]) (auto simp: sha256_unaligned_loop.simps)
  qed
qed

lemma update_blocks_rep:
  assumes "sha_rep m ctx" "buflen ctx = 0" "sha256_update_blocks addr dat ctx = (ctx', dat')"
  shows "\<exists>x. dat = x @ dat' \<and> sha_rep (m @ x) ctx' \<and> buflen ctx' = 0 \<and> length dat' \<le> 64"
proof (cases "length dat \<ge> 64 \<and> addr mod 4 = 0")
  case True
  let ?q = "length dat div 64 * 64"
  obtain k where k: "sha_rep_at k m ctx" using assms(1) by (auto simp: sha_rep_def)
  have c: "ctx' = sha256_process_block dat ?q ctx" "dat' = drop ?q dat"
    using assms(3) True by (simp_all add: sha256_update_blocks_def Let_def)
  have q: "?q \<le> length dat" by simp
  have "sha_rep_at (k + length dat div 64) (m @ take ?q dat) ctx'"
    using k by (intro rep_at_empty_buffer [OF k assms(2)])
      (simp_all add: c q assms(2) mult.commute sha_rep_at_def)
  moreover have "length dat' \<le> 64" unfolding c(2) length_drop minus_div_mult_eq_mod
    by (simp add: less_imp_le)
  ultimately show ?thesis using c assms(2)
    by (intro exI [of _ "take ?q dat"]) (auto simp: sha_rep_def)
next
  case False
  then show ?thesis
    using assms unaligned_loop_rep [OF assms(1,2), of dat ctx' dat']
    by (auto simp: sha256_update_blocks_def Let_def split: if_splits)
qed

lemma update_rest_rep:
  assumes "sha_rep m ctx" "dat = [] \<or> buflen ctx = 0" "length dat \<le> 64"
  shows "sha_rep (m @ dat) (sha256_update_rest dat ctx)"
proof (cases "dat = []")
  case False
  with assms(2) have b: "buflen ctx = 0" by simp
  obtain k where k: "sha_rep_at k m ctx" using assms(1) by (auto simp: sha_rep_def)
  have l: "length (buffer ctx) = 128" using k by (simp add: sha_rep_at_def)
  show ?thesis
  proof (cases "length dat = 64")
    case True
    then have "sha_rep_at (k + 1) (m @ dat) (sha256_update_rest dat ctx)"
      by (intro rep_at_empty_buffer [OF k b])
        (use False l b in \<open>simp_all add: sha256_update_rest_def Let_def length_blit take_blit_0\<close>)
    then show ?thesis by (auto simp: sha_rep_def)
  next
    case lt: False
    then have "sha_rep_at k (m @ dat) (sha256_update_rest dat ctx)"
      using k b l False assms(3)
      by (auto simp: sha_rep_at_def sha256_update_rest_def Let_def length_blit take_blit_0)
    then show ?thesis by (auto simp: sha_rep_def)
  qed
qed (use assms in \<open>simp add: sha256_update_rest_def\<close>)

lemma update_rep:
  assumes "sha_rep m ctx"
  shows "sha_rep (m @ dat) (shr_sha256_update addr dat ctx)"
proof -
  obtain c1 d1 where 1: "sha256_update_buffered dat ctx = (c1, d1)" by fastforce
  obtain x where x: "dat = x @ d1" "sha_rep (m @ x) c1" "d1 \<noteq> [] \<longrightarrow> buflen c1 = 0"
    using update_buffered_rep [OF assms 1] by blast
  obtain c2 d2 where 2: "sha256_update_blocks (addr + (length dat - length d1)) d1 c1 = (c2, d2)"
    by fastforce
  obtain y where y: "d1 = y @ d2" "sha_rep ((m @ x) @ y) c2" "d2 = [] \<or> buflen c2 = 0" "length d2 \<le> 64"
  proof (cases "d1 = []")
    case True
    with 2 x(2) show ?thesis by (intro that [of "[]"]) (auto simp: sha256_update_blocks_def)
  next
    case False
    with x(3) update_blocks_rep [OF x(2) _ 2] show ?thesis by (metis that)
  qed
  have "shr_sha256_update addr dat ctx = sha256_update_rest d2 c2"
    by (simp add: shr_sha256_update_def 1 2)
  then show ?thesis using update_rest_rep [OF y(2,3,4)] x(1) y(1) by simp
qed

section \<open>The final step\<close>

lemma to_be64_halves:
  "to_be32 (push_bit 3 (total_high t) OR drop_bit 29 (total_low t)) @ to_be32 (push_bit 3 (total_low t)) =
   to_be64 (push_bit 3 t)"
proof -
  define u where "u = push_bit 3 t"
  have lo: "push_bit 3 (total_low t) = ucast u"
    unfolding total_low_def u_def by (rule bit_eqI) (simp only: bit_simps, auto)
  have hi: "push_bit 3 (total_high t) OR drop_bit 29 (total_low t) = ucast (drop_bit 32 u)"
    unfolding total_low_def total_high_def u_def
    by (rule bit_eqI) (simp only: bit_simps, auto simp: bit_simps)
  have "to_be32 (ucast (drop_bit 32 u)) @ to_be32 (ucast u) = to_be64 u"
    unfolding to_be32_def to_be64_def
    by (simp, intro conjI; rule bit_eqI) (auto simp: bit_simps)
  then show ?thesis by (simp only: lo hi u_def)
qed

lemma take_fillbuf: "0 < n \<Longrightarrow> n \<le> 64 \<Longrightarrow> take n fillbuf = 0x80 # replicate (n - 1) 0"
  by (cases n) (auto simp: fillbuf_def)

lemma blit_append:
  "length pre = off \<Longrightarrow> blit off xs (pre @ rest) = pre @ xs @ drop (length xs) rest"
  by (simp add: blit_def)

lemma final_digest:
  assumes "sha_rep m ctx"
  shows "snd (shr_sha256_final ctx) = sha256_fips m \<and> length (buffer (fst (shr_sha256_final ctx))) = 128"
proof -
  obtain k where k: "sha_rep_at k m ctx" using assms by (auto simp: sha_rep_def)
  define b where "b = buflen ctx"
  define pad where "pad = (if b \<ge> 56 then 64 + 56 - b else 56 - b)"
  define t where "t = total64 ctx + of_nat b"
  define tl where "tl = drop (64 * k) m"
  have b: "b \<le> 64" "length m = 64 * k + b" "length tl = b" "length (buffer ctx) = 128"
    "take b (buffer ctx) = tl" using k by (auto simp: sha_rep_at_def b_def tl_def)
  have pad: "0 < pad" "pad \<le> 64" "b + pad = 56 \<or> b + pad = 120" using b by (auto simp: pad_def)
  have zeros: "(119 - length m mod 64) mod 64 = pad - 1"
  proof -
    have "length m mod 64 = b mod 64" using b(2) by simp
    moreover have "(119 - b mod 64) mod 64 = pad - 1"
    proof (cases "b = 64 \<or> b \<ge> 56")
      case False
      then have "119 - b mod 64 = (55 - b) + 64" by simp
      then have "(119 - b mod 64) mod 64 = (55 - b) mod 64" by (simp only: mod_add_self2)
      then show ?thesis using False by (simp add: pad_def)
    qed (use b(1) in \<open>auto simp: pad_def le_less\<close>)
    ultimately show ?thesis by simp
  qed
  have t: "push_bit 3 t = of_nat (8 * length m)"
    using k b(2) by (simp add: t_def sha_rep_at_def b_def push_bit_eq_mult)
  obtain rest where buf: "buffer ctx = tl @ rest" "length rest = 128 - b"
    using b by (metis append_take_drop_id length_drop)
  define hi lo where "hi = to_be32 (push_bit 3 (total_high t) OR drop_bit 29 (total_low t))"
    and "lo = to_be32 (push_bit 3 (total_low t))"
  define buf3 where "buf3 = blit ((b + pad) div 4 * 4) hi (blit ((b + pad + 4) div 4 * 4) lo
    (blit b (take pad fillbuf) (buffer ctx)))"
  have len: "length hi = 4" "length lo = 4" by (simp_all add: hi_def lo_def to_be32_def)
  have buf3: "take (b + pad + 8) buf3 = tl @ take pad fillbuf @ hi @ lo" "length buf3 = 128"
  proof -
    have p4: "(b + pad) div 4 * 4 = b + pad" "(b + pad + 4) div 4 * 4 = b + pad + 4"
      "b + pad + 8 \<le> 128" using pad(3) by auto
    have X: "length (take pad fillbuf) = pad" using pad by (simp add: fillbuf_def)
    define D where "D = drop pad rest"
    have lD: "length D \<ge> 8" using buf(2) p4(3) by (simp add: D_def)
    define r0 r1 r2 where rr: "r0 = take 4 D" "r1 = take 4 (drop 4 D)" "r2 = drop 4 (drop 4 D)"
    have r: "drop pad rest = r0 @ r1 @ r2" "length r0 = 4" "length r1 = 4"
      using lD unfolding D_def [symmetric] rr append_take_drop_id by simp_all
    have 1: "blit b (take pad fillbuf) (buffer ctx) = tl @ take pad fillbuf @ r0 @ r1 @ r2"
      unfolding buf(1) blit_append [OF b(3)] X r(1) ..
    have 2: "blit (b + pad + 4) lo (tl @ take pad fillbuf @ r0 @ r1 @ r2) =
        tl @ take pad fillbuf @ r0 @ lo @ r2"
      using blit_append [of "tl @ take pad fillbuf @ r0" "b + pad + 4" lo "r1 @ r2"] b(3) X r len by simp
    have 3: "blit (b + pad) hi (tl @ take pad fillbuf @ r0 @ lo @ r2) =
        tl @ take pad fillbuf @ hi @ lo @ r2"
      using blit_append [of "tl @ take pad fillbuf" "b + pad" hi "r0 @ lo @ r2"] b(3) X r len by simp
    have "buf3 = tl @ take pad fillbuf @ hi @ lo @ r2" by (simp only: buf3_def p4 1 2 3)
    then show "take (b + pad + 8) buf3 = tl @ take pad fillbuf @ hi @ lo" "length buf3 = 128"
      using b(3) X len arg_cong [OF r(1), of length] buf(2) r(2,3) p4(3) by simp_all
  qed
  have fin: "shr_sha256_final ctx = (let c = sha256_process_block buf3 (b + pad + 8)
      (ctx\<lparr>total64 := t, buffer := buf3\<rparr>) in (c, concat (map (\<lambda>i. to_be32 (H c ! i)) [0..<8])))"
    by (simp add: shr_sha256_final_def Let_def b_def [symmetric] pad_def [symmetric] t_def [symmetric]
        hi_def [symmetric] lo_def [symmetric] buf3_def [symmetric])
  have "sha_pad m = take (64 * k) m @ tl @ take pad fillbuf @ hi @ lo"
    using pad by (simp add: sha_pad_def zeros take_fillbuf hi_def lo_def to_be64_halves t tl_def)
  then have "chain sha_H0 (sha_pad m) = chain (H ctx) (take (b + pad + 8) buf3)"
    using k b(2) by (simp add: chain_append buf3 sha_rep_at_def)
  moreover have "map (\<lambda>i. to_be32 (h ! i)) [0..<8] = map to_be32 h" if "length h = 8" for h :: "u32 list"
    using that by (intro nth_equalityI) auto
  ultimately show ?thesis using buf3(2) by (simp add: fin Let_def sha256_fips_def)
qed

lemma sha256_exact:
  assumes "length (buffer stack) = 128"
  shows "shr_sha256 stack addr dat = sha256_fips dat"
  using final_digest [OF update_rep [OF sha_rep_init [OF assms]]] by (simp add: shr_sha256_def)

lemma sha_rep_bounds: "sha_rep m ctx \<Longrightarrow> buflen ctx \<le> 64 \<and> length (buffer ctx) = 128"
  by (auto simp: sha_rep_def sha_rep_at_def)

lemma sha256_updates_exact:
  assumes "sha_rep m ctx"
  shows "sha_rep (m @ concat (map snd ups)) (foldl (\<lambda>c (addr, d). shr_sha256_update addr d c) ctx ups)"
  using assms
proof (induction ups arbitrary: m ctx)
  case (Cons u ups)
  then show ?case using Cons.IH [OF update_rep [OF Cons.prems, of "snd u" "fst u"]]
    by (simp add: case_prod_beta)
qed simp

text \<open>C26: However a message is cut into calls of \<open>shr_sha256_update\<close>, whatever the alignment of
  each piece, starting from any uninitialised context, the digest is the FIPS 180-2 hash of the
  concatenated pieces (padding and 64-bit length included), and no copy leaves the 128-byte
  buffer.\<close>

theorem sha256_streaming:
  assumes "length (buffer stack) = 128"
  shows "let ctx = foldl (\<lambda>c (addr, d). shr_sha256_update addr d c) (shr_sha256_init stack) ups;
             (ctx', digest) = shr_sha256_final ctx
         in digest = sha256_fips (concat (map snd ups)) \<and> length (buffer ctx) = 128 \<and>
            buflen ctx \<le> 64 \<and> length (buffer ctx') = 128"
proof -
  let ?c = "foldl (\<lambda>c (addr, d). shr_sha256_update addr d c) (shr_sha256_init stack) ups"
  have rep: "sha_rep (concat (map snd ups)) ?c"
    using sha256_updates_exact [OF sha_rep_init [OF assms], of ups] by simp
  show ?thesis using final_digest [OF rep] sha_rep_bounds [OF rep]
    unfolding Let_def by (simp add: case_prod_beta)
qed

theorem sha256_streaming_witness:
  "let ctx = foldl (\<lambda>c (addr, d). shr_sha256_update addr d c)
       (shr_sha256_init \<lparr>H = [], total64 = 7, buflen = 9, buffer = replicate 128 0\<rparr>)
       [(0, [1, 2, 3]), (1, replicate 100 5)];
     (ctx', digest) = shr_sha256_final ctx
   in digest = sha256_fips ([1, 2, 3] @ replicate 100 5) \<and> length (buffer ctx) = 128 \<and>
      buflen ctx \<le> 64 \<and> length (buffer ctx') = 128"
  using sha256_streaming [of "\<lparr>H = [], total64 = 7, buflen = 9, buffer = replicate 128 0\<rparr>"
      "[(0, [1, 2, 3]), (1, replicate 100 5)]"]
  by simp

text \<open>\<open>shr_hmac_sha256_raw\<close> computes the HMAC of FIPS 198 for every non-empty key: keys longer
  than a block are hashed first, shorter ones zero-padded, and the inner and outer digests are
  those of the padded key followed by the data and by the inner digest.\<close>

theorem hmac_sha256_exact:
  assumes "length (buffer stack) = 128" "key \<noteq> []"
  shows "shr_hmac_sha256_raw stack addr key dat = Some (hmac_fips key dat)"
proof -
  define k where "k = (if length key > 64 then sha256_fips key else key)"
  define k0 where "k0 = k @ replicate (64 - length k) 0"
  define ipad opad where "ipad = map (\<lambda>b. b XOR 0x36) k0" and "opad = map (\<lambda>b. b XOR 0x5c) k0"
  have blit: "blit 0 k (replicate 64 0) = k0" by (simp add: blit_def k0_def)
  have key1: "(if length key > 64 then shr_sha256 stack (addr 0) key else key) = k"
    by (simp add: k_def sha256_exact [OF assms(1)])
  define h1 where
    "h1 = shr_sha256_update (addr 2) dat (shr_sha256_update (addr 1) ipad (shr_sha256_init stack))"
  have h1: "sha_rep (ipad @ dat) h1"
    using update_rep [OF update_rep [OF sha_rep_init [OF assms(1)]]] by (simp add: h1_def)
  obtain h2 out where fin: "shr_sha256_final h1 = (h2, out)" by fastforce
  then have h2: "out = sha256_fips (ipad @ dat)" "length (buffer h2) = 128"
    using final_digest [OF h1] by simp_all
  define h3 where
    "h3 = shr_sha256_update (addr 4) out (shr_sha256_update (addr 3) opad (shr_sha256_init h2))"
  have h3: "sha_rep (opad @ out) h3"
    using update_rep [OF update_rep [OF sha_rep_init [OF h2(2)]]] by (simp add: h3_def)
  have "shr_hmac_sha256_raw stack addr key dat = Some (snd (shr_sha256_final h3))"
    using assms(2) unfolding shr_hmac_sha256_raw_def Let_def key1 blit ipad_def [symmetric]
      opad_def [symmetric] h1_def [symmetric] fin h3_def by simp
  also have "\<dots> = Some (hmac_fips key dat)" using final_digest [OF h3]
    unfolding hmac_fips_def Let_def h2(1) opad_def ipad_def k0_def k_def by simp
  finally show ?thesis .
qed

theorem hmac_sha256_exact_witness:
  "shr_hmac_sha256_raw \<lparr>H = [], total64 = 7, buflen = 9, buffer = replicate 128 0\<rparr> (\<lambda>k. k) [1] [2] =
   Some (hmac_fips [1] [2])"
  using hmac_sha256_exact [of "\<lparr>H = [], total64 = 7, buflen = 9, buffer = replicate 128 0\<rparr>" "[1]"]
  by simp

end
