(* ===== verification/Suffix.thy ===== *)
theory Suffix
  imports Numbers
begin

text \<open>
  Numbers with units, \<open>shared/suffix-util.c\<close> (SI and binary suffixes, in the integer forms),
  and the 48 and 56 bit little-endian fields of \<open>shared/int-util.c\<close>.  The values are 64-bit
  words; the theorems show where the code's guards keep them from wrapping around.
\<close>

section \<open>SI and binary suffixes (suffix-util.c)\<close>

definition si_suffixes :: "(nat \<times> char) list" where
  "si_suffixes = [(30, CHR ''Q''), (27, CHR ''R''), (24, CHR ''Y''), (21, CHR ''Z''),
     (18, CHR ''E''), (15, CHR ''P''), (12, CHR ''T''), (9, CHR ''G''), (6, CHR ''M''), (3, CHR ''k'')]"

definition mul10 :: "u64 \<Rightarrow> u64 option" where
  "mul10 v = (if v > (- 1) div 10 then None else Some (v * 10))"

text \<open>\<open>mul10\<close> applied \<open>n\<close> times, as the two scaling loops do.\<close>

primrec mul10_loop :: "nat \<Rightarrow> u64 \<Rightarrow> u64 option" where
  "mul10_loop 0 v = Some v"
| "mul10_loop (Suc n) v = Option.bind (mul10 v) (mul10_loop n)"

text \<open>The digits after the point: the fraction, the number of digits seen, the rest.\<close>

fun frac_loop :: "u64 \<Rightarrow> nat \<Rightarrow> string \<Rightarrow> (u64 \<times> nat \<times> string) option" where
  "frac_loop frac frac_len [] = Some (frac, frac_len, [])"
| "frac_loop frac frac_len (c # p) =
     (if \<not> isdigit c then Some (frac, frac_len, c # p)
      else if frac_len \<ge> 19 then frac_loop frac (Suc frac_len) p
      else (case mul10 frac of
              None \<Rightarrow> None
            | Some f \<Rightarrow> frac_loop (f + of_nat (ord c - 48)) (Suc frac_len) p))"

definition si_scale :: "u64 \<Rightarrow> u64 \<Rightarrow> nat \<Rightarrow> nat \<Rightarrow> u64 res" where
  "si_scale num frac frac_len e =
     (case mul10_loop e num of
        None \<Rightarrow> Inl EINVAL
      | Some v \<Rightarrow>
          (let fl = (if frac_len > 19 then 19 else frac_len)
           in case mul10_loop (e - fl) frac of
                None \<Rightarrow> Inl EINVAL
              | Some f \<Rightarrow>
                  (let f' = ((\<lambda>x. x div 10) ^^ (fl - e)) f
                   in if f' > - 1 - v then Inl EINVAL else Inr (v + f'))))"

text \<open>The result is the string at \<open>*endptr\<close>, the value and whether there was a suffix.\<close>

definition suffix_si_parse :: "string \<Rightarrow> (string \<times> u64 \<times> bool) res" where
  "suffix_si_parse str =
     (if \<not> isdigit (cget str 0) \<or> shr_has_leading_zero str then Inl EINVAL
      else (case strtoull 0 str of
          (num, None, erange) \<Rightarrow> Inl EINVAL
        | (num, Some p, erange) \<Rightarrow>
            if erange then Inl EINVAL
            else if cget p 0 = CHR ''.'' \<and> \<not> isdigit (cget p 1) then Inl EINVAL
            else (case (if cget p 0 = CHR ''.'' then frac_loop 0 0 (tl p) else Some (0, 0, p)) of
                    None \<Rightarrow> Inl EINVAL
                  | Some (frac, frac_len, q) \<Rightarrow>
                      if q = [] then Inr ([], num, False)
                      else if cget q 1 \<noteq> NUL then Inl EINVAL
                      else (case find (\<lambda>(e, c). cget q 0 = c) si_suffixes of
                              None \<Rightarrow> Inl EINVAL
                            | Some (e, c) \<Rightarrow>
                                (case si_scale num frac frac_len e of
                                   Inl err \<Rightarrow> Inl err
                                 | Inr v \<Rightarrow> Inr (tl q, v, True))))))"

definition shr_suffix_si_parse :: "string \<Rightarrow> (string \<times> u64) res" where
  "shr_suffix_si_parse str = (case suffix_si_parse str of
      Inl e \<Rightarrow> Inl e | Inr (end, val, suffix) \<Rightarrow> Inr (end, val))"

definition shr_suffix_si_parse_units :: "string \<Rightarrow> u64 \<Rightarrow> u64 \<Rightarrow> u64 res" where
  "shr_suffix_si_parse_units str align unit =
     (if unit = 0 then Inl EINVAL
      else (case suffix_si_parse str of
              Inl e \<Rightarrow> Inl e
            | Inr (end, b, suffix) \<Rightarrow>
                if \<not> suffix then Inr b
                else (let rem = (if align \<noteq> 0 then b mod align else 0)
                      in if rem \<noteq> 0
                         then (if b > - 1 - (align - rem) then Inl ERANGE
                               else Inr ((b + (align - rem)) div unit))
                         else Inr (b div unit))))"

definition binary_suffixes :: "(nat \<times> string) list" where
  "binary_suffixes = [(50, ''Pi''), (40, ''Ti''), (30, ''Gi''), (20, ''Mi''), (10, ''Ki'')]"

definition shr_suffix_binary_parse :: "string \<Rightarrow> (string \<times> u64) res" where
  "shr_suffix_binary_parse str =
     (if \<not> isdigit (cget str 0) \<or> shr_has_leading_zero str then Inl EINVAL
      else (case strtoull 0 str of
          (ret, None, erange) \<Rightarrow> Inl EINVAL
        | (ret, Some p, erange) \<Rightarrow>
            if erange then Inl EINVAL
            else if p = [] then Inr ([], ret)
            else if cget p 1 = NUL \<or> cget p 2 \<noteq> NUL then Inl EINVAL
            else (case find (\<lambda>(sh, suf). tolower (cget p 0) = tolower (cget suf 0)
                                \<and> tolower (cget p 1) = tolower (cget suf 1)) binary_suffixes of
                    None \<Rightarrow> Inl EINVAL
                  | Some (sh, suf) \<Rightarrow>
                      if ret > drop_bit sh (- 1) then Inl EINVAL
                      else Inr (drop 2 p, push_bit sh ret))))"

text \<open>C division truncates towards zero.\<close>

definition cdiv :: "int \<Rightarrow> int \<Rightarrow> int" where
  "cdiv a b = sgn a * sgn b * (\<bar>a\<bar> div \<bar>b\<bar>)"

text \<open>\<open>shr_suffix_binary_get\<close> on a \<open>long long\<close>: the new value and the suffix, None where the
  C code has no defined result (\<open>llabs\<close> of the least value, an overflowing addition).\<close>

definition shr_suffix_binary_get :: "int \<Rightarrow> (int \<times> string) option" where
  "shr_suffix_binary_get value =
     (if \<not> llong \<bar>value\<bar> then None
      else (case find (\<lambda>(sh, suf). \<bar>value\<bar> \<ge> 2 ^ sh) binary_suffixes of
              None \<Rightarrow> Some (value, [])
            | Some (sh, suf) \<Rightarrow>
                if \<not> llong (value + 2 ^ (sh - 1)) then None
                else Some (cdiv (value + 2 ^ (sh - 1)) (2 ^ sh), suf)))"

section \<open>48 and 56 bit fields (int-util.c)\<close>

text \<open>The loop runs over \<open>i\<close> from 0 and reads \<open>data[bytes - 1 - i]\<close>.\<close>

definition int_to_long :: "nat \<Rightarrow> bytes \<Rightarrow> u64" where
  "int_to_long bits data =
     (let n = (bits + 8 - 1) div 8
      in foldl (\<lambda>result i. push_bit 8 result + ucast (data ! (n - 1 - i))) 0 [0..<n])"

definition int48_to_long :: "bytes \<Rightarrow> u64" where
  "int48_to_long data = int_to_long 48 data"

definition int56_to_long :: "bytes \<Rightarrow> u64" where
  "int56_to_long data = int_to_long 56 data"

section \<open>Suffixes: lemmas\<close>

lemma mul10_eq: "mul10 v = (if unat v * 10 < 2 ^ 64 then Some (of_nat (unat v * 10)) else None)"
proof -
  have "unat ((- 1 :: u64) div 10) = (2 ^ 64 - 1) div 10"
    unfolding unat_div unat_m1_64 by simp
  then have "v > (- 1) div 10 \<longleftrightarrow> \<not> unat v * 10 < 2 ^ 64"
    unfolding word_less_nat_alt by auto
  then show ?thesis by (simp add: mul10_def)
qed

lemma mul10_loop_eq:
  "mul10_loop n v = (if unat v * 10 ^ n < 2 ^ 64 then Some (of_nat (unat v * 10 ^ n)) else None)"
proof (induction n arbitrary: v)
  case 0
  show ?case using unat_lt_64 [of v] by simp
next
  case (Suc n)
  show ?case
  proof (cases "unat v * 10 < 2 ^ 64")
    case True
    then have "unat (of_nat (unat v * 10) :: u64) = unat v * 10" by (rule unat_of_nat_64)
    then show ?thesis using True Suc.IH [of "of_nat (unat v * 10)"]
      by (simp add: mul10_eq mult.assoc)
  next
    case False
    have "unat v * 10 \<le> unat v * 10 ^ Suc n" by simp
    with False have "\<not> unat v * 10 ^ Suc n < 2 ^ 64" by linarith
    with False show ?thesis by (simp add: mul10_eq)
  qed
qed

lemma frac_loop_eq:
  assumes "unat f < 10 ^ k" "k \<le> 19"
  shows "frac_loop f k s =
    Some (of_nat (foldl (\<lambda>v c. v * 10 + digit_val c) (unat f) (take (19 - k) (takeWhile isdigit s))),
          k + length (takeWhile isdigit s), dropWhile isdigit s)"
  using assms
proof (induction s arbitrary: f k)
  case (Cons c s)
  show ?case
  proof (cases "isdigit c")
    case d: True
    note dv = digit_val_decimal [OF d]
    show ?thesis
    proof (cases "k = 19")
      case True
      have skip: "frac_loop f k' s = Some (f, k' + length (takeWhile isdigit s), dropWhile isdigit s)"
        if "19 \<le> k'" for k' using that
        by (induction s arbitrary: k') auto
      show ?thesis using True d skip [of 20] by simp
    next
      case False
      with Cons.prems have k: "k < 19" by simp
      have "unat f * 10 + digit_val c < 10 ^ Suc k" using Cons.prems(1) dv by simp
      moreover have "(10::nat) ^ Suc k \<le> 10 ^ 19" using k by (intro power_increasing) auto
      ultimately have lt: "unat f * 10 + digit_val c < 10 ^ 19" by linarith
      then have lt64: "unat f * 10 + digit_val c < 2 ^ 64" by simp
      then have m: "mul10 f = Some (of_nat (unat f * 10))" by (simp add: mul10_eq)
      have w: "(of_nat (unat f * 10) + of_nat (ord c - 48) :: u64) = of_nat (unat f * 10 + digit_val c)"
        using dv by simp
      have u: "unat (of_nat (unat f * 10 + digit_val c) :: u64) = unat f * 10 + digit_val c"
        using lt64 by (rule unat_of_nat_64)
      have "frac_loop f k (c # s) = frac_loop (of_nat (unat f * 10 + digit_val c)) (Suc k) s"
        using d k m w by simp
      also have "\<dots> = Some (of_nat (foldl (\<lambda>v c. v * 10 + digit_val c) (unat f * 10 + digit_val c)
          (take (19 - Suc k) (takeWhile isdigit s))),
          Suc k + length (takeWhile isdigit s), dropWhile isdigit s)"
        using Cons.IH [of "of_nat (unat f * 10 + digit_val c)" "Suc k"]
          \<open>unat f * 10 + digit_val c < 10 ^ Suc k\<close> k u by simp
      also have "take (19 - k) (takeWhile isdigit (c # s)) = c # take (19 - Suc k) (takeWhile isdigit s)"
        using d k by (simp add: take_Cons')
      ultimately show ?thesis using d by (simp add: take_Cons' k)
    qed
  next
    case False
    then show ?thesis by simp
  qed
qed simp

lemma funpow_div: "((\<lambda>x. x div (10 :: u64)) ^^ n) f = of_nat (unat f div 10 ^ n)"
proof (induction n)
  case (Suc n)
  have "unat f div 10 ^ n < 2 ^ 64"
    using unat_lt_64 [of f] by (meson div_le_dividend le_less_trans)
  then have u: "unat (of_nat (unat f div 10 ^ n) :: u64) = unat f div 10 ^ n"
    by (rule unat_of_nat_64)
  have "(of_nat (unat f div 10 ^ n) :: u64) div 10 = of_nat (unat f div 10 ^ n div 10)"
    using \<open>unat f div 10 ^ n < 2 ^ 64\<close>
    by (simp only: word_unat_eq_iff unat_div u) (simp add: unat_of_nat_64)
  then show ?case using Suc by (simp add: div_mult2_eq [symmetric] mult.commute)
qed simp

lemma si_scale_eq:
  assumes "F < 10 ^ min 19 fl"
  shows "si_scale num (of_nat F) fl e =
    (let t = unat num * 10 ^ e + F * 10 ^ e div 10 ^ min 19 fl
     in if t < 2 ^ 64 then Inr (of_nat t) else Inl EINVAL)"
proof -
  define L where "L = min 19 fl"
  have L: "(if fl > 19 then 19 else fl) = L" by (auto simp: L_def)
  have "(10::nat) ^ L \<le> 10 ^ 19" by (intro power_increasing) (auto simp: L_def)
  with assms have "F < 10 ^ 19" by (simp add: L_def [symmetric])
  then have F: "unat (of_nat F :: u64) = F" by (intro unat_of_nat_64) simp
  define S where "S = F * 10 ^ (e - L) div 10 ^ (L - e)"
  have S: "F * 10 ^ e div 10 ^ L = S"
  proof (cases "e \<le> L")
    case True
    then have "(10::nat) ^ L = 10 ^ e * 10 ^ (L - e)" by (simp add: power_add [symmetric])
    then show ?thesis using True by (simp add: S_def)
  next
    case False
    then have "(10::nat) ^ e = 10 ^ L * 10 ^ (e - L)" by (simp add: power_add [symmetric])
    then show ?thesis using False by (simp add: S_def)
  qed
  define V where "V = unat num * 10 ^ e"
  have scaled: "F * 10 ^ (e - L) < 2 ^ 64 \<Longrightarrow> S < 2 ^ 64"
    unfolding S_def by (meson div_le_dividend le_less_trans)
  have big: "\<not> F * 10 ^ (e - L) < 2 ^ 64 \<Longrightarrow> \<not> S < 2 ^ 64"
    using \<open>F < 10 ^ 19\<close> unfolding S_def by (cases "e \<le> L") auto
  have cmp: "(of_nat S :: u64) > - 1 - of_nat V \<longleftrightarrow> \<not> V + S < 2 ^ 64"
    and sum: "(of_nat V :: u64) + of_nat S = of_nat (V + S)"
    if "V < 2 ^ 64" "S < 2 ^ 64"
    using that by (auto simp: word_less_nat_alt unat_sub unat_m1_64 unat_of_nat_64)
  have fp: "((\<lambda>x. x div 10) ^^ (L - e)) (of_nat (F * 10 ^ (e - L)) :: u64) = of_nat S"
    if "F * 10 ^ (e - L) < 2 ^ 64"
    unfolding funpow_div unat_of_nat_64 [OF that] S_def ..
  have "si_scale num (of_nat F) fl e =
    (if V < 2 ^ 64 then
       if F * 10 ^ (e - L) < 2 ^ 64 then
         (let f = ((\<lambda>x. x div 10) ^^ (L - e)) (of_nat (F * 10 ^ (e - L)))
          in if f > - 1 - of_nat V then Inl EINVAL else Inr (of_nat V + f))
       else Inl EINVAL
     else Inl EINVAL)"
    unfolding si_scale_def L mul10_loop_eq F V_def [symmetric] by simp
  also have "\<dots> = (if V + S < 2 ^ 64 then Inr (of_nat (V + S)) else Inl EINVAL)"
  proof (cases "V < 2 ^ 64 \<and> F * 10 ^ (e - L) < 2 ^ 64")
    case True
    then have "S < 2 ^ 64" using scaled by blast
    with True show ?thesis using fp cmp sum by (simp only: Let_def if_True) simp
  next
    case False
    then have "\<not> V + S < 2 ^ 64" using big by linarith
    with False show ?thesis by (cases "V < 2 ^ 64") (simp_all only: if_True if_False simp_thms)
  qed
  finally show ?thesis by (simp only: Let_def V_def S L_def [symmetric])
qed

lemma digits_val_bound: "list_all isdigit ds \<Longrightarrow> digits_val 10 ds < 10 ^ length ds"
proof (induction ds rule: rev_induct)
  case (snoc d ds)
  then show ?case using digit_val_decimal [of d] by (simp add: digits_val_snoc)
qed simp

text \<open>What the number scan leaves for the suffix.\<close>

lemma strtoull_dec_str:
  assumes "r = [] \<or> \<not> isdigit (hd r) \<and> hd r \<noteq> CHR ''x'' \<and> hd r \<noteq> CHR ''X''"
  shows "strtoull 0 (dec_str n @ r) =
      (if n < 2 ^ 64 then (of_nat n, Some r, False) else (- 1, Some r, True))"
    and "isdigit (cget (dec_str n @ r) 0)" and "\<not> shr_has_leading_zero (dec_str n @ r)"
proof -
  obtain c t where ct: "dec_str n = c # t" by (cases "dec_str n") auto
  have all: "list_all isdigit (dec_str n)" by (auto simp: list_all_iff dec_str_digits)
  show lead: "isdigit (cget (dec_str n @ r) 0)" using all ct by simp
  have t: "c = CHR ''0'' \<Longrightarrow> t = []" using dec_str_no_leading_zero ct by simp
  show lz: "\<not> shr_has_leading_zero (dec_str n @ r)"
    using t assms ct by (cases r) (auto simp: shr_has_leading_zero_def)
  have "\<not> hex_prefix (dec_str n @ r)"
    using t assms ct by (cases r) (auto simp: hex_prefix_def)
  moreover have "takeWhile isdigit (dec_str n @ r) = dec_str n"
    "dropWhile isdigit (dec_str n @ r) = r"
    using all assms by (cases r; simp add: takeWhile_append dropWhile_all list_all_iff)+
  ultimately have "strto_scan 0 (dec_str n @ r) = Some (False, n, r)"
    using strto_scan_0 [OF lead lz] by simp
  then show "strtoull 0 (dec_str n @ r) =
      (if n < 2 ^ 64 then (of_nat n, Some r, False) else (- 1, Some r, True))"
    by (simp add: strtoull_def)
qed

lemma si_suffix_chars:
  assumes "(e, c) \<in> set si_suffixes"
  shows "\<not> isdigit c" "c \<noteq> CHR ''.''" "c \<noteq> CHR ''x''" "c \<noteq> CHR ''X''" "c \<noteq> NUL"
    and "find (\<lambda>(e, d). c = d) si_suffixes = Some (e, c)"
  using assms by (auto simp: si_suffixes_def ctype_defs)

lemma si_parse_fraction:
  assumes "(e, c) \<in> set si_suffixes" "n < 2 ^ 64" "list_all isdigit fs"
  shows "suffix_si_parse (dec_str n @ (if fs = [] then [] else CHR ''.'' # fs) @ [c]) =
    (let t = n * 10 ^ e + digits_val 10 (take 19 fs) * 10 ^ e div 10 ^ min 19 (length fs)
     in if t < 2 ^ 64 then Inr ([], of_nat t, True) else Inl EINVAL)"
proof -
  note c = si_suffix_chars [OF assms(1)]
  let ?p = "(if fs = [] then [] else CHR ''.'' # fs) @ [c]"
  have r: "?p = [] \<or> \<not> isdigit (hd ?p) \<and> hd ?p \<noteq> CHR ''x'' \<and> hd ?p \<noteq> CHR ''X''"
    using c by (simp add: isdigit_iff)
  note st = strtoull_dec_str [OF r, of n]
  have tw: "takeWhile isdigit (fs @ [c]) = fs" "dropWhile isdigit (fs @ [c]) = [c]"
    using assms(3) c by (simp_all add: takeWhile_append dropWhile_all list_all_iff)
  have fr: "frac_loop 0 0 (fs @ [c]) = Some (of_nat (digits_val 10 (take 19 fs)), length fs, [c])"
    using frac_loop_eq [of 0 0 "fs @ [c]"] by (simp add: tw digits_val_def)
  have F: "digits_val 10 (take 19 fs) < 10 ^ min 19 (length fs)"
    using digits_val_bound [of "take 19 fs"] assms(3)
    by (auto simp: list_all_iff min.commute dest: in_set_takeD)
  have "isdigit (cget (fs @ [c]) 0)" if "fs \<noteq> []" using that assms(3) by (cases fs) auto
  then show ?thesis
    unfolding suffix_si_parse_def
    using st assms(2) fr c si_scale_eq [OF F, of "of_nat n" e]
    by (auto simp: unat_of_nat_64 Let_def)
qed

text \<open>A number with a fraction and an SI suffix reads as the whole number of units it
  stands for, the fraction cut off below one and after 19 digits; it is refused exactly when
  that number does not fit into 64 bits, and no multiplication wraps.\<close>

theorem suffix_si_parse_exact:
  assumes "(e, c) \<in> set si_suffixes" "n < 2 ^ 64" "list_all isdigit fs"
  shows "suffix_si_parse (dec_str n @ (if fs = [] then [] else CHR ''.'' # fs) @ [c]) =
    (let t = n * 10 ^ e + digits_val 10 (take 19 fs) * 10 ^ e div 10 ^ min 19 (length fs)
     in if t < 2 ^ 64 then Inr ([], of_nat t, True) else Inl EINVAL)"
  using assms by (rule si_parse_fraction)

theorem suffix_si_parse_exact_witness:
  "suffix_si_parse (dec_str 1 @ ''.5'' @ ''G'') = Inr ([], 1500000000, True)"
  using suffix_si_parse_exact [of 9 "CHR ''G''" 1 "''5''"]
  by (simp add: si_suffixes_def ctype_defs digits_val_def digit_val_def)

lemma binary_suffix_facts:
  "list_all (\<lambda>(sh, suf). suf \<noteq> [] \<and> \<not> isdigit (hd suf) \<and> hd suf \<noteq> CHR ''x'' \<and> hd suf \<noteq> CHR ''X''
     \<and> cget suf 1 \<noteq> NUL \<and> cget suf 2 = NUL \<and> drop 2 suf = []
     \<and> find (\<lambda>(h, s). tolower (cget suf 0) = tolower (cget s 0)
        \<and> tolower (cget suf 1) = tolower (cget s 1)) binary_suffixes = Some (sh, suf)) binary_suffixes"
  by code_simp

text \<open>A number with a binary suffix reads as the number shifted by the suffix, refused
  exactly when a bit would be lost.\<close>

theorem suffix_binary_parse_exact:
  assumes "(sh, suf) \<in> set binary_suffixes" "n < 2 ^ 64"
  shows "shr_suffix_binary_parse (dec_str n @ suf) =
    (if n * 2 ^ sh < 2 ^ 64 then Inr ([], of_nat (n * 2 ^ sh)) else Inl EINVAL)"
proof -
  have suf: "suf \<noteq> []" "\<not> isdigit (hd suf)" "hd suf \<noteq> CHR ''x''" "hd suf \<noteq> CHR ''X''"
    "cget suf 1 \<noteq> NUL" "cget suf 2 = NUL" "drop 2 suf = []"
    "find (\<lambda>(h, s). tolower (cget suf 0) = tolower (cget s 0)
        \<and> tolower (cget suf 1) = tolower (cget s 1)) binary_suffixes = Some (sh, suf)"
    using binary_suffix_facts assms(1) unfolding list_all_iff by blast+
  note st = strtoull_dec_str [of suf n]
  have cmp: "(of_nat n :: u64) > drop_bit sh (- 1) \<longleftrightarrow> \<not> n * 2 ^ sh < 2 ^ 64"
    using assms(1) unfolding word_less_nat_alt unat_of_nat_64 [OF assms(2)]
    by (auto simp: binary_suffixes_def unsigned_drop_bit_eq unat_m1_64 drop_bit_eq_div)
  have sh: "push_bit sh (of_nat n :: u64) = of_nat (n * 2 ^ sh)"
    by (simp add: push_bit_eq_mult)
  have "strtoull 0 (dec_str n @ suf) = (of_nat n, Some suf, False)"
    "isdigit (cget (dec_str n @ suf) 0)" "\<not> shr_has_leading_zero (dec_str n @ suf)"
    using st suf(1-4) assms(2) by auto
  then show ?thesis
    unfolding shr_suffix_binary_parse_def
    by (simp only: suf cmp sh simp_thms prod.case option.case if_True if_False)
      simp
qed

theorem suffix_binary_parse_exact_witness:
  "shr_suffix_binary_parse (dec_str 3 @ ''Ki'') = Inr ([], 3072)"
  using suffix_binary_parse_exact [of 10 "''Ki''" 3] by (simp add: binary_suffixes_def)

lemma align_up_nat:
  fixes a b :: nat
  assumes "0 < a"
  shows "(b + a - 1) div a * a = (if b mod a = 0 then b else b + (a - b mod a))"
proof -
  define q r where "q = b div a" and "r = b mod a"
  have b: "b = q * a + r" and r: "r < a" using assms by (auto simp: q_def r_def)
  show ?thesis
  proof (cases "r = 0")
    case True
    then have "b + a - 1 = q * a + (a - 1)" using b assms by simp
    then have "(b + a - 1) div a = q" using div_mult_self3 [of a q "a - 1"] assms by simp
    then show ?thesis unfolding r_def [symmetric] using True b by simp
  next
    case False
    then have "b + a - 1 = Suc q * a + (r - 1)" unfolding b by (simp add: algebra_simps)
    then have "(b + a - 1) div a = Suc q"
      using div_mult_self3 [of a "Suc q" "r - 1"] assms r by simp
    then show ?thesis unfolding r_def [symmetric] using False b r by simp
  qed
qed

text \<open>A size with a suffix is rounded up to the next multiple of the alignment and then
  divided by the unit; \<open>ERANGE\<close> is reported exactly when the rounded size exceeds 64 bits.\<close>

theorem suffix_si_parse_units_spec:
  assumes "suffix_si_parse str = Inr (e, b, True)" "unit \<noteq> 0"
  shows "shr_suffix_si_parse_units str align unit =
    (let up = (if align = 0 then unat b
               else (unat b + unat align - 1) div unat align * unat align)
     in if up < 2 ^ 64 then Inr (of_nat (up div unat unit)) else Inl ERANGE)"
proof -
  have divu: "of_nat (n div unat unit) = (of_nat n :: u64) div unit" if "n < 2 ^ 64" for n
    using that le_less_trans [OF div_le_dividend that, of "unat unit"]
    by (simp add: word_unat_eq_iff unat_div unat_of_nat_64)
  show ?thesis
  proof (cases "align = 0 \<or> b mod align = 0")
    case True
    then have "align = 0 \<or> unat b mod unat align = 0 \<and> 0 < unat align"
      by (simp only: unat_mod [symmetric] unat_gt_0) (metis unsigned_0)
    then have "(if align = 0 then unat b
        else (unat b + unat align - 1) div unat align * unat align) = unat b"
      using align_up_nat [of "unat align" "unat b"] by auto
    moreover have "(if align \<noteq> 0 then b mod align else 0) = 0" using True by presburger
    ultimately show ?thesis using assms divu [OF unat_lt_64, of b] unat_lt_64 [of b]
      by (simp add: shr_suffix_si_parse_units_def Let_def del: mod_eq_0_iff_dvd)
  next
    case False
    define r where "r = b mod align"
    have al: "0 < unat align" using False by (simp add: unat_gt_0)
    have rl: "r < align" "r \<noteq> 0" using False by (simp_all add: r_def word_mod_less_divisor word_neq_0_conv)
    have ur: "unat r = unat b mod unat align" "unat r < unat align" "0 < unat r"
      using rl by (simp add: r_def unat_mod, simp add: word_less_nat_alt, simp add: unat_gt_0)
    have up: "(unat b + unat align - 1) div unat align * unat align = unat b + (unat align - unat r)"
      using align_up_nat [OF al, of "unat b"] ur by simp
    have ua: "unat (align - r) = unat align - unat r" using rl by (simp add: unat_sub less_imp_le)
    have cmp: "b > - 1 - (align - r) \<longleftrightarrow> \<not> unat b + (unat align - unat r) < 2 ^ 64"
      using ua unat_lt_64 [of align]
      by (auto simp: word_less_nat_alt unat_sub unat_m1_64)
    have sum: "b + (align - r) = of_nat (unat b + (unat align - unat r))"
      unfolding ua [symmetric] of_nat_add by simp
    show ?thesis using assms False up cmp sum divu [of "unat b + (unat align - unat r)"] rl
      by (auto simp: shr_suffix_si_parse_units_def Let_def r_def [symmetric])
  qed
qed

theorem suffix_si_parse_units_spec_witness:
  "shr_suffix_si_parse_units ''1k'' 512 512 = Inr 2"
proof -
  have "dec_str 1 @ ''k'' = ''1k''" by code_simp
  then have "suffix_si_parse ''1k'' = Inr ([], 1000, True)"
    using si_parse_fraction [of 3 "CHR ''k''" 1 "[]"] by (simp add: si_suffixes_def)
  from suffix_si_parse_units_spec [OF this, of 512 512] show ?thesis by simp
qed

section \<open>48 and 56 bit fields: lemmas\<close>

lemma int_to_long_step: "push_bit 8 (r :: u64) + ucast (b :: u8) = r * 256 + of_nat (unat b)"
  by (simp add: push_bit_eq_mult)

lemma int_to_long_loop:
  "m \<le> n \<Longrightarrow>
   foldl (\<lambda>result i. result * 256 + of_nat (unat ((data ! (n - 1 - i)) :: u8))) (0 :: u64) [0..<m]
     = of_nat (\<Sum>i<m. unat (data ! (n - m + i)) * 256 ^ i)"
proof (induction m)
  case (Suc m)
  have eq: "n - Suc m + Suc i = n - m + i" for i using Suc.prems by simp
  have "(\<Sum>i<Suc m. unat (data ! (n - Suc m + i)) * 256 ^ i) =
      unat (data ! (n - Suc m)) + (\<Sum>i<m. unat (data ! (n - m + i)) * 256 ^ i) * 256"
    unfolding sum.lessThan_Suc_shift eq by (simp add: sum_distrib_left sum_distrib_right algebra_simps)
  moreover note Suc.IH [OF Suc_leD [OF Suc.prems]]
  ultimately show ?case
    by (simp only: upt_Suc_append [OF le0] foldl_append foldl.simps of_nat_add of_nat_mult) simp
qed simp

text \<open>The 48 and 56 bit readers return the little-endian value of the field.\<close>

theorem int_to_long_value:
  assumes "bits \<le> 64"
  shows "unat (int_to_long bits data) = (\<Sum>i<(bits + 7) div 8. unat (data ! i) * 256 ^ i)"
proof -
  let ?n = "(bits + 7) div 8"
  have "(\<Sum>i<m. unat ((data ! i) :: u8) * 256 ^ i) < 256 ^ m" for m
  proof (induction m)
    case (Suc m)
    have "unat (data ! m) * 256 ^ m \<le> 255 * 256 ^ m"
      using unat_lt_8 [of "data ! m"] by (intro mult_le_mono1) simp
    with Suc show ?case unfolding sum.lessThan_Suc power_Suc by linarith
  qed simp
  also have "(256::nat) ^ ?n \<le> 256 ^ 8" using assms by (intro power_increasing) auto
  finally have "(\<Sum>i<?n. unat (data ! i) * 256 ^ i) < 2 ^ 64" by simp
  then show ?thesis
    using int_to_long_loop [of ?n ?n data]
    unfolding int_to_long_def Let_def int_to_long_step
    by (simp add: unat_of_nat_64 add.commute [of bits 7] del: of_nat_sum of_nat_unat)
qed

theorem int_to_long_value_witness:
  "unat (int_to_long 48 [1, 2, 0, 0, 0, 0]) = 513"
proof -
  have "{..<6::nat} = {0, 1, 2, 3, 4, 5}" by auto
  then show ?thesis using int_to_long_value [of 48 "[1, 2, 0, 0, 0, 0]"] by simp
qed

section \<open>Binary suffixes for output: lemmas\<close>

text \<open>For a non-negative value whose rounding does not overflow, \<open>shr_suffix_binary_get\<close>
  divides by a suffix the value reaches, rounding half up, and leaves a value below 1024 alone.\<close>

theorem suffix_binary_get_rounds:
  assumes "0 \<le> v" "v < 2 ^ 63 - 2 ^ 49"
  shows "(v < 1024 \<and> shr_suffix_binary_get v = Some (v, [])) \<or>
    (\<exists>sh suf. (sh, suf) \<in> set binary_suffixes \<and> 2 ^ sh \<le> v \<and>
       shr_suffix_binary_get v = Some ((v + 2 ^ (sh - 1)) div 2 ^ sh, suf))"
proof -
  have cd: "cdiv a b = a div b" if "0 \<le> a" "0 < b" for a b
    using that by (cases "a = 0") (auto simp: cdiv_def)
  have d: "shr_suffix_binary_get v = (case find (\<lambda>(sh, suf). v \<ge> 2 ^ sh) binary_suffixes of
      None \<Rightarrow> Some (v, [])
    | Some (sh, suf) \<Rightarrow> Some ((v + 2 ^ (sh - 1)) div 2 ^ sh, suf))"
    using assms
    by (auto simp: shr_suffix_binary_get_def llong_def binary_suffixes_def cd)
  show ?thesis
  proof (cases "find (\<lambda>(sh, suf). v \<ge> 2 ^ sh) binary_suffixes")
    case None
    then have "v < 1024" by (auto simp: binary_suffixes_def split: if_splits)
    then show ?thesis using d None by simp
  next
    case (Some p)
    obtain sh suf where p: "p = (sh, suf)" by fastforce
    have "(sh, suf) \<in> set binary_suffixes" "2 ^ sh \<le> v"
      using find_SomeD [OF Some] p by auto
    moreover have "shr_suffix_binary_get v = Some ((v + 2 ^ (sh - 1)) div 2 ^ sh, suf)"
      unfolding d Some p by simp
    ultimately show ?thesis by blast
  qed
qed

theorem suffix_binary_get_rounds_witness:
  "\<exists>sh suf. (sh, suf) \<in> set binary_suffixes \<and> 2 ^ sh \<le> (2048::int) \<and>
     shr_suffix_binary_get 2048 = Some ((2048 + 2 ^ (sh - 1)) div 2 ^ sh, suf)"
  using suffix_binary_get_rounds [of 2048] by simp

text \<open>A negative value is rounded towards the wrong side (\<open>-1024\<close> becomes \<open>0 Ki\<close>), and the
  rounding addition overflows for the largest values, where C defines no result.\<close>

theorem suffix_binary_get_negative:
  "shr_suffix_binary_get (- 1024) = Some (0, ''Ki'') \<and>
   shr_suffix_binary_get (2 ^ 63 - 1) = None"
  by code_simp

end
