(* ===== verification/Workpool.thy ===== *)
theory Workpool
  imports Prelude "HOL-Library.Multiset"
begin

text \<open>
  The worker pool of the daemons, \<open>daemon-util/work.c\<close>: worker threads that take works from a
  queue under a lock, and one event-loop thread that submits works, reports their end or their
  timeout, cancels them and frees the pool.

  Each critical section (from \<open>pthread_mutex_lock\<close> to the unlock or the wait) is one atomic
  operation, and any worker may run between two of them: a worker's place in its loop is a
  \<open>phase\<close>, the event loop's place an \<open>ev_phase\<close>.  Works are numbered in the order of their
  submission.  \<open>returned\<close>, \<open>called\<close> and \<open>freed\<close> are ghost logs of the works whose function returned, of
  the done callbacks with their \<open>timed_out\<close>, and of the calls of \<open>work_free\<close>.  What the system
  decides - allocation, \<open>pthread_create\<close>, timers, which waiting thread a signal wakes - is an
  argument of the operation.
\<close>

section \<open>State\<close>

type_synonym work = nat

datatype work_state = WORK_QUEUED | WORK_RUNNING | WORK_DONE | WORK_DROPPED

text \<open>\<open>Ready\<close>: before the lock at the head of the loop.  \<open>Idle\<close>: in \<open>pthread_cond_wait\<close>.
  \<open>Woken\<close>: to return from the wait.  \<open>Run w\<close>: in \<open>w->fn\<close>.  \<open>Drop w\<close>: to free \<open>w\<close>, dropped
  while it ran.\<close>

datatype phase = Ready | Idle | Woken | Run work | Drop work | Gone

text \<open>\<open>EvLoop\<close>: outside of this component.  \<open>EvOnDone\<close>: at the head of the loop of \<open>on_done\<close>.
  \<open>EvTimeout w\<close>: in \<open>on_timeout\<close> after the check.  \<open>EvCall b r\<close>: in the done callback of
  \<open>finish\<close>, called from \<open>on_done\<close> iff \<open>b\<close>, to free \<open>r\<close> then.  \<open>EvDestroy k\<close>: in \<open>destroy\<close>,
  to return to \<open>k\<close>.\<close>

datatype ev_phase = EvLoop | EvOnDone | EvTimeout work | EvCall bool "work option" | EvDestroy ev_phase

record pool =
  queued :: "work list"
  dones :: "work list"
  max_workers :: nat
  nr_workers :: nat
  nr_idle :: nat
  nr_queued :: nat
  refs :: nat
  closing :: bool
  efd :: nat
  shared_freed :: bool
  active :: "work list"
  dispatching :: bool
  free_pending :: bool
  pool_freed :: bool
  wstate :: "work \<Rightarrow> work_state"
  timer :: "work \<Rightarrow> bool"
  workers :: "phase list"
  ev :: ev_phase
  next_work :: nat
  returned :: "work list"
  called :: "(work \<times> bool) list"
  freed :: "work list"

section \<open>Operations\<close>

fun work_free :: "work option \<Rightarrow> pool \<Rightarrow> pool" where
  "work_free None s = s"
| "work_free (Some w) s = s\<lparr>freed := freed s @ [w]\<rparr>"

definition shared_unref_unlock :: "pool \<Rightarrow> pool" where
  "shared_unref_unlock s =
     (let s1 = s\<lparr>refs := refs s - 1\<rparr> in if refs s1 = 0 then s1\<lparr>shared_freed := True\<rparr> else s1)"

definition set_worker :: "nat \<Rightarrow> phase \<Rightarrow> pool \<Rightarrow> pool" where
  "set_worker i p s = s\<lparr>workers := (workers s)[i := p]\<rparr>"

text \<open>\<open>worker\<close>: from the head of the loop to the wait, the end of the thread or the call of
  \<open>fn\<close>; back from the wait; back from \<open>fn\<close>; the free of a dropped work.\<close>

definition worker_top :: "nat \<Rightarrow> pool \<Rightarrow> pool" where
  "worker_top i s =
     (if closing s then shared_unref_unlock (set_worker i Gone s)
      else (case queued s of
              [] \<Rightarrow> set_worker i Idle (s\<lparr>nr_idle := nr_idle s + 1\<rparr>)
            | w # q \<Rightarrow> set_worker i (Run w)
                (s\<lparr>queued := q, nr_queued := nr_queued s - 1, wstate := (wstate s)(w := WORK_RUNNING)\<rparr>)))"

definition worker_wake :: "nat \<Rightarrow> pool \<Rightarrow> pool" where
  "worker_wake i s = worker_top i (s\<lparr>nr_idle := nr_idle s - 1\<rparr>)"

definition worker_return :: "nat \<Rightarrow> work \<Rightarrow> pool \<Rightarrow> pool" where
  "worker_return i w s0 =
     (let s = s0\<lparr>returned := returned s0 @ [w]\<rparr>
      in if wstate s w = WORK_DROPPED then set_worker i (Drop w) s
         else worker_top i (s\<lparr>wstate := (wstate s)(w := WORK_DONE), dones := dones s @ [w], efd := efd s + 1\<rparr>))"

definition worker_drop :: "nat \<Rightarrow> work \<Rightarrow> pool \<Rightarrow> pool" where
  "worker_drop i w s = set_worker i Ready (work_free (Some w) s)"

text \<open>\<open>pthread_cond_signal\<close> wakes one of the waiting threads, \<open>pthread_cond_broadcast\<close> all.\<close>

definition waiting :: "pool \<Rightarrow> nat list" where
  "waiting s = filter (\<lambda>i. workers s ! i = Idle) [0..<length (workers s)]"

definition cond_signal :: "nat \<Rightarrow> pool \<Rightarrow> pool" where
  "cond_signal pick s =
     (if waiting s = [] then s else set_worker (waiting s ! (pick mod length (waiting s))) Woken s)"

definition cond_broadcast :: "pool \<Rightarrow> pool" where
  "cond_broadcast s = s\<lparr>workers := map (\<lambda>p. if p = Idle then Woken else p) (workers s)\<rparr>"

text \<open>\<open>err\<close> is what \<open>pthread_attr_init\<close> or \<open>pthread_create\<close> returns.\<close>

definition start_worker :: "nat \<Rightarrow> pool \<Rightarrow> int \<times> pool" where
  "start_worker err s =
     (if err \<noteq> 0 then (- int err, s)
      else (0, s\<lparr>workers := workers s @ [Ready], refs := refs s + 1, nr_workers := nr_workers s + 1\<rparr>))"

definition detach :: "work \<Rightarrow> pool \<Rightarrow> work option \<times> pool" where
  "detach w s0 =
     (let s = s0\<lparr>active := remove1 w (active s0), timer := (timer s0)(w := False)\<rparr>;
          running = (wstate s w = WORK_RUNNING);
          s1 = (if running then s\<lparr>wstate := (wstate s)(w := WORK_DROPPED)\<rparr>
                else s\<lparr>queued := remove1 w (queued s), dones := remove1 w (dones s)\<rparr>);
          s2 = (if wstate s1 w = WORK_QUEUED then s1\<lparr>nr_queued := nr_queued s1 - 1\<rparr> else s1)
      in (if running then None else Some w, s2))"

definition free_detached :: "work \<Rightarrow> pool \<Rightarrow> pool" where
  "free_detached w s = (case detach w s of (r, s1) \<Rightarrow> work_free r s1)"

definition destroy :: "pool \<Rightarrow> pool" where
  "destroy s = s\<lparr>ev := EvDestroy (ev s)\<rparr>"

text \<open>One round of the loop of \<open>destroy\<close>, or what follows it.\<close>

definition destroy_step :: "ev_phase \<Rightarrow> pool \<Rightarrow> pool" where
  "destroy_step k s =
     (case active s of
        w # ws \<Rightarrow> free_detached w s
      | [] \<Rightarrow> shared_unref_unlock (cond_broadcast (s\<lparr>pool_freed := True, closing := True, ev := k\<rparr>)))"

text \<open>\<open>finish\<close> up to the done callback, and from its return.\<close>

definition finish :: "bool \<Rightarrow> work \<Rightarrow> bool \<Rightarrow> pool \<Rightarrow> pool" where
  "finish from_done w timed_out s =
     (case detach w s of (r, s1) \<Rightarrow> s1\<lparr>called := called s1 @ [(w, timed_out)], ev := EvCall from_done r\<rparr>)"

definition finish_return :: "bool \<Rightarrow> work option \<Rightarrow> pool \<Rightarrow> pool" where
  "finish_return from_done r s = (work_free r s)\<lparr>ev := (if from_done then EvOnDone else EvLoop)\<rparr>"

definition on_done :: "pool \<Rightarrow> pool" where
  "on_done s = s\<lparr>efd := 0, dispatching := True, ev := EvOnDone\<rparr>"

definition on_done_loop :: "pool \<Rightarrow> pool" where
  "on_done_loop s =
     (if \<not> free_pending s \<and> dones s \<noteq> [] then finish True (hd (dones s)) False s
      else (let s1 = s\<lparr>dispatching := False, ev := EvLoop\<rparr>
            in if free_pending s1 then destroy s1 else s1))"

definition on_timeout :: "work \<Rightarrow> pool \<Rightarrow> pool" where
  "on_timeout w s0 =
     (let s = s0\<lparr>timer := (timer s0)(w := False)\<rparr>
      in if wstate s w = WORK_DONE then s else s\<lparr>ev := EvTimeout w\<rparr>)"

text \<open>\<open>dmn_work_pool_new\<close>: \<open>valid\<close> is that no pointer is NULL, \<open>mem\<close> that both allocations
  succeed, \<open>fd_err\<close> the errno of \<open>eventfd\<close> or 0, \<open>io_err\<close> the result of \<open>sd_event_add_io\<close>.
  The second component is the state of the memory it leaves, if it created the objects.\<close>

definition new_pool :: "nat \<Rightarrow> pool" where
  "new_pool n = \<lparr>queued = [], dones = [], max_workers = n, nr_workers = 0, nr_idle = 0, nr_queued = 0, refs = 1,
     closing = False, efd = 0, shared_freed = False, active = [], dispatching = False, free_pending = False,
     pool_freed = False, wstate = (\<lambda>w. WORK_QUEUED), timer = (\<lambda>w. False), workers = [], ev = EvLoop,
     next_work = 0, returned = [], called = [], freed = []\<rparr>"

definition dmn_work_pool_new :: "bool \<Rightarrow> nat \<Rightarrow> bool \<Rightarrow> nat \<Rightarrow> int \<Rightarrow> int res \<times> pool option" where
  "dmn_work_pool_new valid n mem fd_err io_err =
     (if \<not> valid \<or> n = 0 then (Inl EINVAL, None)
      else if \<not> mem then (Inl ENOMEM, None)
      else if fd_err \<noteq> 0 then (Inr (- int fd_err), None)
      else if io_err < 0 then (Inr io_err, Some (destroy_step EvLoop (destroy (new_pool n))))
      else (Inr 0, Some (new_pool n)))"

definition dmn_work_pool_free :: "pool \<Rightarrow> pool" where
  "dmn_work_pool_free s = (if dispatching s then s\<lparr>free_pending := True\<rparr> else destroy s)"

text \<open>\<open>dmn_work_submit\<close> with the outcome of \<open>calloc\<close>, \<open>sd_event_add_time\<close> and
  \<open>pthread_create\<close>, and the thread the signal picks.\<close>

definition dmn_work_submit :: "bool \<Rightarrow> nat \<Rightarrow> bool \<Rightarrow> int \<Rightarrow> nat \<Rightarrow> nat \<Rightarrow> pool \<Rightarrow> int res \<times> pool" where
  "dmn_work_submit valid timeout_usec mem timer_err create_err pick s =
     (if \<not> valid then (Inl EINVAL, s)
      else if \<not> mem then (Inl ENOMEM, s)
      else if timeout_usec \<noteq> 0 \<and> timer_err < 0 then (Inr timer_err, s)
      else
        (let w = next_work s;
             s1 = s\<lparr>timer := (timer s)(w := timeout_usec \<noteq> 0), wstate := (wstate s)(w := WORK_QUEUED),
                    queued := queued s @ [w], nr_queued := nr_queued s + 1\<rparr>;
             (err, s2) = (if nr_queued s1 > nr_idle s1 \<and> nr_workers s1 < max_workers s1 then start_worker create_err s1
                          else (if timeout_usec \<noteq> 0 then timer_err else 0, s1))
         in if err \<noteq> 0 \<and> nr_workers s2 = 0
            then (Inr err, s2\<lparr>queued := remove1 w (queued s2), nr_queued := nr_queued s2 - 1,
                              timer := (timer s2)(w := False)\<rparr>)
            else (Inr 0, (cond_signal pick s2)\<lparr>active := active s2 @ [w], next_work := w + 1\<rparr>)))"

definition dmn_work_pool_busy :: "pool option \<Rightarrow> bool" where
  "dmn_work_pool_busy p = (case p of None \<Rightarrow> False | Some s \<Rightarrow> active s \<noteq> [])"

definition dmn_work_cancel :: "work option \<Rightarrow> pool \<Rightarrow> pool" where
  "dmn_work_cancel w s = (case w of None \<Rightarrow> s | Some w \<Rightarrow> free_detached w s)"

section \<open>Interleaving\<close>

text \<open>A client may call the pool from the event loop and from a done callback, until it has freed
  it; it cancels works that are still its own.  The event loop calls \<open>on_done\<close> when the eventfd is
  readable and \<open>on_timeout\<close> when a timer has elapsed.  A wait may return without a signal.\<close>

definition in_client :: "pool \<Rightarrow> bool" where
  "in_client s \<longleftrightarrow> \<not> pool_freed s \<and> (ev s = EvLoop \<or> (\<exists>b r. ev s = EvCall b r))"

inductive step :: "pool \<Rightarrow> pool \<Rightarrow> bool" where
  top: "i < length (workers s) \<Longrightarrow> workers s ! i = Ready \<Longrightarrow> step s (worker_top i s)"
| spurious: "i < length (workers s) \<Longrightarrow> workers s ! i = Idle \<Longrightarrow> step s (set_worker i Woken s)"
| wake: "i < length (workers s) \<Longrightarrow> workers s ! i = Woken \<Longrightarrow> step s (worker_wake i s)"
| ret: "i < length (workers s) \<Longrightarrow> workers s ! i = Run w \<Longrightarrow> step s (worker_return i w s)"
| drop: "i < length (workers s) \<Longrightarrow> workers s ! i = Drop w \<Longrightarrow> step s (worker_drop i w s)"
| submit: "in_client s \<Longrightarrow> step s (snd (dmn_work_submit v t m te ce pick s))"
| cancel: "in_client s \<Longrightarrow> w \<in> set (active s) \<Longrightarrow> step s (dmn_work_cancel (Some w) s)"
| free: "in_client s \<Longrightarrow> step s (dmn_work_pool_free s)"
| notify: "ev s = EvLoop \<Longrightarrow> \<not> pool_freed s \<Longrightarrow> 0 < efd s \<Longrightarrow> step s (on_done s)"
| dispatch: "ev s = EvOnDone \<Longrightarrow> step s (on_done_loop s)"
| elapsed: "ev s = EvLoop \<Longrightarrow> \<not> pool_freed s \<Longrightarrow> timer s w \<Longrightarrow> step s (on_timeout w s)"
| expire: "ev s = EvTimeout w \<Longrightarrow> step s (finish False w True s)"
| called: "ev s = EvCall b r \<Longrightarrow> step s (finish_return b r s)"
| destroying: "ev s = EvDestroy k \<Longrightarrow> step s (destroy_step k s)"

text \<open>The states of a pool from its creation on.\<close>

inductive reach :: "nat \<Rightarrow> pool \<Rightarrow> bool" for n where
  new: "0 < n \<Longrightarrow> reach n (new_pool n)"
| more: "reach n s \<Longrightarrow> step s s' \<Longrightarrow> reach n s'"

section \<open>Invariant\<close>

text \<open>The works a worker runs, or is about to free; the work the event loop is about to free.\<close>

fun runs :: "phase \<Rightarrow> work list" where
  "runs (Run w) = [w]"
| "runs _ = []"

fun drops :: "phase \<Rightarrow> work list" where
  "drops (Drop w) = [w]"
| "drops _ = []"

definition running :: "pool \<Rightarrow> work list" where "running s = concat (map runs (workers s))"
definition dropping :: "pool \<Rightarrow> work list" where "dropping s = concat (map drops (workers s))"

fun pending :: "ev_phase \<Rightarrow> work list" where
  "pending (EvCall b r) = (case r of None \<Rightarrow> [] | Some w \<Rightarrow> [w])"
| "pending (EvDestroy k) = pending k"
| "pending _ = []"

definition cnt :: "(phase \<Rightarrow> bool) \<Rightarrow> pool \<Rightarrow> nat" where
  "cnt P s = length (filter P (workers s))"

abbreviation waits :: "phase \<Rightarrow> bool" where "waits p \<equiv> p = Idle \<or> p = Woken"
abbreviation checks :: "phase \<Rightarrow> bool" where "checks p \<equiv> p = Ready \<or> p = Woken"
abbreviation lives :: "phase \<Rightarrow> bool" where "lives p \<equiv> p \<noteq> Gone"

text \<open>The counters, and the lifetime of the shared state.\<close>

definition counts_ok :: "pool \<Rightarrow> bool" where
  "counts_ok s \<longleftrightarrow> length (workers s) = nr_workers s \<and> nr_workers s \<le> max_workers s \<and> 0 < max_workers s \<and>
     nr_queued s = length (queued s) \<and> nr_idle s = cnt waits s \<and>
     refs s = of_bool (\<not> pool_freed s) + cnt lives s \<and> (shared_freed s \<longleftrightarrow> refs s = 0) \<and>
     (closing s \<longleftrightarrow> pool_freed s) \<and> (\<not> closing s \<longrightarrow> cnt (\<lambda>p. p = Gone) s = 0)"

text \<open>Every work submitted and not in \<open>xs\<close> is in exactly one place, freed works included.\<close>

definition placed :: "work list \<Rightarrow> pool \<Rightarrow> bool" where
  "placed xs s \<longleftrightarrow> mset (queued s) + mset (dones s) + mset (running s) + mset (dropping s) + mset (pending (ev s)) +
     mset (freed s) + mset xs = mset [0..<next_work s]"

text \<open>The state of a work tells its place, and the active works are those the client still owns.\<close>

definition states_ok :: "pool \<Rightarrow> bool" where
  "states_ok s \<longleftrightarrow> (\<forall>w \<in> set (queued s). wstate s w = WORK_QUEUED) \<and> (\<forall>w \<in> set (dones s). wstate s w = WORK_DONE) \<and>
     (\<forall>w \<in> set (running s). wstate s w = WORK_RUNNING \<or> wstate s w = WORK_DROPPED) \<and>
     distinct (active s) \<and>
     set (active s) = set (queued s) \<union> set (dones s) \<union> {w \<in> set (running s). wstate s w = WORK_RUNNING} \<and>
     (\<forall>w. timer s w \<longrightarrow> w \<in> set (active s)) \<and> (pool_freed s \<longrightarrow> active s = [])"

text \<open>The event loop's place and the flags of the pool.\<close>

fun ev_ok :: "ev_phase \<Rightarrow> pool \<Rightarrow> bool" where
  "ev_ok EvLoop s \<longleftrightarrow> \<not> dispatching s"
| "ev_ok EvOnDone s \<longleftrightarrow> dispatching s \<and> \<not> pool_freed s"
| "ev_ok (EvTimeout w) s \<longleftrightarrow> \<not> dispatching s \<and> \<not> pool_freed s \<and> w \<in> set (active s)"
| "ev_ok (EvCall b r) s \<longleftrightarrow> (dispatching s \<longleftrightarrow> b) \<and> (b \<longrightarrow> \<not> pool_freed s)"
| "ev_ok (EvDestroy k) s \<longleftrightarrow> \<not> dispatching s \<and> \<not> pool_freed s \<and> (k = EvLoop \<or> (\<exists>r. k = EvCall False r))"

text \<open>No wakeup is lost: while a worker sleeps, as many workers are on their way to the queue as
  works are in it; and an ended work that nobody is about to report has made the eventfd readable.\<close>

definition wake_ok :: "pool \<Rightarrow> bool" where
  "wake_ok s \<longleftrightarrow> (0 < cnt (\<lambda>p. p = Idle) s \<longrightarrow> \<not> closing s \<and> length (queued s) \<le> cnt checks s) \<and>
     (queued s \<noteq> [] \<longrightarrow> workers s \<noteq> []) \<and>
     (dones s \<noteq> [] \<longrightarrow> 0 < efd s \<or> dispatching s \<or> (\<exists>k. ev s = EvDestroy k)) \<and>
     (free_pending s \<longrightarrow> dispatching s \<or> (\<exists>k. ev s = EvDestroy k) \<or> pool_freed s)"

text \<open>The logs.\<close>

definition logs_ok :: "pool \<Rightarrow> bool" where
  "logs_ok s \<longleftrightarrow> distinct (returned s) \<and> set (returned s) \<subseteq> {..<next_work s} \<and>
     set (returned s) \<inter> (set (queued s) \<union> set (running s)) = {} \<and> set (dones s) \<subseteq> set (returned s) \<and>
     set (dropping s) \<subseteq> set (returned s) \<and>
     distinct (map fst (called s)) \<and> fst ` set (called s) \<subseteq> {..<next_work s} - set (active s) \<and>
     {w. (w, False) \<in> set (called s)} \<subseteq> set (returned s)"

lemmas ok_defs = counts_ok_def placed_def states_ok_def wake_ok_def logs_ok_def

definition pool_inv :: "pool \<Rightarrow> bool" where
  "pool_inv s \<longleftrightarrow> counts_ok s \<and> placed [] s \<and> states_ok s \<and> ev_ok (ev s) s \<and> wake_ok s \<and> logs_ok s"

subsection \<open>Changing one worker\<close>

lemma length_filter_update: "i < length xs \<Longrightarrow>
  length (filter P (xs[i := x])) + of_bool (P (xs ! i)) = length (filter P xs) + of_bool (P x)"
proof (induction xs arbitrary: i)
  case (Cons a xs)
  show ?case
  proof (cases i)
    case (Suc k)
    then show ?thesis using Cons.IH [of k] Cons.prems by auto
  qed simp
qed simp

lemma mset_concat_update: "i < length xs \<Longrightarrow>
  mset (concat (map f (xs[i := x]))) + mset (f (xs ! i)) = mset (concat (map f xs)) + mset (f x)"
proof (induction xs arbitrary: i)
  case (Cons a xs)
  then show ?case by (cases i) (auto simp: ac_simps)
qed simp

lemma cnt_set_worker: "i < length (workers s) \<Longrightarrow>
  cnt P (set_worker i p s) + of_bool (P (workers s ! i)) = cnt P s + of_bool (P p)"
  unfolding cnt_def set_worker_def by (simp add: length_filter_update)

lemma set_worker_sel [simp]:
  "queued (set_worker i p s) = queued s" "dones (set_worker i p s) = dones s"
  "max_workers (set_worker i p s) = max_workers s" "nr_workers (set_worker i p s) = nr_workers s"
  "nr_idle (set_worker i p s) = nr_idle s" "nr_queued (set_worker i p s) = nr_queued s"
  "refs (set_worker i p s) = refs s" "closing (set_worker i p s) = closing s" "efd (set_worker i p s) = efd s"
  "shared_freed (set_worker i p s) = shared_freed s" "active (set_worker i p s) = active s"
  "dispatching (set_worker i p s) = dispatching s" "free_pending (set_worker i p s) = free_pending s"
  "pool_freed (set_worker i p s) = pool_freed s" "wstate (set_worker i p s) = wstate s"
  "timer (set_worker i p s) = timer s" "ev (set_worker i p s) = ev s" "next_work (set_worker i p s) = next_work s"
  "returned (set_worker i p s) = returned s" "called (set_worker i p s) = called s" "freed (set_worker i p s) = freed s"
  "workers (set_worker i p s) = (workers s)[i := p]"
  by (simp_all add: set_worker_def)

lemma running_set_worker: "i < length (workers s) \<Longrightarrow>
  mset (running (set_worker i p s)) + mset (runs (workers s ! i)) = mset (running s) + mset (runs p)"
  by (simp add: running_def mset_concat_update)

lemma dropping_set_worker: "i < length (workers s) \<Longrightarrow>
  mset (dropping (set_worker i p s)) + mset (drops (workers s ! i)) = mset (dropping s) + mset (drops p)"
  by (simp add: dropping_def mset_concat_update)

text \<open>The places are disjoint.\<close>

lemma placed_distinct:
  assumes "placed xs s"
  shows "distinct (queued s @ dones s @ running s @ dropping s @ pending (ev s) @ freed s @ xs)"
    "set (queued s @ dones s @ running s @ dropping s @ pending (ev s) @ freed s @ xs) = {..<next_work s}"
proof -
  have *: "mset (queued s @ dones s @ running s @ dropping s @ pending (ev s) @ freed s @ xs) = mset [0..<next_work s]"
    using assms by (simp add: placed_def ac_simps)
  show "distinct (queued s @ dones s @ running s @ dropping s @ pending (ev s) @ freed s @ xs)"
    using mset_eq_imp_distinct_iff [OF *] by simp
  show "set (queued s @ dones s @ running s @ dropping s @ pending (ev s) @ freed s @ xs) = {..<next_work s}"
    using mset_eq_setD [OF *] by (simp add: lessThan_atLeast0)
qed


lemmas view_defs = running_def dropping_def cnt_def

lemma worker_update:
  assumes "i < length ws" "ws ! i = q"
  shows "length (filter P (ws[i := p])) + of_bool (P q) = length (filter P ws) + of_bool (P p)"
    "mset (concat (map runs (ws[i := p]))) + mset (runs q) = mset (concat (map runs ws)) + mset (runs p)"
    "mset (concat (map drops (ws[i := p]))) + mset (drops q) = mset (concat (map drops ws)) + mset (drops p)"
  using length_filter_update [OF assms(1), of P p] mset_concat_update [OF assms(1), of runs p]
    mset_concat_update [OF assms(1), of drops p] assms(2) by simp_all

lemma set_mset_insert: "mset xs = mset ys + {#w#} \<Longrightarrow> set xs = insert w (set ys)"
  by (metis add_mset_add_single list.simps(15) mset.simps(2) mset_eq_setD)

lemma top_run:
  assumes "pool_inv s" "i < length (workers s)" "workers s ! i = Ready" "\<not> closing s" "queued s = w # q"
  shows "pool_inv (worker_top i s)"
proof -
  let ?t = "set_worker i (Run w) (s\<lparr>queued := q, nr_queued := nr_queued s - 1, wstate := (wstate s)(w := WORK_RUNNING)\<rparr>)"
  have t: "worker_top i s = ?t" using assms by (simp add: worker_top_def)
  have r: "mset (running ?t) = mset (running s) + {#w#}" "mset (dropping ?t) = mset (dropping s)"
    "\<And>P. cnt P ?t + of_bool (P Ready) = cnt P s + of_bool (P (Run w))"
    using worker_update [OF assms(2,3), where p = "Run w"] by (simp_all add: view_defs)
  have d: "w \<notin> set q" "w \<notin> set (dones s)" "w \<notin> set (running s)" "w \<notin> set (dropping s)" "w < next_work s"
    using placed_distinct [of "[]" s] assms(1,5) by (auto simp: pool_inv_def)
  note sr = set_mset_insert [OF r(1)] mset_eq_setD [OF r(2)]
  have "counts_ok ?t" using assms r(3) [of lives] r(3) [of waits] r(3) [of "\<lambda>p. p = Gone"]
    by (simp add: pool_inv_def counts_ok_def)
  moreover have "placed [] ?t" using assms r(1,2) by (simp add: pool_inv_def placed_def)
  moreover have "states_ok ?t" using assms sr d by (auto simp: pool_inv_def states_ok_def)
  moreover have "ev_ok (ev ?t) ?t" using assms by (cases "ev s") (simp_all add: pool_inv_def)
  moreover have "wake_ok ?t" using assms r(3) [of "\<lambda>p. p = Idle"] r(3) [of checks]
    by (auto simp: pool_inv_def wake_ok_def)
  moreover have "logs_ok ?t" using assms sr d by (auto simp: pool_inv_def logs_ok_def)
  ultimately show ?thesis by (simp add: t pool_inv_def)
qed

lemma unref_eq: "shared_unref_unlock s = s\<lparr>refs := refs s - 1, shared_freed := (refs s \<le> 1 \<or> shared_freed s)\<rparr>"
  by (simp add: shared_unref_unlock_def Let_def)

lemma ev_ok_cong:
  "dispatching t = dispatching s \<Longrightarrow> pool_freed t = pool_freed s \<Longrightarrow> set (active t) = set (active s) \<Longrightarrow> ev_ok e t = ev_ok e s"
  by (cases e) auto

text \<open>Operations that change only what a worker does, not which works it has.\<close>

definition same_works :: "pool \<Rightarrow> pool \<Rightarrow> bool" where
  "same_works s t \<longleftrightarrow> queued t = queued s \<and> dones t = dones s \<and> active t = active s \<and> wstate t = wstate s \<and>
     timer t = timer s \<and> pool_freed t = pool_freed s \<and> ev t = ev s \<and> dispatching t = dispatching s \<and>
     free_pending t = free_pending s \<and> efd t = efd s \<and> closing t = closing s \<and> max_workers t = max_workers s \<and>
     nr_workers t = nr_workers s \<and> length (workers t) = length (workers s) \<and> nr_queued t = nr_queued s \<and>
     returned t = returned s \<and> called t = called s \<and> next_work t = next_work s \<and> freed t = freed s \<and>
     mset (running t) = mset (running s) \<and> mset (dropping t) = mset (dropping s)"

lemma same_works_inv:
  assumes "pool_inv s" "same_works s t" "counts_ok t"
    "0 < cnt (\<lambda>p. p = Idle) t \<Longrightarrow> \<not> closing s \<and> length (queued s) \<le> cnt checks t"
  shows "pool_inv t"
proof -
  have sr: "set (running t) = set (running s)" "set (dropping t) = set (dropping s)"
    using assms(2) by (auto simp: same_works_def dest: mset_eq_setD)
  have "placed [] t" using assms(1,2) by (simp add: pool_inv_def same_works_def placed_def)
  moreover have "states_ok t" using assms(1,2) sr by (auto simp: pool_inv_def same_works_def states_ok_def)
  moreover have "ev_ok (ev t) t"
    using assms(1,2) ev_ok_cong [of t s] by (simp add: pool_inv_def same_works_def)
  moreover have "wake_ok t" using assms(1,2,4) by (auto simp: pool_inv_def same_works_def wake_ok_def)
  moreover have "logs_ok t" using assms(1,2) sr by (simp add: pool_inv_def same_works_def logs_ok_def)
  ultimately show ?thesis using assms(3) by (simp add: pool_inv_def)
qed

lemma same_works_set_worker:
  assumes "i < length (workers s)" "workers s ! i = q" "runs q = runs p" "drops q = drops p"
  shows "same_works s (set_worker i p s)"
  using worker_update [OF assms(1,2), where p = p] assms(3,4) by (simp add: same_works_def view_defs)


lemma top_gone:
  assumes "pool_inv s" "i < length (workers s)" "workers s ! i = Ready" "closing s"
  shows "pool_inv (worker_top i s)"
proof (rule same_works_inv [OF assms(1)])
  have t: "worker_top i s = shared_unref_unlock (set_worker i Gone s)" using assms by (simp add: worker_top_def)
  note u = worker_update [OF assms(2,3), where p = Gone]
  show "same_works s (worker_top i s)"
    using same_works_set_worker [OF assms(2,3), of Gone] by (simp add: t unref_eq same_works_def view_defs)
  show "counts_ok (worker_top i s)" using assms(1,4) u(1) [of lives] u(1) [of waits]
    by (auto simp: t unref_eq pool_inv_def counts_ok_def cnt_def)
  show "0 < cnt (\<lambda>p. p = Idle) (worker_top i s) \<Longrightarrow> \<not> closing s \<and> length (queued s) \<le> cnt checks (worker_top i s)"
    using assms(1,4) u(1) [of "\<lambda>p. p = Idle"] by (auto simp: t unref_eq pool_inv_def wake_ok_def cnt_def)
qed

lemma top_idle:
  assumes "pool_inv s" "i < length (workers s)" "workers s ! i = Ready" "\<not> closing s" "queued s = []"
  shows "pool_inv (worker_top i s)"
proof (rule same_works_inv [OF assms(1)])
  have t: "worker_top i s = set_worker i Idle (s\<lparr>nr_idle := nr_idle s + 1\<rparr>)" using assms by (simp add: worker_top_def)
  note u = worker_update [OF assms(2,3), where p = Idle]
  show "same_works s (worker_top i s)"
    using same_works_set_worker [OF assms(2,3), of Idle] by (simp add: t same_works_def view_defs)
  show "counts_ok (worker_top i s)" using assms(1,4) u(1) [of lives] u(1) [of waits] u(1) [of "\<lambda>p. p = Gone"]
    by (auto simp: t pool_inv_def counts_ok_def cnt_def)
qed (use assms in auto)

lemma top_inv: "pool_inv s \<Longrightarrow> i < length (workers s) \<Longrightarrow> workers s ! i = Ready \<Longrightarrow> pool_inv (worker_top i s)"
  using top_run top_gone top_idle by (cases "closing s"; cases "queued s") blast+

lemma spurious_inv:
  assumes "pool_inv s" "i < length (workers s)" "workers s ! i = Idle"
  shows "pool_inv (set_worker i Woken s)"
proof (rule same_works_inv [OF assms(1)])
  note u = worker_update [OF assms(2,3), where p = Woken]
  show "same_works s (set_worker i Woken s)" using same_works_set_worker [OF assms(2,3), of Woken] by simp
  show "counts_ok (set_worker i Woken s)" using assms(1) u(1) [of lives] u(1) [of waits] u(1) [of "\<lambda>p. p = Gone"]
    by (auto simp: pool_inv_def counts_ok_def cnt_def)
  show "0 < cnt (\<lambda>p. p = Idle) (set_worker i Woken s) \<Longrightarrow>
      \<not> closing s \<and> length (queued s) \<le> cnt checks (set_worker i Woken s)"
    using assms(1) u(1) [of "\<lambda>p. p = Idle"] u(1) [of checks] by (auto simp: pool_inv_def wake_ok_def cnt_def)
qed

lemma top_ready: "worker_top i s = worker_top i (set_worker i Ready s)"
  by (simp add: worker_top_def set_worker_def shared_unref_unlock_def Let_def split: list.split)

lemma wake_inv:
  assumes "pool_inv s" "i < length (workers s)" "workers s ! i = Woken"
  shows "pool_inv (worker_wake i s)"
proof -
  let ?t = "set_worker i Ready (s\<lparr>nr_idle := nr_idle s - 1\<rparr>)"
  note u = worker_update [OF assms(2,3), where p = Ready]
  have "pool_inv ?t"
  proof (rule same_works_inv [OF assms(1)])
    show "same_works s ?t"
      using same_works_set_worker [OF assms(2,3), of Ready] by (simp add: same_works_def view_defs)
    show "counts_ok ?t" using assms(1) u(1) [of lives] u(1) [of waits] u(1) [of "\<lambda>p. p = Gone"]
      by (auto simp: pool_inv_def counts_ok_def cnt_def)
    show "0 < cnt (\<lambda>p. p = Idle) ?t \<Longrightarrow> \<not> closing s \<and> length (queued s) \<le> cnt checks ?t"
      using assms(1) u(1) [of "\<lambda>p. p = Idle"] u(1) [of checks] by (auto simp: pool_inv_def wake_ok_def cnt_def)
  qed
  then show ?thesis unfolding worker_wake_def by (subst top_ready) (rule top_inv, use assms in auto)
qed

lemma return_drop_inv:
  assumes "pool_inv s" "i < length (workers s)" "workers s ! i = Run w" "wstate s w = WORK_DROPPED"
  shows "pool_inv (worker_return i w s)"
proof -
  let ?t = "set_worker i (Drop w) (s\<lparr>returned := returned s @ [w]\<rparr>)"
  have t: "worker_return i w s = ?t" using assms by (simp add: worker_return_def)
  have r: "mset (running s) = mset (running ?t) + {#w#}" "mset (dropping ?t) = mset (dropping s) + {#w#}"
    "\<And>P. cnt P ?t + of_bool (P (Run w)) = cnt P s + of_bool (P (Drop w))"
    using worker_update [OF assms(2,3), where p = "Drop w"] by (simp_all add: view_defs)
  note sr = set_mset_insert [OF r(1)] set_mset_insert [OF r(2)]
  have d: "w \<notin> set (queued s)" "w \<notin> set (dones s)" "w < next_work s"
    using placed_distinct [of "[]" s] assms(1) sr by (auto simp: pool_inv_def)
  have p: "placed [] ?t" using assms r(1,2) by (simp add: pool_inv_def placed_def)
  have w: "w \<notin> set (running ?t)" using placed_distinct [OF p] sr by auto
  have "counts_ok ?t" using assms r(3) [of lives] r(3) [of waits] r(3) [of "\<lambda>p. p = Gone"]
    by (simp add: pool_inv_def counts_ok_def)
  moreover have "states_ok ?t" using assms sr d w by (auto simp: pool_inv_def states_ok_def)
  moreover have "ev_ok (ev ?t) ?t" using assms by (cases "ev s") (simp_all add: pool_inv_def)
  moreover have "wake_ok ?t" using assms r(3) [of "\<lambda>p. p = Idle"] r(3) [of checks]
    by (auto simp: pool_inv_def wake_ok_def)
  moreover have "logs_ok ?t" using assms sr d w by (auto simp: pool_inv_def logs_ok_def)
  ultimately show ?thesis using p by (simp add: t pool_inv_def)
qed

lemma return_done_inv:
  assumes "pool_inv s" "i < length (workers s)" "workers s ! i = Run w" "wstate s w \<noteq> WORK_DROPPED"
  shows "pool_inv (worker_return i w s)"
proof -
  let ?t = "set_worker i Ready (s\<lparr>returned := returned s @ [w], wstate := (wstate s)(w := WORK_DONE), dones := dones s @ [w],
    efd := efd s + 1\<rparr>)"
  have t: "worker_return i w s = worker_top i ?t"
    using assms by (simp add: worker_return_def Let_def) (rule top_ready)
  have r: "mset (running s) = mset (running ?t) + {#w#}" "mset (dropping ?t) = mset (dropping s)"
    "\<And>P. cnt P ?t + of_bool (P (Run w)) = cnt P s + of_bool (P Ready)"
    using worker_update [OF assms(2,3), where p = Ready] by (simp_all add: view_defs)
  note sr = set_mset_insert [OF r(1)] mset_eq_setD [OF r(2)]
  have d: "w \<notin> set (queued s)" "w \<notin> set (dones s)" "w < next_work s"
    using placed_distinct [of "[]" s] assms(1) sr by (auto simp: pool_inv_def)
  have p: "placed [] ?t" using assms r(1,2) by (simp add: pool_inv_def placed_def)
  have w: "w \<notin> set (running ?t)" using placed_distinct [OF p] by auto
  have "counts_ok ?t" using assms r(3) [of lives] r(3) [of waits] r(3) [of "\<lambda>p. p = Gone"]
    by (simp add: pool_inv_def counts_ok_def)
  moreover have "states_ok ?t" using assms sr d w by (auto simp: pool_inv_def states_ok_def)
  moreover have "ev_ok (ev ?t) ?t" using assms by (cases "ev s") (simp_all add: pool_inv_def)
  moreover have "wake_ok ?t" using assms r(3) [of "\<lambda>p. p = Idle"] r(3) [of checks]
    by (auto simp: pool_inv_def wake_ok_def)
  moreover have "logs_ok ?t" using assms sr d w by (auto simp: pool_inv_def logs_ok_def)
  ultimately have "pool_inv ?t" using p by (simp add: pool_inv_def)
  then show ?thesis unfolding t by (rule top_inv) (use assms in auto)
qed

lemma drop_inv:
  assumes "pool_inv s" "i < length (workers s)" "workers s ! i = Drop w"
  shows "pool_inv (worker_drop i w s)"
proof -
  let ?t = "set_worker i Ready (s\<lparr>freed := freed s @ [w]\<rparr>)"
  have t: "worker_drop i w s = ?t" by (simp add: worker_drop_def)
  have r: "mset (running ?t) = mset (running s)" "mset (dropping s) = mset (dropping ?t) + {#w#}"
    "\<And>P. cnt P ?t + of_bool (P (Drop w)) = cnt P s + of_bool (P Ready)"
    using worker_update [OF assms(2,3), where p = Ready] by (simp_all add: view_defs)
  note sr = mset_eq_setD [OF r(1)] set_mset_insert [OF r(2)]
  have "counts_ok ?t" using assms r(3) [of lives] r(3) [of waits] r(3) [of "\<lambda>p. p = Gone"]
    by (simp add: pool_inv_def counts_ok_def)
  moreover have "placed [] ?t" using assms r(1,2) by (simp add: pool_inv_def placed_def)
  moreover have "states_ok ?t" using assms sr by (auto simp: pool_inv_def states_ok_def)
  moreover have "ev_ok (ev ?t) ?t" using assms by (cases "ev s") (simp_all add: pool_inv_def)
  moreover have "wake_ok ?t" using assms r(3) [of "\<lambda>p. p = Idle"] r(3) [of checks]
    by (auto simp: pool_inv_def wake_ok_def)
  moreover have "logs_ok ?t" using assms sr by (auto simp: pool_inv_def logs_ok_def)
  ultimately show ?thesis by (simp add: t pool_inv_def)
qed


text \<open>The invariant less the event loop's place, while \<open>xs\<close> are in its hands.\<close>

definition core :: "work list \<Rightarrow> pool \<Rightarrow> bool" where
  "core xs s \<longleftrightarrow> counts_ok s \<and> placed xs s \<and> states_ok s \<and> wake_ok s \<and> logs_ok s"

lemma pool_inv_core: "pool_inv s \<longleftrightarrow> core [] s \<and> ev_ok (ev s) s"
  by (auto simp: pool_inv_def core_def)

definition opt :: "work option \<Rightarrow> work list" where
  "opt r = (case r of None \<Rightarrow> [] | Some w \<Rightarrow> [w])"

lemma opt_simps [simp]: "opt None = []" "opt (Some w) = [w]"
  by (simp_all add: opt_def)

lemma active_cases:
  assumes "core xs s" "w \<in> set (active s)"
  obtains (queued) "w \<in> set (queued s)" "wstate s w = WORK_QUEUED" "w \<notin> set (dones s)" "w \<notin> set (running s)"
  | (ended) "w \<in> set (dones s)" "wstate s w = WORK_DONE" "w \<notin> set (queued s)" "w \<notin> set (running s)"
  | (running) "w \<in> set (running s)" "wstate s w = WORK_RUNNING" "w \<notin> set (queued s)" "w \<notin> set (dones s)"
proof -
  have "distinct (queued s @ dones s @ running s)"
    using placed_distinct(1) [of xs s] assms(1) by (simp add: core_def Int_Un_distrib)
  then have "w \<notin> set (queued s) \<or> w \<notin> set (dones s)" "w \<notin> set (queued s) \<or> w \<notin> set (running s)"
    "w \<notin> set (dones s) \<or> w \<notin> set (running s)" by auto
  moreover have "w \<in> set (queued s) \<and> wstate s w = WORK_QUEUED \<or> w \<in> set (dones s) \<and> wstate s w = WORK_DONE \<or>
      w \<in> set (running s) \<and> wstate s w = WORK_RUNNING"
    using assms by (auto simp: core_def states_ok_def)
  ultimately show thesis using that by blast
qed

lemma mset_remove1_add: "w \<in> set xs \<Longrightarrow> mset xs = mset (remove1 w xs) + {#w#}"
  by (simp add: insert_DiffM2)

lemma detach_core:
  assumes "core [] s" "w \<in> set (active s)" "detach w s = (r, t)"
  shows "core (opt r) t" "ev t = ev s" "dispatching t = dispatching s" "pool_freed t = pool_freed s"
    "active t = remove1 w (active s)" "called t = called s" "returned t = returned s" "next_work t = next_work s"
    "workers t = workers s" "free_pending t = free_pending s" "closing t = closing s"
proof -
  note inv = assms(1)[unfolded core_def]
  show fr: "ev t = ev s" "dispatching t = dispatching s" "pool_freed t = pool_freed s"
    "active t = remove1 w (active s)" "called t = called s" "returned t = returned s" "next_work t = next_work s"
    "workers t = workers s" "free_pending t = free_pending s" "closing t = closing s"
    using assms(3) by (auto simp: detach_def Let_def split: if_splits)
  have da: "distinct (active s)" "set (active t) = set (active s) - {w}"
    using inv fr(4) by (auto simp: states_ok_def)
  from assms(1,2) show "core (opt r) t"
  proof (cases rule: active_cases)
    case queued
    have t: "t = s\<lparr>active := remove1 w (active s), timer := (timer s)(w := False), queued := remove1 w (queued s), nr_queued := nr_queued s - 1\<rparr>" "r = Some w"
      using assms(3) queued by (auto simp: detach_def Let_def remove1_idem)
    have q: "set (queued t) = set (queued s) - {w}" "length (queued t) = length (queued s) - 1"
      using t(1) queued placed_distinct(1) [of "[]" s] inv by (auto simp: length_remove1)
    have v: "running t = running s" "dropping t = dropping s" "\<And>P. cnt P t = cnt P s" by (simp_all add: t view_defs)
    have "counts_ok t" using inv q v by (simp add: counts_ok_def t)
    moreover have x: "queued t = remove1 w (queued s)" "dones t = dones s" "freed t = freed s" "opt r = [w]" by (simp_all add: t)
    moreover have "mset (queued s) = mset (queued t) + {#w#}" unfolding x(1) by (rule mset_remove1_add [OF queued(1)])
    then have "placed (opt r) t" using inv v fr x(2-) by (simp add: placed_def)
    moreover have "states_ok t" using inv q v da queued by (auto simp: states_ok_def t)
    moreover have "wake_ok t" using inv q v by (auto simp: wake_ok_def t)
    moreover have "logs_ok t" using inv q v da by (auto simp: logs_ok_def t)
    ultimately show ?thesis by (simp add: core_def)
  next
    case ended
    have t: "t = s\<lparr>active := remove1 w (active s), timer := (timer s)(w := False), dones := remove1 w (dones s)\<rparr>" "r = Some w"
      using assms(3) ended by (auto simp: detach_def Let_def remove1_idem)
    have q: "set (dones t) = set (dones s) - {w}"
      using t(1) ended placed_distinct(1) [of "[]" s] inv by auto
    have v: "running t = running s" "dropping t = dropping s" "\<And>P. cnt P t = cnt P s" by (simp_all add: t view_defs)
    have "counts_ok t" using inv v by (simp add: counts_ok_def t)
    moreover have x: "dones t = remove1 w (dones s)" "queued t = queued s" "freed t = freed s" "opt r = [w]" by (simp_all add: t)
    moreover have "mset (dones s) = mset (dones t) + {#w#}" unfolding x(1) by (rule mset_remove1_add [OF ended(1)])
    then have "placed (opt r) t" using inv v fr x(2-) by (simp add: placed_def)
    moreover have "states_ok t" using inv q v da ended by (auto simp: states_ok_def t)
    moreover have "wake_ok t" using inv v by (auto simp: wake_ok_def t)
    moreover have "logs_ok t" using inv q v da by (auto simp: logs_ok_def t)
    ultimately show ?thesis by (simp add: core_def)
  next
    case running
    have t: "t = s\<lparr>active := remove1 w (active s), timer := (timer s)(w := False), wstate := (wstate s)(w := WORK_DROPPED)\<rparr>" "r = None"
      using assms(3) running by (auto simp: detach_def Let_def)
    have v: "running t = running s" "dropping t = dropping s" "\<And>P. cnt P t = cnt P s" by (simp_all add: t view_defs)
    have "counts_ok t" using inv v by (simp add: counts_ok_def t)
    moreover have "placed (opt r) t" using inv v by (simp add: placed_def t)
    moreover have "states_ok t" using inv v da running by (auto simp: states_ok_def t)
    moreover have "wake_ok t" using inv v by (auto simp: wake_ok_def t)
    moreover have "logs_ok t" using inv v da by (auto simp: logs_ok_def t)
    ultimately show ?thesis by (simp add: core_def)
  qed
qed

lemma work_free_core: "core (opt r) t \<Longrightarrow> core [] (work_free r t)"
proof (cases r)
  case (Some w)
  let ?u = "t\<lparr>freed := freed t @ [w]\<rparr>"
  assume c: "core (opt r) t"
  have v: "running ?u = running t" "dropping ?u = dropping t" "\<And>P. cnt P ?u = cnt P t" by (simp_all add: view_defs)
  have "counts_ok ?u" using c v by (simp add: core_def counts_ok_def)
  moreover have "placed [] ?u" using c v Some by (simp add: core_def placed_def)
  moreover have "states_ok ?u" using c v by (auto simp: core_def states_ok_def)
  moreover have "wake_ok ?u" using c v by (simp add: core_def wake_ok_def)
  moreover have "logs_ok ?u" using c v by (simp add: core_def logs_ok_def)
  ultimately show ?thesis by (simp add: core_def Some)
qed simp

lemma free_detached_core:
  assumes "core [] s" "w \<in> set (active s)"
  shows "core [] (free_detached w s)" "ev (free_detached w s) = ev s" "dispatching (free_detached w s) = dispatching s"
    "pool_freed (free_detached w s) = pool_freed s" "active (free_detached w s) = remove1 w (active s)"
proof -
  obtain r t where d: "detach w s = (r, t)" by fastforce
  then have f: "free_detached w s = work_free r t" by (simp add: free_detached_def)
  note dc = detach_core [OF assms d]
  show "core [] (free_detached w s)" unfolding f by (rule work_free_core [OF dc(1)])
  show "ev (free_detached w s) = ev s" "dispatching (free_detached w s) = dispatching s"
    "pool_freed (free_detached w s) = pool_freed s" "active (free_detached w s) = remove1 w (active s)"
    unfolding f using dc by (cases r; simp)+
qed

lemma cancel_inv:
  assumes "pool_inv s" "in_client s" "w \<in> set (active s)"
  shows "pool_inv (dmn_work_cancel (Some w) s)"
  using assms free_detached_core [of s w] by (auto simp: pool_inv_core dmn_work_cancel_def in_client_def)

lemma finish_inv:
  assumes "pool_inv s" "w \<in> set (active s)" "\<not> to \<Longrightarrow> w \<in> set (dones s)"
    "b \<and> ev s = EvOnDone \<or> \<not> b \<and> ev s = EvTimeout w"
  shows "pool_inv (finish b w to s)"
proof -
  obtain r t where d: "detach w s = (r, t)" by fastforce
  have c: "core [] s" using assms(1) by (simp add: pool_inv_core)
  note dc = detach_core [OF c assms(2) d]
  let ?t = "t\<lparr>called := called t @ [(w, to)], ev := EvCall b r\<rparr>"
  have f: "finish b w to s = ?t" by (simp add: finish_def d)
  have p: "pending (ev s) = []" using assms(4) by auto
  have v: "running ?t = running t" "dropping ?t = dropping t" "\<And>P. cnt P ?t = cnt P t" by (simp_all add: view_defs)
  have w: "w \<notin> fst ` set (called s)" "w < next_work s" "\<not> to \<Longrightarrow> w \<in> set (returned s)" "w \<notin> set (active t)"
    using c assms(2,3) placed_distinct(2) [of "[]" s] dc(5) by (auto simp: core_def logs_ok_def states_ok_def)
  have e: "dispatching t = b" "\<not> pool_freed t" "\<And>k. ev t \<noteq> EvDestroy k"
    using assms(1,4) dc(2-4) by (auto simp: pool_inv_def)
  have "counts_ok ?t" using dc(1) v by (simp add: core_def counts_ok_def)
  moreover have "placed [] ?t" using dc(1,2) p v by (cases r) (auto simp: core_def placed_def)
  moreover have "states_ok ?t" using dc(1) v by (auto simp: core_def states_ok_def)
  moreover have "wake_ok ?t" using dc(1) v e by (auto simp: core_def wake_ok_def)
  moreover have "logs_ok ?t" using dc v w by (auto simp: core_def logs_ok_def)
  moreover have "ev_ok (ev ?t) ?t" using e by simp
  ultimately show ?thesis by (simp add: f pool_inv_def)
qed


subsection \<open>Submission\<close>

text \<open>The invariant with \<open>d\<close> wakeups outstanding.\<close>

definition owed :: "nat \<Rightarrow> pool \<Rightarrow> bool" where
  "owed d s \<longleftrightarrow> counts_ok s \<and> placed [] s \<and> states_ok s \<and> ev_ok (ev s) s \<and> logs_ok s \<and>
     (0 < cnt (\<lambda>p. p = Idle) s \<longrightarrow> \<not> closing s \<and> length (queued s) \<le> cnt checks s + d) \<and>
     (dones s \<noteq> [] \<longrightarrow> 0 < efd s \<or> dispatching s \<or> (\<exists>k. ev s = EvDestroy k)) \<and>
     (free_pending s \<longrightarrow> dispatching s \<or> (\<exists>k. ev s = EvDestroy k) \<or> pool_freed s)"

lemma owed_inv: "pool_inv s \<longleftrightarrow> owed 0 s \<and> (queued s \<noteq> [] \<longrightarrow> workers s \<noteq> [])"
  by (auto simp: owed_def pool_inv_def wake_ok_def)

definition enqueue :: "bool \<Rightarrow> pool \<Rightarrow> pool" where
  "enqueue tm s = (let w = next_work s in s\<lparr>timer := (timer s)(w := tm), wstate := (wstate s)(w := WORK_QUEUED),
     queued := queued s @ [w], nr_queued := nr_queued s + 1, active := active s @ [w], next_work := w + 1\<rparr>)"

lemma enqueue_owed:
  assumes "pool_inv s" "in_client s"
  shows "owed 1 (enqueue tm s)"
proof -
  let ?t = "enqueue tm s"
  have v: "running ?t = running s" "dropping ?t = dropping s" "\<And>P. cnt P ?t = cnt P s"
    by (simp_all add: view_defs enqueue_def Let_def)
  note d = placed_distinct(2) [of "[]" s]
  have pl: "placed [] s" using assms(1) by (simp add: pool_inv_def)
  have n: "next_work s \<notin> set (queued s)" "next_work s \<notin> set (dones s)" "next_work s \<notin> set (running s)"
    "next_work s \<notin> set (active s)" "\<And>w. w \<in> set (dropping s) \<Longrightarrow> w \<noteq> next_work s"
    using placed_distinct(2) [OF pl] assms(1) by (auto simp: pool_inv_def states_ok_def)
  have "counts_ok ?t" using assms(1) v by (simp add: pool_inv_def counts_ok_def enqueue_def Let_def)
  moreover have "placed [] ?t" using pl v by (simp add: placed_def enqueue_def Let_def)
  moreover have "states_ok ?t" using assms v n
    by (auto simp: pool_inv_def states_ok_def in_client_def enqueue_def Let_def)
  moreover have "ev_ok (ev ?t) ?t" using assms by (cases "ev s") (auto simp: pool_inv_def enqueue_def Let_def)
  moreover have "logs_ok ?t" using assms(1) v n by (auto simp: pool_inv_def logs_ok_def enqueue_def Let_def)
  moreover have "0 < cnt (\<lambda>p. p = Idle) s \<longrightarrow> \<not> closing s \<and> length (queued s) \<le> cnt checks s"
    "dones s \<noteq> [] \<longrightarrow> 0 < efd s \<or> dispatching s \<or> (\<exists>k. ev s = EvDestroy k)"
    "free_pending s \<longrightarrow> dispatching s \<or> (\<exists>k. ev s = EvDestroy k) \<or> pool_freed s"
    using assms(1) by (auto simp: pool_inv_def wake_ok_def)
  ultimately show ?thesis unfolding owed_def by (simp add: v) (simp add: enqueue_def Let_def)
qed

definition add_worker :: "pool \<Rightarrow> pool" where
  "add_worker s = s\<lparr>workers := workers s @ [Ready], refs := refs s + 1, nr_workers := nr_workers s + 1\<rparr>"

lemma add_worker_owed:
  assumes "owed (Suc d) s" "nr_workers s < max_workers s" "\<not> pool_freed s"
  shows "owed d (add_worker s)"
proof -
  let ?t = "add_worker s"
  have v: "running ?t = running s" "dropping ?t = dropping s" "\<And>P. cnt P ?t = cnt P s + of_bool (P Ready)"
    by (simp_all add: view_defs add_worker_def)
  have "counts_ok ?t" using assms v by (simp add: owed_def counts_ok_def add_worker_def)
  moreover have "placed [] ?t" using assms(1) v by (simp add: owed_def placed_def add_worker_def)
  moreover have "states_ok ?t" using assms(1) v by (auto simp: owed_def states_ok_def add_worker_def)
  moreover have "ev_ok (ev ?t) ?t" using assms(1) by (cases "ev s") (auto simp: owed_def add_worker_def)
  moreover have "logs_ok ?t" using assms(1) v by (simp add: owed_def logs_ok_def add_worker_def)
  ultimately show ?thesis using assms(1) by (simp add: owed_def v) (simp add: add_worker_def)
qed

lemma cond_signal_cases:
  obtains (none) "cond_signal pick s = s" "cnt (\<lambda>p. p = Idle) s = 0"
  | (one) k where "k < length (workers s)" "workers s ! k = Idle" "cond_signal pick s = set_worker k Woken s"
proof (cases "waiting s = []")
  case True
  then have "\<forall>k < length (workers s). workers s ! k \<noteq> Idle" by (auto simp: waiting_def filter_empty_conv)
  then have "cnt (\<lambda>p. p = Idle) s = 0" by (auto simp: cnt_def filter_empty_conv in_set_conv_nth)
  then show thesis using none True by (simp add: cond_signal_def)
next
  case False
  then have "waiting s ! (pick mod length (waiting s)) \<in> set (waiting s)" by simp
  then show thesis using one False by (auto simp: waiting_def cond_signal_def)
qed

lemma signal_inv:
  assumes "owed 1 s" "workers s \<noteq> []"
  shows "pool_inv (cond_signal pick s)"
proof (cases pick s rule: cond_signal_cases)
  case none
  then show ?thesis using assms by (simp add: owed_inv owed_def)
next
  case (one k)
  note u = worker_update [OF one(1,2), where p = Woken]
  let ?t = "set_worker k Woken s"
  have v: "mset (running ?t) = mset (running s)" "mset (dropping ?t) = mset (dropping s)"
    using u(2,3) by (simp_all add: view_defs)
  note sr = mset_eq_setD [OF v(1)] mset_eq_setD [OF v(2)]
  have "counts_ok ?t" using assms(1) u(1) [of lives] u(1) [of waits] u(1) [of "\<lambda>p. p = Gone"]
    by (auto simp: owed_def counts_ok_def cnt_def)
  moreover have "placed [] ?t" using assms(1) v by (simp add: owed_def placed_def)
  moreover have "states_ok ?t" using assms(1) sr by (auto simp: owed_def states_ok_def)
  moreover have "ev_ok (ev ?t) ?t" using assms(1) by (cases "ev s") (auto simp: owed_def)
  moreover have "logs_ok ?t" using assms(1) sr by (simp add: owed_def logs_ok_def)
  moreover have "wake_ok ?t" using assms u(1) [of "\<lambda>p. p = Idle"] u(1) [of checks]
    by (auto simp: owed_def wake_ok_def cnt_def)
  ultimately show ?thesis by (simp add: one(3) pool_inv_def)
qed

text \<open>A refused submission leaves nothing but the fields of the freed work.\<close>

lemma refused_inv:
  assumes "pool_inv s"
  shows "pool_inv (s\<lparr>timer := (timer s)(next_work s := False), wstate := (wstate s)(next_work s := x)\<rparr>)"
proof -
  let ?t = "s\<lparr>timer := (timer s)(next_work s := False), wstate := (wstate s)(next_work s := x)\<rparr>"
  have v: "running ?t = running s" "dropping ?t = dropping s" "\<And>P. cnt P ?t = cnt P s" by (simp_all add: view_defs)
  have pl: "placed [] s" using assms by (simp add: pool_inv_def)
  have n: "next_work s \<notin> set (queued s)" "next_work s \<notin> set (dones s)" "next_work s \<notin> set (running s)"
    using placed_distinct(2) [OF pl] by auto
  have "counts_ok ?t" using assms v by (simp add: pool_inv_def counts_ok_def)
  moreover have "placed [] ?t" using pl v by (simp add: placed_def)
  moreover have "states_ok ?t" using assms v n by (auto simp: pool_inv_def states_ok_def)
  moreover have "ev_ok (ev ?t) ?t" using assms by (cases "ev s") (auto simp: pool_inv_def)
  moreover have "wake_ok ?t" using assms v by (simp add: pool_inv_def wake_ok_def)
  moreover have "logs_ok ?t" using assms v by (simp add: pool_inv_def logs_ok_def)
  ultimately show ?thesis by (simp add: pool_inv_def)
qed

lemma cnt_le: "cnt P s \<le> length (workers s)"
  by (simp add: cnt_def)

lemmas submit_simps = dmn_work_submit_def start_worker_def enqueue_def add_worker_def Let_def

text \<open>The outcomes of a submission.\<close>

lemma submit_cases:
  assumes "pool_inv s"
  obtains (refused) r where "dmn_work_submit v t m te ce pick s = (r, s)" "r \<noteq> Inr 0"
  | (no_worker) e where "dmn_work_submit v t m te ce pick s = (Inr e,
      s\<lparr>timer := (timer s)(next_work s := False), wstate := (wstate s)(next_work s := WORK_QUEUED)\<rparr>)" "e \<noteq> 0"
      "workers s = []"
  | (queued) "dmn_work_submit v t m te ce pick s = (Inr 0, cond_signal pick (enqueue (t \<noteq> 0) s))" "workers s \<noteq> []"
  | (started) "dmn_work_submit v t m te ce pick s = (Inr 0, cond_signal pick (add_worker (enqueue (t \<noteq> 0) s)))"
      "nr_workers s < max_workers s"
proof -
  have c: "nr_workers s = length (workers s)" "nr_queued s = length (queued s)" "nr_idle s \<le> length (workers s)"
    "0 < max_workers s" "next_work s \<notin> set (queued s)"
    using assms placed_distinct(2) [of "[]" s] cnt_le [of waits s] by (auto simp: pool_inv_def counts_ok_def)
  have sig: "(cond_signal pick u)\<lparr>active := a, next_work := n\<rparr> = cond_signal pick (u\<lparr>active := a, next_work := n\<rparr>)" for u a n
    by (simp add: cond_signal_def waiting_def set_worker_def)
  have swap: "u\<lparr>workers := a, refs := b, nr_workers := c, active := d, next_work := e\<rparr> =
      u\<lparr>active := d, next_work := e, workers := a, refs := b, nr_workers := c\<rparr>" for u a b c d e
    by (rule pool.equality) simp_all
  show thesis
  proof (cases "\<not> v \<or> \<not> m \<or> t \<noteq> 0 \<and> te < 0")
    case True
    then have "\<exists>r. dmn_work_submit v t m te ce pick s = (r, s) \<and> r \<noteq> Inr 0" by (auto simp: dmn_work_submit_def)
    then show thesis using refused by blast
  next
    case ok: False
    show thesis
    proof (cases "nr_queued s + 1 > nr_idle s \<and> nr_workers s < max_workers s")
      case True
      consider "ce = 0" | "ce \<noteq> 0" "workers s = []" | "ce \<noteq> 0" "workers s \<noteq> []" by blast
      then show thesis
      proof cases
        case 1
        then have "dmn_work_submit v t m te ce pick s = (Inr 0, cond_signal pick (add_worker (enqueue (t \<noteq> 0) s)))"
          using True ok by (simp add: submit_simps sig swap)
        then show thesis using started True by blast
      next
        case 2
        then have "dmn_work_submit v t m te ce pick s = (Inr (- int ce),
            s\<lparr>timer := (timer s)(next_work s := False), wstate := (wstate s)(next_work s := WORK_QUEUED)\<rparr>)"
          using True ok c by (auto simp: submit_simps remove1_append)
        then show thesis using no_worker 2 by simp
      next
        case 3
        then have "dmn_work_submit v t m te ce pick s = (Inr 0, cond_signal pick (enqueue (t \<noteq> 0) s))"
          using True ok c(1) by (simp add: submit_simps sig)
        then show thesis using queued 3 by blast
      qed
    next
      case False
      then have "workers s \<noteq> []" using c by auto
      moreover have "dmn_work_submit v t m te ce pick s = (Inr 0, cond_signal pick (enqueue (t \<noteq> 0) s))"
        using False ok calculation c(1) by (auto simp: submit_simps sig)
      ultimately show thesis using queued by blast
    qed
  qed
qed

lemma submit_inv:
  assumes "pool_inv s" "in_client s"
  shows "pool_inv (snd (dmn_work_submit v t m te ce pick s))"
  using assms(1)
proof (cases rule: submit_cases [of s v t m te ce pick])
  case queued
  then show ?thesis using signal_inv [OF enqueue_owed [OF assms]] by (simp add: enqueue_def Let_def)
next
  case started
  have "owed 0 (add_worker (enqueue (t \<noteq> 0) s))"
    using add_worker_owed [of 0] enqueue_owed [OF assms] started assms(2) by (simp add: enqueue_def Let_def in_client_def)
  then have "owed 1 (add_worker (enqueue (t \<noteq> 0) s))" by (auto simp: owed_def)
  then show ?thesis using started signal_inv by (simp add: add_worker_def)
next
  case no_worker
  then show ?thesis using refused_inv [OF assms(1)] by simp
qed (use assms in simp)


subsection \<open>The event loop\<close>

text \<open>Operations that change only the flags and the event loop's place.\<close>

lemma flags_inv:
  assumes "pool_inv s" "pending e = pending (ev s)"
    "dones s \<noteq> [] \<Longrightarrow> 0 < x \<or> d \<or> (\<exists>k. e = EvDestroy k)"
    "f \<Longrightarrow> d \<or> (\<exists>k. e = EvDestroy k) \<or> pool_freed s"
    "ev_ok e (s\<lparr>efd := x, dispatching := d, free_pending := f, ev := e\<rparr>)"
  shows "pool_inv (s\<lparr>efd := x, dispatching := d, free_pending := f, ev := e\<rparr>)"
proof -
  let ?t = "s\<lparr>efd := x, dispatching := d, free_pending := f, ev := e\<rparr>"
  have v: "running ?t = running s" "dropping ?t = dropping s" "\<And>P. cnt P ?t = cnt P s" by (simp_all add: view_defs)
  have "counts_ok ?t" using assms(1) v by (simp add: pool_inv_def counts_ok_def)
  moreover have "placed [] ?t" using assms(1,2) v by (simp add: pool_inv_def placed_def)
  moreover have "states_ok ?t" using assms(1) v by (auto simp: pool_inv_def states_ok_def)
  moreover have "wake_ok ?t" using assms(1,3,4) v by (auto simp: pool_inv_def wake_ok_def)
  moreover have "logs_ok ?t" using assms(1) v by (simp add: pool_inv_def logs_ok_def)
  ultimately show ?thesis using assms(5) by (simp add: pool_inv_def)
qed

lemma wakeD: "pool_inv s \<Longrightarrow> dones s \<noteq> [] \<Longrightarrow> 0 < efd s \<or> dispatching s \<or> (\<exists>k. ev s = EvDestroy k)"
  "pool_inv s \<Longrightarrow> free_pending s \<Longrightarrow> dispatching s \<or> (\<exists>k. ev s = EvDestroy k) \<or> pool_freed s"
  "pool_inv s \<Longrightarrow> ev_ok (ev s) s"
  by (auto simp: pool_inv_def wake_ok_def)

lemma on_done_inv: "pool_inv s \<Longrightarrow> ev s = EvLoop \<Longrightarrow> \<not> pool_freed s \<Longrightarrow> pool_inv (on_done s)"
  using flags_inv [of s EvOnDone 0 True "free_pending s"] by (simp add: on_done_def)

text \<open>The event loop moves on, the flags stay.\<close>

lemma ev_move_inv:
  assumes "pool_inv s" "pending e = pending (ev s)" "\<And>k. ev s \<noteq> EvDestroy k" "ev_ok e (s\<lparr>ev := e\<rparr>)"
  shows "pool_inv (s\<lparr>ev := e\<rparr>)"
proof -
  have "pool_inv (s\<lparr>efd := efd s, dispatching := dispatching s, free_pending := free_pending s, ev := e\<rparr>)"
    using assms wakeD [OF assms(1)] by (intro flags_inv) auto
  then show ?thesis by simp
qed

lemma destroy_inv:
  assumes "pool_inv s" "\<not> pool_freed s" "\<not> dispatching s" "ev s = EvLoop \<or> (\<exists>r. ev s = EvCall False r)"
  shows "pool_inv (destroy s)"
  unfolding destroy_def using assms by (intro ev_move_inv) auto

lemma free_inv:
  assumes "pool_inv s" "in_client s"
  shows "pool_inv (dmn_work_pool_free s)"
proof (cases "dispatching s")
  case True
  have "pool_inv (s\<lparr>efd := efd s, dispatching := dispatching s, free_pending := True, ev := ev s\<rparr>)"
    using assms True wakeD [OF assms(1)] by (intro flags_inv) (auto simp: in_client_def)
  then have "pool_inv (s\<lparr>free_pending := True\<rparr>)" by simp
  then show ?thesis using True by (simp add: dmn_work_pool_free_def)
next
  case False
  then show ?thesis using assms destroy_inv [of s] wakeD(3) [OF assms(1)]
    by (auto simp: dmn_work_pool_free_def in_client_def)
qed

lemma dispatch_inv:
  assumes "pool_inv s" "ev s = EvOnDone"
  shows "pool_inv (on_done_loop s)"
proof (cases "\<not> free_pending s \<and> dones s \<noteq> []")
  case True
  then have "hd (dones s) \<in> set (dones s)" by simp
  moreover have "set (dones s) \<subseteq> set (active s)" using assms(1) by (auto simp: pool_inv_def states_ok_def)
  ultimately have "hd (dones s) \<in> set (active s)" by blast
  then show ?thesis using True assms finish_inv [of s "hd (dones s)" False True] by (auto simp: on_done_loop_def)
next
  case False
  have p: "\<not> pool_freed s" using wakeD(3) [OF assms(1)] assms(2) by simp
  show ?thesis
  proof (cases "free_pending s")
    case True
    have "pool_inv (s\<lparr>efd := efd s, dispatching := False, free_pending := free_pending s, ev := EvDestroy EvLoop\<rparr>)"
      using assms p by (intro flags_inv) auto
    then have "pool_inv (s\<lparr>dispatching := False, ev := EvDestroy EvLoop\<rparr>)" by simp
    then show ?thesis using True by (simp add: on_done_loop_def destroy_def)
  next
    case f: False
    have "pool_inv (s\<lparr>efd := efd s, dispatching := False, free_pending := free_pending s, ev := EvLoop\<rparr>)"
      using assms f False by (intro flags_inv) auto
    then have "pool_inv (s\<lparr>dispatching := False, ev := EvLoop\<rparr>)" by simp
    then show ?thesis using f False by (simp add: on_done_loop_def)
  qed
qed

lemma elapsed_inv:
  assumes "pool_inv s" "ev s = EvLoop" "\<not> pool_freed s" "timer s w"
  shows "pool_inv (on_timeout w s)"
proof -
  let ?t = "s\<lparr>timer := (timer s)(w := False)\<rparr>"
  have v: "running ?t = running s" "dropping ?t = dropping s" "\<And>P. cnt P ?t = cnt P s" by (simp_all add: view_defs)
  have "counts_ok ?t" using assms(1) v by (simp add: pool_inv_def counts_ok_def)
  moreover have "placed [] ?t" using assms(1,2) v by (simp add: pool_inv_def placed_def)
  moreover have "states_ok ?t" using assms(1) v by (auto simp: pool_inv_def states_ok_def)
  moreover have "wake_ok ?t" using assms(1) v by (simp add: pool_inv_def wake_ok_def)
  moreover have "logs_ok ?t" using assms(1) v by (simp add: pool_inv_def logs_ok_def)
  ultimately have t: "pool_inv ?t" using assms(1,2) by (simp add: pool_inv_def)
  have "w \<in> set (active s)" using assms(1,4) by (auto simp: pool_inv_def states_ok_def)
  then have "pool_inv (?t\<lparr>ev := EvTimeout w\<rparr>)"
    using t assms wakeD(3) [OF assms(1)] by (intro ev_move_inv) auto
  then show ?thesis using t by (simp add: on_timeout_def Let_def)
qed

lemma expire_inv: "pool_inv s \<Longrightarrow> ev s = EvTimeout w \<Longrightarrow> pool_inv (finish False w True s)"
  using finish_inv [of s w True False] wakeD(3) [of s] by auto

lemma called_inv:
  assumes "pool_inv s" "ev s = EvCall b r"
  shows "pool_inv (finish_return b r s)"
proof -
  let ?e = "if b then EvOnDone else EvLoop" and ?r = "work_free r s"
  let ?t = "?r\<lparr>ev := ?e\<rparr>"
  have f: "freed ?r = freed s @ opt r" "pending (EvCall b r) = opt r" by (cases r; simp)+
  have sel: "queued ?r = queued s" "dones ?r = dones s" "workers ?r = workers s" "max_workers ?r = max_workers s"
    "nr_workers ?r = nr_workers s" "nr_idle ?r = nr_idle s" "nr_queued ?r = nr_queued s" "refs ?r = refs s"
    "closing ?r = closing s" "efd ?r = efd s" "shared_freed ?r = shared_freed s" "active ?r = active s"
    "dispatching ?r = dispatching s" "free_pending ?r = free_pending s" "pool_freed ?r = pool_freed s"
    "wstate ?r = wstate s" "timer ?r = timer s" "next_work ?r = next_work s" "returned ?r = returned s"
    "called ?r = called s" by (cases r; simp)+
  have v: "running ?t = running s" "dropping ?t = dropping s" "\<And>P. cnt P ?t = cnt P s" by (simp_all add: view_defs sel)
  have "counts_ok ?t" using assms(1) v by (simp add: pool_inv_def counts_ok_def sel)
  moreover have "placed [] ?t" using assms v f by (auto simp: pool_inv_def placed_def sel ac_simps)
  moreover have "states_ok ?t" using assms(1) v by (auto simp: pool_inv_def states_ok_def sel)
  moreover have "wake_ok ?t" using assms v by (auto simp: pool_inv_def wake_ok_def sel)
  moreover have "logs_ok ?t" using assms(1) v by (simp add: pool_inv_def logs_ok_def sel)
  moreover have "ev_ok ?e ?t" using wakeD(3) [OF assms(1)] assms(2) by (simp add: sel)
  ultimately show ?thesis by (simp add: finish_return_def pool_inv_def)
qed

lemma cnt_broadcast: "cnt P (cond_broadcast s) = cnt (\<lambda>p. P (if p = Idle then Woken else p)) s"
  by (simp add: cond_broadcast_def cnt_def filter_map o_def)

lemma view_broadcast [simp]: "running (cond_broadcast s) = running s" "dropping (cond_broadcast s) = dropping s"
proof -
  have "runs (if p = Idle then Woken else p) = runs p" "drops (if p = Idle then Woken else p) = drops p" for p by auto
  then show "running (cond_broadcast s) = running s" "dropping (cond_broadcast s) = dropping s"
    by (simp_all add: cond_broadcast_def running_def dropping_def o_def)
qed

lemma destroying_inv:
  assumes "pool_inv s" "ev s = EvDestroy k"
  shows "pool_inv (destroy_step k s)"
proof (cases "active s")
  case (Cons w ws)
  then show ?thesis using assms free_detached_core [of s w]
    by (simp add: destroy_step_def pool_inv_core)
next
  case Nil
  have e: "\<not> dispatching s" "\<not> pool_freed s" "k = EvLoop \<or> (\<exists>r. k = EvCall False r)"
    using wakeD(3) [OF assms(1)] assms(2) by auto
  have q: "queued s = []" "dones s = []" using assms(1) Nil by (auto simp: pool_inv_def states_ok_def)
  let ?s = "s\<lparr>pool_freed := True, closing := True, ev := k\<rparr>"
  let ?t = "shared_unref_unlock (cond_broadcast ?s)"
  have t: "destroy_step k s = ?t" using Nil by (simp add: destroy_step_def)
  have v: "running ?t = running s" "dropping ?t = dropping s"
    using view_broadcast [of ?s] by (simp_all add: unref_eq view_defs)
  have c: "cnt P ?t = cnt (\<lambda>p. P (if p = Idle then Woken else p)) s" for P
    using cnt_broadcast [of P ?s] by (simp add: unref_eq cnt_def)
  have w: "(\<lambda>p. waits (if p = Idle then Woken else p)) = waits" "(\<lambda>p. lives (if p = Idle then Woken else p)) = lives"
    "(\<lambda>p. (if p = Idle then Woken else p) = Idle) = (\<lambda>p. False)" by (auto simp: fun_eq_iff)
  have c0: "cnt (\<lambda>p. p = Idle) ?t = 0" unfolding c w by (simp add: cnt_def)
  have sel: "queued ?t = queued s" "dones ?t = dones s" "length (workers ?t) = length (workers s)"
    "max_workers ?t = max_workers s" "nr_workers ?t = nr_workers s" "nr_idle ?t = nr_idle s" "nr_queued ?t = nr_queued s"
    "refs ?t = refs s - 1" "shared_freed ?t = (refs s \<le> 1 \<or> shared_freed s)" "closing ?t" "active ?t = active s"
    "dispatching ?t = dispatching s" "pool_freed ?t" "wstate ?t = wstate s" "timer ?t = timer s" "ev ?t = k"
    "next_work ?t = next_work s" "returned ?t = returned s" "called ?t = called s" "freed ?t = freed s"
    by (simp_all add: unref_eq cond_broadcast_def)
  have "counts_ok ?t" using assms(1) e(2) c [of waits] c [of lives]
    by (auto simp: pool_inv_def counts_ok_def sel w)
  moreover have "placed [] ?t" using assms v by (simp add: pool_inv_def placed_def sel)
  moreover have "states_ok ?t" using assms(1) v Nil by (auto simp: pool_inv_def states_ok_def sel)
  moreover have "wake_ok ?t" using q c0 by (simp add: wake_ok_def sel)
  moreover have "logs_ok ?t" using assms(1) v by (simp add: pool_inv_def logs_ok_def sel)
  moreover have "ev_ok (ev ?t) ?t" 
    using e(1,3) unfolding sel(16) by (elim disjE exE) (simp_all add: unref_eq cond_broadcast_def)
  ultimately show ?thesis by (simp add: t pool_inv_def)
qed

lemma step_inv: "step s s' \<Longrightarrow> pool_inv s \<Longrightarrow> pool_inv s'"
proof (induction rule: step.induct)
  case (ret i s w)
  then show ?case using return_drop_inv return_done_inv by (cases "wstate s w = WORK_DROPPED") blast+
qed (simp_all add: top_inv spurious_inv wake_inv drop_inv submit_inv cancel_inv free_inv on_done_inv dispatch_inv
    elapsed_inv expire_inv called_inv destroying_inv)

lemma new_inv: "0 < n \<Longrightarrow> pool_inv (new_pool n)"
  by (simp add: pool_inv_def ok_defs view_defs new_pool_def)

lemma reach_inv: "reach n s \<Longrightarrow> pool_inv s"
  by (induction rule: reach.induct) (auto intro: new_inv step_inv)

section \<open>Properties\<close>

lemma cnt_zero: "cnt P s = 0 \<longleftrightarrow> (\<forall>p \<in> set (workers s). \<not> P p)"
  by (simp add: cnt_def filter_empty_conv)

lemma set_running: "w \<in> set (running s) \<longleftrightarrow> Run w \<in> set (workers s)"
proof -
  have "w \<in> set (runs p) \<longleftrightarrow> p = Run w" for p by (cases p) auto
  then show ?thesis by (auto simp: running_def)
qed

lemma set_dropping: "w \<in> set (dropping s) \<longleftrightarrow> Drop w \<in> set (workers s)"
proof -
  have "w \<in> set (drops p) \<longleftrightarrow> p = Drop w" for p by (cases p) auto
  then show ?thesis by (auto simp: dropping_def)
qed

text \<open>C7: Memory, under every interleaving of the workers, the event loop and the client's calls: no
  work is freed twice; a freed work is no longer queued, run, waiting to be reported or known to
  the client; and the state shared with the workers is freed exactly when the pool is gone and the
  last worker has left, so that no thread touches it after that.  The counters the code keeps of
  queued works and waiting workers are right, and there are never more workers than the
  maximum.\<close>

theorem workpool_memory:
  assumes "reach n s"
  shows "distinct (freed s) \<and>
    set (freed s) \<inter> (set (active s) \<union> set (queued s) \<union> set (dones s) \<union> {w. Run w \<in> set (workers s) \<or> Drop w \<in> set (workers s)}) = {} \<and>
    (shared_freed s \<longleftrightarrow> pool_freed s \<and> (\<forall>p \<in> set (workers s). p = Gone)) \<and>
    nr_queued s = length (queued s) \<and> nr_idle s = cnt waits s \<and> length (workers s) \<le> max_workers s"
proof -
  have i: "counts_ok s" "placed [] s" "states_ok s" using reach_inv [OF assms] by (auto simp: pool_inv_def)
  have "shared_freed s \<longleftrightarrow> pool_freed s \<and> cnt lives s = 0" using i(1) by (auto simp: counts_ok_def)
  moreover have "distinct (freed s)"
    "set (freed s) \<inter> (set (queued s) \<union> set (dones s) \<union> set (running s) \<union> set (dropping s)) = {}"
    using placed_distinct(1) [OF i(2)] by auto
  moreover have "set (active s) \<subseteq> set (queued s) \<union> set (dones s) \<union> set (running s)" using i(3) by (auto simp: states_ok_def)
  ultimately show ?thesis using i(1) unfolding cnt_zero counts_ok_def by (auto simp: set_running set_dropping)
qed

text \<open>A pool with one worker that waits: submission, wakeup, run, report.\<close>

definition demo :: pool where
  "demo = worker_top 0 (snd (dmn_work_submit True 0 True 0 0 0 (new_pool 1)))"

lemma demo_reach: "reach 1 demo"
proof -
  let ?s = "snd (dmn_work_submit True 0 True 0 0 0 (new_pool 1))"
  have "reach 1 ?s" by (rule reach.more [OF reach.new step.submit]) (simp_all add: in_client_def new_pool_def)
  moreover have "step ?s (worker_top 0 ?s)"
    by (rule step.top)
      (simp_all add: new_pool_def dmn_work_submit_def start_worker_def Let_def cond_signal_def waiting_def)
  ultimately show ?thesis unfolding demo_def by (rule reach.more)
qed

lemma demo_eq: "demo = (new_pool 1)\<lparr>workers := [Run 0], wstate := (\<lambda>w. WORK_QUEUED)(0 := WORK_RUNNING), refs := 2,
  nr_workers := 1, active := [0], next_work := 1\<rparr>"
  by (rule pool.equality)
    (simp_all add: demo_def new_pool_def dmn_work_submit_def start_worker_def Let_def cond_signal_def waiting_def
      worker_top_def fun_eq_iff)

theorem workpool_memory_witness: "reach 1 demo \<and> nr_idle demo = cnt waits demo \<and> distinct (freed demo)"
  using workpool_memory [OF demo_reach] demo_reach by blast

text \<open>A step reports at most one work, which the client then no longer owns.\<close>

lemma called_worker_top [simp]: "called (worker_top i s) = called s" "pool_freed (worker_top i s) = pool_freed s"
  by (simp_all add: worker_top_def unref_eq split: list.split)

lemma called_signal [simp]: "called (cond_signal pick s) = called s"
  by (simp add: cond_signal_def)

lemma called_free_detached [simp]: "called (free_detached w s) = called s"
proof -
  have "called (work_free r t) = called t" for r t by (cases r) auto
  then show ?thesis by (auto simp: free_detached_def detach_def Let_def split: if_splits)
qed

lemma called_submit [simp]: "called (snd (dmn_work_submit v t m te ce pick s)) = called s"
  by (auto simp: dmn_work_submit_def start_worker_def Let_def)

lemma called_finish:
  "called (finish b w to s) = called s @ [(w, to)]" "active (finish b w to s) = remove1 w (active s)"
  by (auto simp: finish_def detach_def Let_def)

lemma called_step:
  assumes "step s s'" "pool_inv s"
  shows "called s' = called s \<or>
    (\<exists>w b. called s' = called s @ [(w, b)] \<and> w \<in> set (active s) \<and> active s' = remove1 w (active s) \<and> \<not> pool_freed s)"
  using assms
proof (induction rule: step.induct)
  case (dispatch s)
  have "set (dones s) \<subseteq> set (active s)" using dispatch.prems by (auto simp: pool_inv_def states_ok_def)
  then show ?case using dispatch wakeD(3) [of s] hd_in_set [of "dones s"]
    by (auto simp: on_done_loop_def called_finish destroy_def Let_def)
next
  case (called s b r)
  then show ?case by (cases r) (auto simp: finish_return_def)
next
  case (expire s w)
  then show ?case using wakeD(3) [of s] by (auto simp: called_finish)
qed (auto simp: worker_wake_def worker_return_def worker_drop_def dmn_work_cancel_def dmn_work_pool_free_def
    destroy_def on_done_def on_timeout_def destroy_step_def unref_eq cond_broadcast_def Let_def split: list.split)

text \<open>C23: Callbacks: every work's done callback runs at most once, and only for a work the client
  still owns when the event loop takes it - never after a cancel, never after the pool is freed;
  unless it is called for a timeout, the work's function has returned before; and no work's
  function runs twice.\<close>

theorem workpool_callbacks:
  assumes "reach n s" "step s s'"
  shows "distinct (map fst (called s')) \<and> distinct (returned s') \<and>
    (\<forall>w. (w, False) \<in> set (called s') \<longrightarrow> w \<in> set (returned s')) \<and>
    (\<forall>w b. (w, b) \<in> set (called s') \<longrightarrow> (w, b) \<in> set (called s) \<or> w \<in> set (active s) \<and> w \<notin> set (active s') \<and> \<not> pool_freed s)"
proof -
  have i: "pool_inv s" "pool_inv s'" using assms by (auto intro: reach_inv reach.more)
  have "w \<in> set (active s) \<and> w \<notin> set (active s') \<and> \<not> pool_freed s"
    if "(w, b) \<in> set (called s')" "(w, b) \<notin> set (called s)" for w b
    using called_step [OF assms(2) i(1)] that i(1) by (auto simp: pool_inv_def states_ok_def)
  then show ?thesis using i(2) by (auto simp: pool_inv_def logs_ok_def)
qed

theorem workpool_callbacks_witness:
  "reach 1 demo \<and> step demo (worker_return 0 0 demo) \<and> distinct (returned (worker_return 0 0 demo))"
proof -
  have "step demo (worker_return 0 0 demo)" by (rule step.ret) (simp_all add: demo_eq)
  then show ?thesis using workpool_callbacks [OF demo_reach] demo_reach by blast
qed


text \<open>C15: No wakeup is lost.  While works are queued, a worker sleeps without a signal only if at
  least as many other workers are already on their way to the queue as there are works in it, and
  some worker is awake in any case; and as long as an ended work waits to be reported, the
  event loop is reporting or will find the eventfd readable.\<close>

theorem workpool_no_lost_wakeup:
  assumes "reach n s"
  shows "(Idle \<in> set (workers s) \<longrightarrow> length (queued s) \<le> cnt checks s) \<and>
    (queued s \<noteq> [] \<longrightarrow> (\<exists>p \<in> set (workers s). p \<noteq> Idle \<and> p \<noteq> Gone)) \<and>
    (dones s \<noteq> [] \<longrightarrow> 0 < efd s \<or> dispatching s \<or> (\<exists>k. ev s = EvDestroy k))"
proof -
  have i: "wake_ok s" "counts_ok s" "states_ok s" using reach_inv [OF assms] by (auto simp: pool_inv_def)
  have 1: "Idle \<in> set (workers s) \<longrightarrow> length (queued s) \<le> cnt checks s"
    using i(1) cnt_zero [of "\<lambda>p. p = Idle" s] by (auto simp: wake_ok_def)
  have "\<exists>p \<in> set (workers s). p \<noteq> Idle \<and> p \<noteq> Gone" if q: "queued s \<noteq> []"
  proof -
    have "\<not> closing s" using i(2,3) q by (auto simp: counts_ok_def states_ok_def)
    then have g: "Gone \<notin> set (workers s)" using i(2) cnt_zero [of "\<lambda>p. p = Gone" s] by (auto simp: counts_ok_def)
    have "workers s \<noteq> []" using i(1) q by (auto simp: wake_ok_def)
    then have w: "hd (workers s) \<in> set (workers s)" by simp
    show ?thesis
    proof (cases "Idle \<in> set (workers s)")
      case True
      then have "cnt checks s \<noteq> 0" using 1 q by (cases "queued s") auto
      then show ?thesis unfolding cnt_zero by auto
    next
      case False
      then show ?thesis using w g by metis
    qed
  qed
  then show ?thesis using 1 i(1) by (auto simp: wake_ok_def)
qed

theorem workpool_no_lost_wakeup_witness:
  "\<exists>s p. reach 1 s \<and> queued s = [1] \<and> p \<in> set (workers s) \<and> p \<noteq> Idle \<and> p \<noteq> Gone"
proof -
  let ?s = "snd (dmn_work_submit True 0 True 0 0 0 demo)"
  have r: "reach 1 ?s" by (rule reach.more [OF demo_reach step.submit]) (simp add: in_client_def demo_eq new_pool_def)
  moreover have q: "queued ?s = [1]"
    by (simp add: demo_eq new_pool_def dmn_work_submit_def Let_def cond_signal_def waiting_def)
  moreover have "queued ?s \<noteq> []" using q by simp
  ultimately show ?thesis using workpool_no_lost_wakeup [OF r] by blast
qed

text \<open>What is left to do once the pool is gone.\<close>

fun rank :: "phase \<Rightarrow> nat" where
  "rank Gone = 0"
| "rank (Run w) = 3"
| "rank (Drop w) = 2"
| "rank _ = 1"

definition drain :: "pool \<Rightarrow> nat" where
  "drain s = sum_list (map rank (workers s)) + (if ev s = EvLoop then 0 else 1)"

lemma sum_rank_update: "i < length ws \<Longrightarrow> rank p < rank (ws ! i) \<Longrightarrow>
  sum_list (map rank (ws[i := p])) < sum_list (map rank ws)"
proof -
  assume i: "i < length ws" and r: "rank p < rank (ws ! i)"
  then have "rank (ws ! i) \<le> sum_list (map rank ws)" by (auto intro!: elem_le_sum_list [of i "map rank ws", simplified])
  then show ?thesis using i r by (simp add: map_update sum_list_update)
qed

lemma top_drain:
  assumes "closing s" "i < length (workers s)" "rank (workers s ! i) > 0"
  shows "drain (worker_top i s) < drain s"
  using assms sum_rank_update [of i "workers s" Gone] by (simp add: worker_top_def unref_eq drain_def)

lemma freed_running:
  assumes "pool_inv s" "pool_freed s"
  shows "closing s" "queued s = []" "dones s = []" "\<And>w. Run w \<in> set (workers s) \<Longrightarrow> wstate s w = WORK_DROPPED"
    "Idle \<notin> set (workers s)" "ev s = EvLoop \<or> (\<exists>r. ev s = EvCall False r)" "\<not> timer s w"
proof -
  show "closing s" using assms by (auto simp: pool_inv_def counts_ok_def)
  then show "Idle \<notin> set (workers s)" using assms(1) cnt_zero [of "\<lambda>p. p = Idle" s] by (auto simp: pool_inv_def wake_ok_def)
  show "queued s = []" "dones s = []" "\<not> timer s w" using assms by (auto simp: pool_inv_def states_ok_def)
  show "\<And>w. Run w \<in> set (workers s) \<Longrightarrow> wstate s w = WORK_DROPPED"
    using assms set_running [of _ s] by (fastforce simp: pool_inv_def states_ok_def)
  show "ev s = EvLoop \<or> (\<exists>r. ev s = EvCall False r)" using assms by (cases "ev s") (auto simp: pool_inv_def)
qed

text \<open>C24: Shutdown ends.  After the pool is freed every step any thread can take brings the end
  nearer: a natural number decreases with each, so the workers cannot run on for ever once their
  functions return; and where no thread can take a step any more, every work ever submitted has been
  freed and so has the shared state.\<close>

theorem workpool_shutdown:
  assumes "reach n s" "pool_freed s"
  shows "(\<forall>s'. step s s' \<longrightarrow> pool_freed s' \<and> drain s' < drain s) \<and>
    ((\<forall>s'. \<not> step s s') \<longrightarrow> shared_freed s \<and> set (freed s) = {..<next_work s})"
proof -
  have i: "pool_inv s" by (rule reach_inv [OF assms(1)])
  note f = freed_running [OF i assms(2)]
  have "pool_freed s' \<and> drain s' < drain s" if "step s s'" for s'
    using that
  proof (cases rule: step.cases)
    case (top k)
    then show ?thesis using f(1) top_drain [of s k] assms(2) by simp
  next
    case (wake k)
    then show ?thesis using f(1) top_drain [of "s\<lparr>nr_idle := nr_idle s - 1\<rparr>" k] assms(2)
      by (simp add: worker_wake_def drain_def)
  next
    case (ret k w)
    have "wstate s w = WORK_DROPPED" using f(4) ret nth_mem by metis
    then show ?thesis using ret sum_rank_update [of k "workers s" "Drop w"] assms(2)
      by (simp add: worker_return_def drain_def)
  next
    case (drop k w)
    then show ?thesis using sum_rank_update [of k "workers s" Ready] assms(2) by (simp add: worker_drop_def drain_def)
  next
    case (called b r)
    then show ?thesis using f(6) assms(2) by (cases r) (auto simp: finish_return_def drain_def)
  qed (use f assms(2) in \<open>auto simp: in_client_def dest: nth_mem\<close>)
  moreover have "shared_freed s \<and> set (freed s) = {..<next_work s}" if stuck: "\<And>s'. \<not> step s s'"
  proof -
    have g: "p = Gone" if p: "p \<in> set (workers s)" for p
    proof -
      from p obtain k where "k < length (workers s)" "workers s ! k = p" by (auto simp: in_set_conv_nth)
      then show ?thesis using stuck step.intros(1-5) [of k s] by (cases p) metis+
    qed
    have "ev s = EvLoop" using f(6) stuck step.called by metis
    moreover have "running s = []" "dropping s = []" using g set_running [of _ s] set_dropping [of _ s]
      by (metis phase.distinct list.set_intros(1) neq_Nil_conv)+
    ultimately have "set (freed s) = {..<next_work s}"
      using placed_distinct(2) [of "[]" s] i f(2,3) by (simp add: pool_inv_def)
    moreover have "shared_freed s" using i assms(2) cnt_zero [of lives s] g by (auto simp: pool_inv_def counts_ok_def)
    ultimately show ?thesis by simp
  qed
  ultimately show ?thesis by blast
qed

theorem workpool_shutdown_witness:
  "\<exists>s. reach 1 s \<and> pool_freed s \<and> workers s = [Run 0] \<and> drain (worker_return 0 0 s) < drain s"
proof -
  let ?a = "dmn_work_pool_free demo"
  let ?b = "destroy_step EvLoop ?a"
  let ?c = "destroy_step EvLoop ?b"
  have a: "reach 1 ?a" by (rule reach.more [OF demo_reach step.free]) (simp add: in_client_def demo_eq new_pool_def)
  have b: "reach 1 ?b" by (rule reach.more [OF a step.destroying])
      (simp add: dmn_work_pool_free_def destroy_def demo_eq new_pool_def)
  have bs: "?b = demo\<lparr>ev := EvDestroy EvLoop, active := [], timer := (timer demo)(0 := False),
      wstate := (wstate demo)(0 := WORK_DROPPED)\<rparr>"
    by (rule pool.equality) (simp_all add: dmn_work_pool_free_def destroy_def destroy_step_def free_detached_def detach_def
        demo_eq new_pool_def)
  have c: "reach 1 ?c" by (rule reach.more [OF b step.destroying]) (simp add: bs)
  have "pool_freed ?c" "workers ?c = [Run 0]"
    unfolding bs by (simp_all add: destroy_step_def unref_eq cond_broadcast_def demo_eq)
  moreover from this have "step ?c (worker_return 0 0 ?c)" by (intro step.ret) simp_all
  ultimately show ?thesis using workpool_shutdown [OF c] c by blast
qed

end
