(* ===== verification/Spec2Isabelle.thy ===== *)
theory Spec2Isabelle
  imports Base64 Crc32 Cstrings DiscLog DiscTid DiscoverdConfig Dlp Exclusion GetLog Hex Ini Inventory KeysdConfig Kmip KmipClient KmipPsk Net Nqn Numbers Prelude Sha256 Suffix Tid Timespan TlsKey Ttlv Workpool
begin

text \<open>
  A verification library of nvme-cli: the command line tool \<open>nvme\<close>, the library \<open>libnvme\<close>, the
  discovery daemon \<open>nvme-discoverd\<close> and the key daemon \<open>nvme-keysd\<close>, as they are under \<open>src/\<close>.

  \<^bold>\<open>The program and its parts.\<close>  The helpers in \<open>shared/\<close> (strings, numbers, encodings, hashes, INI
  files, addresses) are used by everything else.  The two daemons share a worker pool in
  \<open>daemon-util/\<close>.  The key daemon reads its configuration, asks key management servers (KMS) for TLS
  pre-shared keys over KMIP - a binary protocol in TTLV encoding - and hands each key to the TLS
  key import of \<open>libnvme\<close>.  The discovery daemon keeps an inventory of controllers it should be
  connected to, which it learns from firmware tables, configuration, mDNS and the log pages of
  discovery controllers.  Controllers are named by transport IDs (TIDs) of \<open>libnvme\<close>, and the
  exclusion list of \<open>libnvme\<close> says which of them are left alone.

  \<^bold>\<open>Theories, from the bottom up.\<close>

  \<^item> \<open>Prelude\<close>: errno values, results (\<open>errno + 'a\<close>), bytes and words, C character classes, lemmas
    shared by all theories.
  \<^item> \<open>Cstrings\<close> (\<open>shared/string-util\<close>), \<open>Numbers\<close> (\<open>shared/parse-util.c\<close>), \<open>Suffix\<close>
    (\<open>shared/suffix-util.c\<close>, \<open>int-util.c\<close>), \<open>Timespan\<close> (\<open>shared/time-util.c\<close>), \<open>Hex\<close>
    (\<open>shared/hex-util.c\<close>), \<open>Nqn\<close> (\<open>shared/uuid-util.c\<close>, \<open>nqn-util.c\<close>), \<open>Base64\<close>
    (\<open>shared/base64-util.c\<close>): one definition per function; the lemmas say which spellings are
    accepted and what they mean, that overflow is refused, that results fit their buffers, and that
    what is printed reads back.
  \<^item> \<open>Crc32\<close>, \<open>Sha256\<close> (\<open>shared/crc32-util.c\<close>, \<open>sha256-util.c\<close>): the table-driven and streaming code
    against bit-serial and one-shot reference definitions of the standards; HMAC.
  \<^item> \<open>Ini\<close> (\<open>shared/ini-util.c\<close>), \<open>KeysdConfig\<close> (\<open>keysd/src/config.c\<close>), \<open>DiscoverdConfig\<close>
    (\<open>discoverd/src/config.c\<close>): the INI reader as a function from a text to the events it issues, and
    the two configurations as folds over these events; a loaded configuration is complete and
    well-formed whatever the file and whichever allocation fails.
  \<^item> \<open>Workpool\<close> (\<open>daemon-util/work.c\<close>): the critical sections of workers and event loop as atomic
    steps of a relation; memory safety, callbacks, no lost wakeup and shutdown for all interleavings.
  \<^item> \<open>Ttlv\<close> (\<open>keysd/src/ttlv.c\<close>), \<open>Kmip\<close> (\<open>keysd/src/kmip.c\<close>), \<open>TlsKey\<close>
    (\<open>libnvme/src/nvme/crypto.c\<close>, the part without OpenSSL and keyring), \<open>KmipPsk\<close>
    (\<open>keysd/src/kmip-psk.c\<close>), \<open>KmipClient\<close> (\<open>keysd/src/kmip-client.c\<close>): the way of a key from a KMS to
    the host.  The codec reads back what it writes; the requests and responses are exactly those of
    the operations; arbitrary bytes from a server stay within the buffers; a key stored on a KMS
    arrives; the servers are asked in order; and no key is forgotten by the client, whatever the
    helper answers, as long as its timers can be created.
  \<^item> \<open>Net\<close> (\<open>shared/net-util-linux.c\<close>), \<open>Tid\<close> (\<open>libnvme/src/nvme/tid.c\<close>), \<open>Exclusion\<close>
    (\<open>libnvme/src/nvme/exclusion.c\<close>): numeric addresses and their comparison, transport IDs with
    their cached strings, and the files of the exclusion list.
  \<^item> \<open>DiscTid\<close> (\<open>discoverd/src/tid.c\<close>), \<open>Inventory\<close> (\<open>discoverd/src/inventory.c\<close>), \<open>Dlp\<close>
    (\<open>discoverd/src/dlp.c\<close>, \<open>process_dlp\<close> of \<open>main.c\<close>, \<open>sanitize_discovery_log_entry\<close> of
    \<open>libnvme/src/nvme/fabrics.c\<close>): what the discovery daemon wants to be connected to.  Two candidates are
    the same exactly if their fields agree.  The inventory is a record of lists whose operations are
    the steps of a relation; it keeps its invariant and refines \<open>desires\<close>, sets of names and a map
    from a DC to its log page, in which a controller is desired if a chain of at most eight
    referrals leads to it.  A log page, whatever its bytes, is cleaned within its arrays, follows the
    transport and host side of its DC, and takes effect at once.
  \<^item> \<open>GetLog\<close> (\<open>libnvme_get_log\<close> and \<open>libnvme_get_log_dynamic_chunk\<close> of \<open>libnvme/src/nvme/nvme-cmds.c\<close>, with
    the initialisers of \<open>nvme-cmds-base.h\<close>), \<open>DiscLog\<close> (\<open>nvme_discovery_log\<close> and
    \<open>libnvmf_get_discovery_log\<close> of \<open>libnvme/src/nvme/fabrics.c\<close>, \<open>libnvme_alloc\<close> of \<open>mem-linux.c\<close>): log pages are read
    in pieces that cover their range exactly and within the buffer (with the flag \<open>force_4k\<close>, if the length is a
    multiple of 4096), with a transfer length that
    shrinks where the controller refuses it, and a discovery log that is read while it changes is
    a snapshot of one of its states, read within its buffers (with \<open>force_4k\<close> off).

  \<^bold>\<open>Conventions.\<close>  A struct is a record, an enum a datatype or its numbers, an error a value of \<open>errno\<close>
  (\<open>Inl\<close> or \<open>Some\<close>), a buffer a list of bytes with its offsets written out, and integers have their C
  width where they can wrap.  The outcome of \<open>malloc\<close> and of system calls is an argument (\<open>mem\<close>, \<open>mok\<close>,
  \<open>fresh\<close> and the like), so that every failure is a branch; \<open>plenty\<close> in \<open>Ttlv\<close> and \<open>Kmip\<close> says that
  allocation succeeds and returns a block of the requested size.  A file system is a map from paths
  to contents.  \<open>inet_pton\<close>, \<open>inet_ntop\<close> and \<open>if_nametoindex\<close> are fields of a record \<open>inet\<close>; the hypothesis
  \<open>inet_ok\<close> states what their manual page promises, and \<open>v4_net\<close> satisfies it; \<open>inet_apart\<close> says that no string is an
  address of both families.  OpenSSL's HMAC, the TLS
  connection to a KMS, the resolver and the event loop are arguments of the functions that call
  them.  In \<open>KmipClient\<close>, \<open>cfg_ok\<close> says that the retry delays are positive and ordered, \<open>clock_ok\<close> that the
  clock does not wrap, and \<open>clock_window\<close> that it advances by less than the first retry delay while
  a queue is started.  What a KMS may answer is \<open>kmip_reply\<close>: any well-formed items that say success, with whatever
  other items the server adds.  The section of \<open>libnvmf_exclusion_write\<close> under its lock is one step.
  The reference of SHA-256 shares the compression function with the model of the code.  Log messages have
  no model.

  \<^bold>\<open>Loops and termination.\<close>  Loops are structural recursion or \<open>function\<close>s with a measure (bytes or
  characters left, servers left, budget of hops), so they are total.  The loops that
  are \<open>partial_function\<close>s, \<open>queue_next\<close> of the KMIP client and the two loops of \<open>GetLog\<close>, are proved to
  return.  The trees of TTLV items
  are read with a depth bounded by the length of the input.

  \<^bold>\<open>Interfaces.\<close>  Locales state what one component relies on of another: the laws of an interface are
  their assumptions, and each is interpreted on the definitions of the model.

  \<^bold>\<open>Not modelled.\<close>  Floating point conversions (\<open>shr_parse_double\<close> and the double formatters of
  \<open>suffix-util.c\<close>); calendar functions of \<open>time-util.c\<close>, which ask libc for time zones; netlink and
  ethtool queries of \<open>net-util-linux.c\<close>; key derivation and the keyring in \<open>crypto.c\<close>; the vendor
  plugins, commands and printing of \<open>nvme\<close>, which are option parsing around ioctls and output;
  sysfs scanning, ioctls, the fabrics device and MCTP in \<open>libnvme\<close>, and the readers of single log pages, which only
  fill in a command; the fabrics configuration files;
  the D-Bus, udev, mDNS and Varlink glue of the daemons and the NBFT files; generated code, tests and the code for other
  platforms.
\<close>

end
